(* ===== verification/Kernel_Prelude.thy ===== *)
theory Kernel_Prelude
  imports Main "HOL-Library.Word" "HOL-Library.Multiset"
begin

text \<open>
  What every component of the development shares: the names of C's integer types on
  x86\_64, the outcome of code that can hit a \<^verbatim>\<open>BUG_ON\<close>, the rounding and clamping
  macros of \<^verbatim>\<open>include/linux/kernel.h\<close>, the page constants, and the generic lemmas on
  words and lists that the component proofs use.
\<close>

unbundle bit_operations_syntax

section \<open>Types of the C code\<close>

type_synonym u8 = "8 word"
type_synonym u16 = "16 word"
type_synonym u32 = "32 word"
type_synonym u64 = "64 word"

text \<open>
  \<open>Bug\<close> is a \<^verbatim>\<open>BUG_ON\<close> that fires, \<open>NoFuel\<close> a recursion that used up the fuel
  its model was given; only \<open>Ret\<close> is a return of the C function.
\<close>

datatype 'a outcome = Ret 'a | Bug | NoFuel

fun obind :: "'a outcome \<Rightarrow> ('a \<Rightarrow> 'b outcome) \<Rightarrow> 'b outcome" where
  "obind (Ret x) f = f x"
| "obind Bug f = Bug"
| "obind NoFuel f = NoFuel"

lemma obind_Ret_conv: "obind m f = Ret y \<longleftrightarrow> (\<exists>x. m = Ret x \<and> f x = Ret y)"
  by (cases m) auto

lemma obind_Bug_conv: "obind m f = Bug \<longleftrightarrow> m = Bug \<or> (\<exists>x. m = Ret x \<and> f x = Bug)"
  by (cases m) auto

lemma obind_cong [fundef_cong]:
  "m = m' \<Longrightarrow> (\<And>x. m' = Ret x \<Longrightarrow> f x = f' x) \<Longrightarrow> obind m f = obind m' f'"
  by (cases m') auto

text \<open>The error numbers of \<^verbatim>\<open>include/uapi/asm-generic/errno-base.h\<close> the components return.\<close>

abbreviation (input) EPERM :: int where "EPERM \<equiv> 1"
abbreviation (input) EAGAIN :: int where "EAGAIN \<equiv> 11"
abbreviation (input) ENOMEM :: int where "ENOMEM \<equiv> 12"
abbreviation (input) EFAULT :: int where "EFAULT \<equiv> 14"
abbreviation (input) EBUSY :: int where "EBUSY \<equiv> 16"
abbreviation (input) EINVAL :: int where "EINVAL \<equiv> 22"
abbreviation (input) ERANGE :: int where "ERANGE \<equiv> 34"
abbreviation (input) E2BIG :: int where "E2BIG \<equiv> 7"

section \<open>Macros\<close>

abbreviation (input) ULLONG_MAX :: u64 where "ULLONG_MAX \<equiv> - 1"
abbreviation (input) PAGE_SHIFT :: nat where "PAGE_SHIFT \<equiv> 12"
abbreviation (input) PAGE_SIZE :: u64 where "PAGE_SIZE \<equiv> 4096"

definition round_up :: "u64 \<Rightarrow> u64 \<Rightarrow> u64" where
  "round_up x y = ((x - 1) OR (y - 1)) + 1"

definition round_down :: "u64 \<Rightarrow> u64 \<Rightarrow> u64" where
  "round_down x y = x AND NOT (y - 1)"

definition clamp :: "u64 \<Rightarrow> u64 \<Rightarrow> u64 \<Rightarrow> u64" where
  "clamp v lo hi = min (max v lo) hi"

definition PAGE_ALIGN :: "u64 \<Rightarrow> u64" where
  "PAGE_ALIGN x = (x + (PAGE_SIZE - 1)) AND NOT (PAGE_SIZE - 1)"

definition PFN_UP :: "u64 \<Rightarrow> u64" where
  "PFN_UP x = drop_bit PAGE_SHIFT (x + PAGE_SIZE - 1)"

definition PFN_DOWN :: "u64 \<Rightarrow> u64" where
  "PFN_DOWN x = drop_bit PAGE_SHIFT x"

definition PFN_PHYS :: "u64 \<Rightarrow> u64" where
  "PFN_PHYS x = push_bit PAGE_SHIFT x"

lemma round_up_0 [simp]: "round_up 0 y = 0"
  by (simp add: round_up_def)

lemma round_down_0 [simp]: "round_down 0 y = 0"
  by (simp add: round_down_def)

section \<open>Words\<close>

lemma word_neq_0_gt: "(x :: 'a::len word) \<noteq> 0 \<longleftrightarrow> 0 < x"
  by (simp add: word_neq_0_conv)

lemma word_add_diff_cancel: "(b :: 'a::len word) + (r - b) = r"
  by simp

lemma unat_max_minus: "unat (- 1 - x :: 'a::len word) = 2 ^ LENGTH('a) - 1 - unat x"
  by (subst unat_sub) (simp_all add: unsigned_minus_1_eq_mask mask_eq_exp_minus_1)

lemma unat_bound: "unat (x :: 'a::len word) < 2 ^ LENGTH('a)"
  by (rule unsigned_less)

lemma unat_add_no_wrap:
  "unat a + unat b < 2 ^ LENGTH('a) \<Longrightarrow> unat (a + b :: 'a::len word) = unat a + unat b"
  by (simp add: unat_word_ariths)

lemma word_less_add_no_wrap:
  "unat a + unat b < 2 ^ LENGTH('a) \<Longrightarrow> b \<noteq> 0 \<Longrightarrow> (a :: 'a::len word) < a + b"
  by (simp add: word_less_nat_alt unat_add_no_wrap unat_gt_0)

section \<open>Lists\<close>

lemma nth_append_Suc [simp]: "(xs @ a # b # ys) ! Suc (length xs) = b"
  by (simp add: nth_append)

text \<open>The index of the first element with a property.\<close>

primrec find_index :: "('a \<Rightarrow> bool) \<Rightarrow> 'a list \<Rightarrow> nat option" where
  "find_index P [] = None"
| "find_index P (x # xs) = (if P x then Some 0 else map_option Suc (find_index P xs))"

lemma find_index_None: "find_index P xs = None \<longleftrightarrow> (\<forall>x\<in>set xs. \<not> P x)"
  by (induction xs) auto

lemma find_index_Some:
  "find_index P xs = Some i \<Longrightarrow> i < length xs \<and> P (xs ! i) \<and> (\<forall>j<i. \<not> P (xs ! j))"
proof (induction xs arbitrary: i)
  case (Cons x xs)
  show ?case
  proof (cases "P x")
    case False
    with Cons.prems obtain j where "find_index P xs = Some j" "i = Suc j" by auto
    with Cons.IH [of j] False show ?thesis by (auto simp: less_Suc_eq_0_disj)
  qed (use Cons.prems in auto)
qed simp

lemma take_mid_drop:
  assumes "s \<le> en"
  shows "take s xs @ drop s (take en xs) @ drop en xs = xs"
proof -
  have "take s xs = take s (take en xs)" using assms by (simp add: min_def)
  then have "take s xs @ drop s (take en xs) = take en xs" by (simp only: append_take_drop_id)
  then show ?thesis by (metis append.assoc append_take_drop_id)
qed

lemma append3_parts:
  assumes "xs = a @ b @ c"
  shows "take (length a) xs = a" "drop (length a) xs = b @ c" "drop (length a + length b) xs = c"
    "length xs = length a + length b + length c"
  using assms by simp_all

section \<open>Bits of words\<close>

lemma take_bit_self_iff: "take_bit n (w :: 'a::len word) = w \<longleftrightarrow> unat w < 2 ^ n"
  by (simp add: word_unat_eq_iff unsigned_take_bit_eq take_bit_nat_eq_self_iff)

lemma unat_ucast_widen: "LENGTH('a) \<le> LENGTH('b) \<Longrightarrow> unat (ucast (w :: 'a::len word) :: 'b::len word) = unat w"
  by (metis unsigned_ucast_eq take_bit_nat_eq_self unsigned_less order_less_le_trans
      power_increasing_iff one_less_numeral_iff semiring_norm(76))

end
