(* ===== verification/Memblock.thy ===== *)
theory Memblock
  imports Kernel_Prelude
begin

text \<open>
  The boot-time memory allocator, \<^verbatim>\<open>mm/memblock.c\<close> and \<^verbatim>\<open>include/linux/memblock.h\<close>.
  This theory holds the data and every operation; the theories \<open>Memblock_Regions\<close> to
  \<open>Memblock_Props\<close> hold the proofs.

  A \<^verbatim>\<open>struct memblock_type\<close> is an array of regions sorted by address. The model keeps
  the first \<^verbatim>\<open>cnt\<close> entries of the array as a list, so \<^verbatim>\<open>cnt\<close> is its length; \<^verbatim>\<open>max\<close>
  is a field of its own. Physical addresses and sizes are 64-bit words, and every sum and
  difference wraps as in C. The configuration is that of \<^verbatim>\<open>minimalconfig\<close>
  (HAVE\_MEMBLOCK\_NODE\_MAP, one node, no physmem map, no memory hotplug).
  The global variables of the C file are the fields of one record.
\<close>

section \<open>Data\<close>

abbreviation (input) MEMBLOCK_NONE :: u64 where "MEMBLOCK_NONE \<equiv> 0"
abbreviation (input) MEMBLOCK_HOTPLUG :: u64 where "MEMBLOCK_HOTPLUG \<equiv> 1"
abbreviation (input) MEMBLOCK_MIRROR :: u64 where "MEMBLOCK_MIRROR \<equiv> 2"
abbreviation (input) MEMBLOCK_NOMAP :: u64 where "MEMBLOCK_NOMAP \<equiv> 4"
abbreviation (input) MAX_NUMNODES :: int where "MAX_NUMNODES \<equiv> 1"
abbreviation (input) NUMA_NO_NODE :: int where "NUMA_NO_NODE \<equiv> - 1"
abbreviation (input) MEMBLOCK_ALLOC_ANYWHERE :: u64 where "MEMBLOCK_ALLOC_ANYWHERE \<equiv> - 1"
abbreviation (input) MEMBLOCK_ALLOC_ACCESSIBLE :: u64 where "MEMBLOCK_ALLOC_ACCESSIBLE \<equiv> 0"
abbreviation (input) SMP_CACHE_BYTES :: u64 where "SMP_CACHE_BYTES \<equiv> 64"
abbreviation (input) INIT_MEMBLOCK_REGIONS :: nat where "INIT_MEMBLOCK_REGIONS \<equiv> 128"

record memblock_region =
  mr_base :: u64
  mr_size :: u64
  mr_flags :: u64
  mr_nid :: int

text \<open>
  Where the array of a type lives: the static \<^verbatim>\<open>memblock_*_init_regions\<close>, or memory
  obtained by \<^verbatim>\<open>memblock_double_array\<close>, by its physical address.
\<close>

datatype regions_loc = InitRegions | AllocAt u64

record memblock_type =
  mt_max :: nat
  mt_total_size :: u64
  mt_regions :: "memblock_region list"
  mt_loc :: regions_loc

record memblock =
  mb_bottom_up :: bool
  mb_current_limit :: u64
  mb_memory :: memblock_type
  mb_reserved :: memblock_type
  mb_has_mirror :: bool
  mb_can_resize :: bool
  mb_memory_in_slab :: bool
  mb_reserved_in_slab :: bool

text \<open>A pointer to one of the two types, \<^verbatim>\<open>&memblock.memory\<close> or \<^verbatim>\<open>&memblock.reserved\<close>.\<close>

datatype which = Memory | Reserved

definition get_type :: "memblock \<Rightarrow> which \<Rightarrow> memblock_type" where
  "get_type st w = (case w of Memory \<Rightarrow> mb_memory st | Reserved \<Rightarrow> mb_reserved st)"

definition put_type :: "memblock \<Rightarrow> which \<Rightarrow> memblock_type \<Rightarrow> memblock" where
  "put_type st w ty =
     (case w of Memory \<Rightarrow> st\<lparr>mb_memory := ty\<rparr> | Reserved \<Rightarrow> st\<lparr>mb_reserved := ty\<rparr>)"

text \<open>
  What the file takes from the rest of the kernel: the end of the kernel image, whether the
  slab allocator is up, and the physical address \<^verbatim>\<open>kmalloc\<close> would return for a size
  (0 for a null pointer).
\<close>

record memblock_env =
  env_kernel_end :: u64
  env_slab_available :: bool
  env_kmalloc :: "u64 \<Rightarrow> u64"

definition empty_region :: memblock_region where
  "empty_region = \<lparr>mr_base = 0, mr_size = 0, mr_flags = 0, mr_nid = MAX_NUMNODES\<rparr>"

text \<open>
  The static initialiser. The dummy entry of the static arrays is zero-filled, so its node
  is 0 and not \<^verbatim>\<open>MAX_NUMNODES\<close>.
\<close>

definition memblock_init_type :: memblock_type where
  "memblock_init_type =
     \<lparr>mt_max = INIT_MEMBLOCK_REGIONS, mt_total_size = 0,
      mt_regions = [\<lparr>mr_base = 0, mr_size = 0, mr_flags = 0, mr_nid = 0\<rparr>],
      mt_loc = InitRegions\<rparr>"

definition memblock_init :: memblock where
  "memblock_init =
     \<lparr>mb_bottom_up = False, mb_current_limit = MEMBLOCK_ALLOC_ANYWHERE,
      mb_memory = memblock_init_type, mb_reserved = memblock_init_type,
      mb_has_mirror = False, mb_can_resize = False,
      mb_memory_in_slab = False, mb_reserved_in_slab = False\<rparr>"

section \<open>Region flags and address helpers\<close>

definition choose_memblock_flags :: "memblock \<Rightarrow> u64" where
  "choose_memblock_flags st = (if mb_has_mirror st then MEMBLOCK_MIRROR else MEMBLOCK_NONE)"

definition memblock_is_hotpluggable :: "memblock_region \<Rightarrow> bool" where
  "memblock_is_hotpluggable m \<longleftrightarrow> mr_flags m AND MEMBLOCK_HOTPLUG \<noteq> 0"

definition memblock_is_mirror :: "memblock_region \<Rightarrow> bool" where
  "memblock_is_mirror m \<longleftrightarrow> mr_flags m AND MEMBLOCK_MIRROR \<noteq> 0"

definition memblock_is_nomap :: "memblock_region \<Rightarrow> bool" where
  "memblock_is_nomap m \<longleftrightarrow> mr_flags m AND MEMBLOCK_NOMAP \<noteq> 0"

definition memblock_set_region_flags :: "u64 \<Rightarrow> memblock_region \<Rightarrow> memblock_region" where
  "memblock_set_region_flags fl r = r\<lparr>mr_flags := mr_flags r OR fl\<rparr>"

definition memblock_clear_region_flags :: "u64 \<Rightarrow> memblock_region \<Rightarrow> memblock_region" where
  "memblock_clear_region_flags fl r = r\<lparr>mr_flags := mr_flags r AND NOT fl\<rparr>"

definition memblock_set_region_node :: "int \<Rightarrow> memblock_region \<Rightarrow> memblock_region" where
  "memblock_set_region_node n r = r\<lparr>mr_nid := n\<rparr>"

definition memblock_cap_size :: "u64 \<Rightarrow> u64 \<Rightarrow> u64" where
  "memblock_cap_size base sz = min sz (ULLONG_MAX - base)"

definition memblock_addrs_overlap :: "u64 \<Rightarrow> u64 \<Rightarrow> u64 \<Rightarrow> u64 \<Rightarrow> bool" where
  "memblock_addrs_overlap base1 size1 base2 size2 \<longleftrightarrow>
     base1 < base2 + size2 \<and> base2 < base1 + size1"

definition memblock_overlaps_region :: "memblock_type \<Rightarrow> u64 \<Rightarrow> u64 \<Rightarrow> bool" where
  "memblock_overlaps_region ty base sz \<longleftrightarrow>
     list_ex (\<lambda>r. memblock_addrs_overlap base sz (mr_base r) (mr_size r)) (mt_regions ty)"

abbreviation mr_end :: "memblock_region \<Rightarrow> u64" where
  "mr_end r \<equiv> mr_base r + mr_size r"

section \<open>Editing the region array\<close>

definition memblock_remove_region :: "memblock_type \<Rightarrow> nat \<Rightarrow> memblock_type" where
  "memblock_remove_region ty r =
     (let rs = mt_regions ty; rs' = take r rs @ drop (Suc r) rs in
      ty\<lparr>mt_total_size := mt_total_size ty - mr_size (rs ! r),
         mt_regions := (if rs' = [] then [empty_region] else rs')\<rparr>)"

definition memblock_insert_region ::
  "memblock_type \<Rightarrow> nat \<Rightarrow> u64 \<Rightarrow> u64 \<Rightarrow> int \<Rightarrow> u64 \<Rightarrow> memblock_type outcome" where
  "memblock_insert_region ty idx base sz nid flags =
     (let rs = mt_regions ty in
      if length rs \<ge> mt_max ty then Bug
      else Ret (ty\<lparr>mt_regions :=
                   take idx rs @
                   \<lparr>mr_base = base, mr_size = sz, mr_flags = flags, mr_nid = nid\<rparr> # drop idx rs,
                 mt_total_size := mt_total_size ty + sz\<rparr>))"

text \<open>The loop of \<^verbatim>\<open>memblock_merge_regions\<close> at index \<open>i\<close>.\<close>

function merge_regions_from :: "memblock_region list \<Rightarrow> nat \<Rightarrow> memblock_region list outcome" where
  "merge_regions_from rs i =
     (if Suc i < length rs then
        let this = rs ! i; nxt = rs ! Suc i in
        if mr_end this \<noteq> mr_base nxt \<or> mr_nid this \<noteq> mr_nid nxt \<or>
           mr_flags this \<noteq> mr_flags nxt
        then (if mr_end this > mr_base nxt then Bug else merge_regions_from rs (Suc i))
        else merge_regions_from
               (take i rs @ this\<lparr>mr_size := mr_size this + mr_size nxt\<rparr> # drop (Suc (Suc i)) rs) i
      else Ret rs)"
  by pat_completeness auto
termination
  by (relation "measure (\<lambda>(rs, i). length rs - i)") auto

declare merge_regions_from.simps [simp del]

definition memblock_merge_regions :: "memblock_type \<Rightarrow> memblock_type outcome" where
  "memblock_merge_regions ty =
     obind (merge_regions_from (mt_regions ty) 0) (\<lambda>rs. Ret (ty\<lparr>mt_regions := rs\<rparr>))"

section \<open>Walking the free ranges\<close>

text \<open>
  The 64-bit loop variable of the range iterators: the index into the first type in the
  low half, the index into the second in the high half, both C \<^verbatim>\<open>int\<close>s.
\<close>

definition pack_idx :: "int \<Rightarrow> int \<Rightarrow> u64" where
  "pack_idx a b = ucast (word_of_int a :: u32) OR push_bit 32 (word_of_int b)"

definition idx_a_of :: "u64 \<Rightarrow> int" where
  "idx_a_of i = sint (ucast i :: u32)"

definition idx_b_of :: "u64 \<Rightarrow> int" where
  "idx_b_of i = sint (ucast (drop_bit 32 i) :: u32)"

text \<open>The area before reservation \<open>i\<close>: \<^verbatim>\<open>r_start\<close> and \<^verbatim>\<open>r_end\<close> of the loops.\<close>

definition gap_start :: "memblock_region list \<Rightarrow> nat \<Rightarrow> u64" where
  "gap_start rs i = (if i = 0 then 0 else mr_end (rs ! (i - 1)))"

definition gap_end :: "memblock_region list \<Rightarrow> nat \<Rightarrow> u64" where
  "gap_end rs i = (if i < length rs then mr_base (rs ! i) else ULLONG_MAX)"

text \<open>
  The conditions under which both iterators skip a memory region.
  \<^verbatim>\<open>movable_node_is_enabled()\<close> is constantly false in this configuration.
\<close>

definition skip_region :: "int \<Rightarrow> u64 \<Rightarrow> memblock_region \<Rightarrow> bool" where
  "skip_region nid flags m \<longleftrightarrow>
     (nid \<noteq> NUMA_NO_NODE \<and> nid \<noteq> mr_nid m) \<or>
     (flags AND MEMBLOCK_MIRROR \<noteq> 0 \<and> \<not> memblock_is_mirror m) \<or>
     (flags AND MEMBLOCK_NOMAP = 0 \<and> memblock_is_nomap m)"

text \<open>
  The inner loop of \<^verbatim>\<open>__next_mem_range\<close>: \<open>(True, b)\<close> when the area before reservation
  \<open>b\<close> intersects the memory region, \<open>(False, b)\<close> when the loop is left at \<open>b\<close> without one.
  The loops compare a C \<^verbatim>\<open>int\<close> index with an \<^verbatim>\<open>unsigned long\<close>, so a negative index
  ends them.
\<close>

function scan_gaps :: "u64 \<Rightarrow> u64 \<Rightarrow> memblock_region list \<Rightarrow> int \<Rightarrow> bool \<times> int" where
  "scan_gaps m_start m_end rs b =
     (if 0 \<le> b \<and> b < int (length rs) + 1 then
        if gap_start rs (nat b) \<ge> m_end then (False, b)
        else if m_start < gap_end rs (nat b) then (True, b)
        else scan_gaps m_start m_end rs (b + 1)
      else (False, b))"
  by pat_completeness auto
termination
  by (relation "measure (\<lambda>(s, e, rs, b). nat (int (length rs) + 1 - b))") auto

declare scan_gaps.simps [simp del]

text \<open>The outer loop; the result is the range found, its node, and the next two indices.\<close>

function next_range_from ::
  "int \<Rightarrow> u64 \<Rightarrow> memblock_region list \<Rightarrow> memblock_region list option \<Rightarrow> int \<Rightarrow> int \<Rightarrow>
   ((u64 \<times> u64 \<times> int) \<times> int \<times> int) option" where
  "next_range_from nid flags as bs a b =
     (if 0 \<le> a \<and> a < int (length as) then
        let m = as ! nat a; m_start = mr_base m; m_end = mr_end m in
        if skip_region nid flags m then next_range_from nid flags as bs (a + 1) b
        else case bs of
          None \<Rightarrow> Some ((m_start, m_end, mr_nid m), a + 1, b)
        | Some rs \<Rightarrow>
            (case scan_gaps m_start m_end rs b of
               (True, b') \<Rightarrow>
                 Some ((max m_start (gap_start rs (nat b')), min m_end (gap_end rs (nat b')),
                        mr_nid m),
                       (if m_end \<le> gap_end rs (nat b') then (a + 1, b') else (a, b' + 1)))
             | (False, b') \<Rightarrow> next_range_from nid flags as bs (a + 1) b')
      else None)"
  by pat_completeness auto
termination
  by (relation "measure (\<lambda>(nid, flags, as, bs, a, b). nat (int (length as) - a))") auto

declare next_range_from.simps [simp del]

text \<open>
  \<^verbatim>\<open>__next_mem_range\<close>: the new loop variable, and the out parameters when a range is found.
\<close>

definition next_mem_range ::
  "u64 \<Rightarrow> int \<Rightarrow> u64 \<Rightarrow> memblock_region list \<Rightarrow> memblock_region list option \<Rightarrow>
   u64 \<times> (u64 \<times> u64 \<times> int) option" where
  "next_mem_range idx nid flags as bs =
     (let nid = (if nid = MAX_NUMNODES then NUMA_NO_NODE else nid) in
      case next_range_from nid flags as bs (idx_a_of idx) (idx_b_of idx) of
        None \<Rightarrow> (ULLONG_MAX, None)
      | Some (out, a, b) \<Rightarrow> (pack_idx a b, Some out))"

text \<open>The two loops of \<^verbatim>\<open>__next_mem_range_rev\<close>, downwards.\<close>

function scan_gaps_rev :: "u64 \<Rightarrow> u64 \<Rightarrow> memblock_region list \<Rightarrow> int \<Rightarrow> bool \<times> int" where
  "scan_gaps_rev m_start m_end rs b =
     (if b \<ge> 0 then
        if gap_end rs (nat b) \<le> m_start then (False, b)
        else if m_end > gap_start rs (nat b) then (True, b)
        else scan_gaps_rev m_start m_end rs (b - 1)
      else (False, b))"
  by pat_completeness auto
termination
  by (relation "measure (\<lambda>(s, e, rs, b). nat (b + 1))") auto

declare scan_gaps_rev.simps [simp del]

function next_range_rev_from ::
  "int \<Rightarrow> u64 \<Rightarrow> memblock_region list \<Rightarrow> memblock_region list option \<Rightarrow> int \<Rightarrow> int \<Rightarrow>
   ((u64 \<times> u64 \<times> int) \<times> int \<times> int) option" where
  "next_range_rev_from nid flags as bs a b =
     (if a \<ge> 0 then
        let m = as ! nat a; m_start = mr_base m; m_end = mr_end m in
        if skip_region nid flags m then next_range_rev_from nid flags as bs (a - 1) b
        else case bs of
          None \<Rightarrow> Some ((m_start, m_end, mr_nid m), a - 1, b)
        | Some rs \<Rightarrow>
            (case scan_gaps_rev m_start m_end rs b of
               (True, b') \<Rightarrow>
                 Some ((max m_start (gap_start rs (nat b')), min m_end (gap_end rs (nat b')),
                        mr_nid m),
                       (if m_start \<ge> gap_start rs (nat b') then (a - 1, b') else (a, b' - 1)))
             | (False, b') \<Rightarrow> next_range_rev_from nid flags as bs (a - 1) b')
      else None)"
  by pat_completeness auto
termination
  by (relation "measure (\<lambda>(nid, flags, as, bs, a, b). nat (a + 1))") auto

declare next_range_rev_from.simps [simp del]

definition next_mem_range_rev ::
  "u64 \<Rightarrow> int \<Rightarrow> u64 \<Rightarrow> memblock_region list \<Rightarrow> memblock_region list option \<Rightarrow>
   u64 \<times> (u64 \<times> u64 \<times> int) option" where
  "next_mem_range_rev idx nid flags as bs =
     (let nid = (if nid = MAX_NUMNODES then NUMA_NO_NODE else nid);
          (idx_a, idx_b) =
            (if idx = ULLONG_MAX
             then (int (length as) - 1, (case bs of None \<Rightarrow> 0 | Some rs \<Rightarrow> int (length rs)))
             else (idx_a_of idx, idx_b_of idx)) in
      case next_range_rev_from nid flags as bs idx_a idx_b of
        None \<Rightarrow> (ULLONG_MAX, None)
      | Some (out, a, b) \<Rightarrow> (pack_idx a b, Some out))"

text \<open>
  The loops \<^verbatim>\<open>for_each_mem_range\<close> and \<^verbatim>\<open>for_each_mem_range_rev\<close> as the list of ranges
  their body sees. Each call of the iterator spends one unit of fuel.
\<close>

fun collect_ranges ::
  "(u64 \<Rightarrow> u64 \<times> (u64 \<times> u64 \<times> int) option) \<Rightarrow> nat \<Rightarrow> u64 \<Rightarrow>
   (u64 \<times> u64 \<times> int) list outcome" where
  "collect_ranges nxt 0 idx = NoFuel"
| "collect_ranges nxt (Suc fuel) idx =
     (case nxt idx of
        (idx', Some out) \<Rightarrow>
          if idx' \<noteq> ULLONG_MAX
          then obind (collect_ranges nxt fuel idx') (\<lambda>rs. Ret (out # rs)) else Ret []
      | (idx', None) \<Rightarrow>
          if idx' \<noteq> ULLONG_MAX then collect_ranges nxt fuel idx' else Ret [])"

text \<open>
  A range makes one of the two indices move on, so the number of calls is at most the number
  of regions of both types plus two.
\<close>

definition for_each_mem_range ::
  "memblock_type \<Rightarrow> memblock_type \<Rightarrow> int \<Rightarrow> u64 \<Rightarrow> (u64 \<times> u64 \<times> int) list outcome" where
  "for_each_mem_range ta tb nid flags =
     collect_ranges (\<lambda>i. next_mem_range i nid flags (mt_regions ta) (Some (mt_regions tb)))
       (length (mt_regions ta) + length (mt_regions tb) + 2) 0"

definition for_each_mem_range_rev ::
  "memblock_type \<Rightarrow> memblock_type \<Rightarrow> int \<Rightarrow> u64 \<Rightarrow> (u64 \<times> u64 \<times> int) list outcome" where
  "for_each_mem_range_rev ta tb nid flags =
     collect_ranges (\<lambda>i. next_mem_range_rev i nid flags (mt_regions ta) (Some (mt_regions tb)))
       (length (mt_regions ta) + length (mt_regions tb) + 2) ULLONG_MAX"

section \<open>Finding a free area\<close>

fun first_fit_bottom_up ::
  "u64 \<Rightarrow> u64 \<Rightarrow> u64 \<Rightarrow> u64 \<Rightarrow> (u64 \<times> u64 \<times> int) list \<Rightarrow> u64" where
  "first_fit_bottom_up start end sz align [] = 0"
| "first_fit_bottom_up start end sz align ((s, e, n) # rs) =
     (let this_start = clamp s start end; this_end = clamp e start end;
          cand = round_up this_start align in
      if cand < this_end \<and> this_end - cand \<ge> sz then cand
      else first_fit_bottom_up start end sz align rs)"

fun first_fit_top_down ::
  "u64 \<Rightarrow> u64 \<Rightarrow> u64 \<Rightarrow> u64 \<Rightarrow> (u64 \<times> u64 \<times> int) list \<Rightarrow> u64" where
  "first_fit_top_down start end sz align [] = 0"
| "first_fit_top_down start end sz align ((s, e, n) # rs) =
     (let this_start = clamp s start end; this_end = clamp e start end in
      if this_end < sz then first_fit_top_down start end sz align rs
      else let cand = round_down (this_end - sz) align in
        if cand \<ge> this_start then cand else first_fit_top_down start end sz align rs)"

definition memblock_find_range_bottom_up ::
  "memblock \<Rightarrow> u64 \<Rightarrow> u64 \<Rightarrow> u64 \<Rightarrow> u64 \<Rightarrow> int \<Rightarrow> u64 \<Rightarrow> u64 outcome" where
  "memblock_find_range_bottom_up st start end sz align nid flags =
     obind (for_each_mem_range (mb_memory st) (mb_reserved st) nid flags)
       (\<lambda>rs. Ret (first_fit_bottom_up start end sz align rs))"

definition memblock_find_range_top_down ::
  "memblock \<Rightarrow> u64 \<Rightarrow> u64 \<Rightarrow> u64 \<Rightarrow> u64 \<Rightarrow> int \<Rightarrow> u64 \<Rightarrow> u64 outcome" where
  "memblock_find_range_top_down st start end sz align nid flags =
     obind (for_each_mem_range_rev (mb_memory st) (mb_reserved st) nid flags)
       (\<lambda>rs. Ret (first_fit_top_down start end sz align rs))"

definition memblock_find_in_range_node ::
  "memblock_env \<Rightarrow> memblock \<Rightarrow> u64 \<Rightarrow> u64 \<Rightarrow> u64 \<Rightarrow> u64 \<Rightarrow> int \<Rightarrow> u64 \<Rightarrow> u64 outcome" where
  "memblock_find_in_range_node env st sz align start end nid flags =
     (let end = (if end = MEMBLOCK_ALLOC_ACCESSIBLE then mb_current_limit st else end);
          start = max start PAGE_SIZE;
          end = max start end;
          kernel_end = env_kernel_end env in
      obind (if mb_bottom_up st \<and> end > kernel_end
             then memblock_find_range_bottom_up st (max start kernel_end) end sz align nid flags
             else Ret 0)
        (\<lambda>ret. if ret \<noteq> 0 then Ret ret
               else memblock_find_range_top_down st start end sz align nid flags))"

text \<open>The retry loop runs at most twice: the second pass has the mirror flag cleared.\<close>

definition memblock_find_in_range ::
  "memblock_env \<Rightarrow> memblock \<Rightarrow> u64 \<Rightarrow> u64 \<Rightarrow> u64 \<Rightarrow> u64 \<Rightarrow> u64 outcome" where
  "memblock_find_in_range env st start end sz align =
     (let flags = choose_memblock_flags st in
      obind (memblock_find_in_range_node env st sz align start end NUMA_NO_NODE flags)
        (\<lambda>ret. if ret = 0 \<and> flags AND MEMBLOCK_MIRROR \<noteq> 0
               then memblock_find_in_range_node env st sz align start end NUMA_NO_NODE
                      (flags AND NOT MEMBLOCK_MIRROR)
               else Ret ret))"

section \<open>Adding and removing ranges\<close>

text \<open>
  \<^verbatim>\<open>memblock_double_array\<close> calls \<^verbatim>\<open>memblock_free\<close> and \<^verbatim>\<open>memblock_reserve\<close>, which may
  call it again for the array of reserved regions. The model ties that knot with fuel: the
  operations below take the doubling function as the argument \<open>grow\<close>, and
  \<open>memblock_double_array\<close> is defined from them. A doubling returns the new state and 0 or -1.
\<close>

type_synonym grow = "memblock \<Rightarrow> which \<Rightarrow> u64 \<Rightarrow> u64 \<Rightarrow> (memblock \<times> int) outcome"

text \<open>
  \<^verbatim>\<open>while (type->cnt + n > type->max) if (memblock_double_array(...) < 0) return -ENOMEM;\<close>
  with one unit of fuel per round; the flag says whether there is room.
\<close>

fun make_room ::
  "grow \<Rightarrow> nat \<Rightarrow> memblock \<Rightarrow> which \<Rightarrow> nat \<Rightarrow> u64 \<Rightarrow> u64 \<Rightarrow> (memblock \<times> bool) outcome" where
  "make_room grow fuel st w n base sz =
     (if length (mt_regions (get_type st w)) + n > mt_max (get_type st w) then
        case fuel of
          0 \<Rightarrow> NoFuel
        | Suc fuel' \<Rightarrow>
            obind (grow st w base sz)
              (\<lambda>(st', ret). if ret < 0 then Ret (st', False)
                            else make_room grow fuel' st' w n base sz)
      else Ret (st, True))"

declare make_room.simps [simp del]

text \<open>
  Three doublings are more than one request needs: a type with \<^verbatim>\<open>cnt\<close> regions takes at most
  \<^verbatim>\<open>cnt + 1\<close> new ones.
\<close>

abbreviation (input) room_fuel :: nat where "room_fuel \<equiv> 4"

text \<open>
  One pass of the loop of \<^verbatim>\<open>memblock_add_range\<close> from index \<open>idx\<close>; \<open>ins\<close> tells the
  counting pass from the inserting one. The result is the type, the remaining \<^verbatim>\<open>base\<close>, the
  index where the loop stopped and the count.
\<close>

function add_range_pass ::
  "bool \<Rightarrow> u64 \<Rightarrow> int \<Rightarrow> u64 \<Rightarrow> memblock_type \<Rightarrow> nat \<Rightarrow> u64 \<Rightarrow> nat \<Rightarrow>
   (memblock_type \<times> u64 \<times> nat \<times> nat) outcome" where
  "add_range_pass ins end nid flags ty idx base nr_new =
     (if idx < length (mt_regions ty) then
        let rgn = mt_regions ty ! idx; rbase = mr_base rgn; rend = mr_end rgn in
        if rbase \<ge> end then Ret (ty, base, idx, nr_new)
        else if rend \<le> base then add_range_pass ins end nid flags ty (Suc idx) base nr_new
        else if rbase > base then
          if ins then
            (case memblock_insert_region ty idx base (rbase - base) nid flags of
               Ret ty' \<Rightarrow> add_range_pass ins end nid flags ty' (Suc (Suc idx)) (min rend end)
                            (Suc nr_new)
             | Bug \<Rightarrow> Bug | NoFuel \<Rightarrow> NoFuel)
          else add_range_pass ins end nid flags ty (Suc idx) (min rend end) (Suc nr_new)
        else add_range_pass ins end nid flags ty (Suc idx) (min rend end) nr_new
      else Ret (ty, base, idx, nr_new))"
  by pat_completeness auto
termination
  by (relation "measure (\<lambda>(ins, e, n, f, ty, idx, b, nr). length (mt_regions ty) - idx)")
     (auto simp: memblock_insert_region_def Let_def split: if_splits)

declare add_range_pass.simps [simp del]

text \<open>The pass with the code after the loop, which handles the remaining portion.\<close>

definition add_range_round ::
  "bool \<Rightarrow> u64 \<Rightarrow> u64 \<Rightarrow> int \<Rightarrow> u64 \<Rightarrow> memblock_type \<Rightarrow> (memblock_type \<times> nat) outcome" where
  "add_range_round ins obase end nid flags ty =
     obind (add_range_pass ins end nid flags ty 0 obase 0)
       (\<lambda>(ty', base, idx, nr_new).
          if base < end then
            if ins then obind (memblock_insert_region ty' idx base (end - base) nid flags)
                             (\<lambda>ty''. Ret (ty'', Suc nr_new))
            else Ret (ty', Suc nr_new)
          else Ret (ty', nr_new))"

definition memblock_add_range_with ::
  "grow \<Rightarrow> memblock \<Rightarrow> which \<Rightarrow> u64 \<Rightarrow> u64 \<Rightarrow> int \<Rightarrow> u64 \<Rightarrow> (memblock \<times> int) outcome" where
  "memblock_add_range_with grow st w base sz nid flags =
     (let sz = memblock_cap_size base sz; end = base + sz; ty = get_type st w in
      if sz = 0 then Ret (st, 0)
      else if mr_size (mt_regions ty ! 0) = 0 then
        Ret (put_type st w (ty\<lparr>mt_regions := (mt_regions ty)[0 :=
               \<lparr>mr_base = base, mr_size = sz, mr_flags = flags, mr_nid = nid\<rparr>],
               mt_total_size := sz\<rparr>), 0)
      else obind (add_range_round False base end nid flags ty) (\<lambda>(_, nr_new).
        if nr_new = 0 then Ret (st, 0)
        else obind (make_room grow room_fuel st w nr_new base sz) (\<lambda>(st', ok).
          if \<not> ok then Ret (st', - ENOMEM)
          else obind (add_range_round True base end nid flags (get_type st' w)) (\<lambda>(ty', nr_new').
            if nr_new' = 0 then Ret (put_type st' w ty', 0)
            else obind (memblock_merge_regions ty') (\<lambda>ty''. Ret (put_type st' w ty'', 0))))))"

text \<open>
  The loop of \<^verbatim>\<open>memblock_isolate_range\<close>. \<^verbatim>\<open>idx--\<close> followed by the loop's \<^verbatim>\<open>idx++\<close> visits the
  same index again. What gets smaller is a weight of the regions still to visit: a region
  that crosses \<open>base\<close> weighs one more, one that crosses \<open>end\<close> two more.
\<close>

definition cross_weight :: "u64 \<Rightarrow> u64 \<Rightarrow> memblock_region \<Rightarrow> nat" where
  "cross_weight base end r =
     1 + (if mr_base r < base then 1 else 0) +
     (if mr_base r < end \<and> mr_end r > end then 2 else 0)"

function isolate_from ::
  "u64 \<Rightarrow> u64 \<Rightarrow> memblock_type \<Rightarrow> nat \<Rightarrow> nat \<Rightarrow> nat \<Rightarrow> (memblock_type \<times> nat \<times> nat) outcome" where
  "isolate_from base end ty idx start_rgn end_rgn =
     (if idx < length (mt_regions ty) then
        let rgn = mt_regions ty ! idx; rbase = mr_base rgn; rend = mr_end rgn in
        if rbase \<ge> end then Ret (ty, start_rgn, end_rgn)
        else if rend \<le> base then isolate_from base end ty (Suc idx) start_rgn end_rgn
        else if rbase < base then
          (case memblock_insert_region
              (ty\<lparr>mt_regions := (mt_regions ty)[idx :=
                    rgn\<lparr>mr_base := base, mr_size := mr_size rgn - (base - rbase)\<rparr>],
                  mt_total_size := mt_total_size ty - (base - rbase)\<rparr>)
              idx rbase (base - rbase) (mr_nid rgn) (mr_flags rgn) of
             Ret ty' \<Rightarrow> isolate_from base end ty' (Suc idx) start_rgn end_rgn
           | Bug \<Rightarrow> Bug | NoFuel \<Rightarrow> NoFuel)
        else if rend > end then
          (case memblock_insert_region
              (ty\<lparr>mt_regions := (mt_regions ty)[idx :=
                    rgn\<lparr>mr_base := end, mr_size := mr_size rgn - (end - rbase)\<rparr>],
                  mt_total_size := mt_total_size ty - (end - rbase)\<rparr>)
              idx rbase (end - rbase) (mr_nid rgn) (mr_flags rgn) of
             Ret ty' \<Rightarrow> isolate_from base end ty' idx start_rgn end_rgn
           | Bug \<Rightarrow> Bug | NoFuel \<Rightarrow> NoFuel)
        else isolate_from base end ty (Suc idx)
               (if end_rgn = 0 then idx else start_rgn) (Suc idx)
      else Ret (ty, start_rgn, end_rgn))"
  by pat_completeness auto
termination
proof (relation "measure (\<lambda>(base, end, ty, idx, s, e).
          sum_list (map (cross_weight base end) (drop idx (mt_regions ty))))", goal_cases)
  case 1
  then show ?case by simp
next
  case (2 base "end" ty idx s e rgn rbase rend)
  then show ?case
    by (simp add: Cons_nth_drop_Suc [symmetric] cross_weight_def)
next
  case (3 base "end" ty idx s e rgn rbase rend ty')
  then show ?case
    by (auto simp: memblock_insert_region_def Let_def Cons_nth_drop_Suc [symmetric]
          cross_weight_def add.commute split: if_splits)
next
  case (4 base "end" ty idx s e rgn rbase rend ty')
  then show ?case
    by (auto simp: memblock_insert_region_def Let_def Cons_nth_drop_Suc [symmetric]
          cross_weight_def add.commute split: if_splits)
next
  case (5 base "end" ty idx s e rgn rbase rend)
  then show ?case
    by (simp add: Cons_nth_drop_Suc [symmetric] cross_weight_def)
qed

declare isolate_from.simps [simp del]

definition memblock_isolate_range_with ::
  "grow \<Rightarrow> memblock \<Rightarrow> which \<Rightarrow> u64 \<Rightarrow> u64 \<Rightarrow> (memblock \<times> int \<times> nat \<times> nat) outcome" where
  "memblock_isolate_range_with grow st w base sz =
     (let sz = memblock_cap_size base sz; end = base + sz in
      if sz = 0 then Ret (st, 0, 0, 0)
      else obind (make_room grow room_fuel st w 2 base sz) (\<lambda>(st', ok).
        if \<not> ok then Ret (st', - ENOMEM, 0, 0)
        else obind (isolate_from base end (get_type st' w) 0 0 0) (\<lambda>(ty, start_rgn, end_rgn).
          Ret (put_type st' w ty, 0, start_rgn, end_rgn))))"

text \<open>\<^verbatim>\<open>for (i = end_rgn - 1; i >= start_rgn; i--) memblock_remove_region(type, i);\<close>\<close>

definition remove_regions :: "nat \<Rightarrow> nat \<Rightarrow> memblock_type \<Rightarrow> memblock_type" where
  "remove_regions start_rgn end_rgn ty =
     fold (\<lambda>i ty. memblock_remove_region ty i) (rev [start_rgn..<end_rgn]) ty"

definition memblock_remove_range_with ::
  "grow \<Rightarrow> memblock \<Rightarrow> which \<Rightarrow> u64 \<Rightarrow> u64 \<Rightarrow> (memblock \<times> int) outcome" where
  "memblock_remove_range_with grow st w base sz =
     obind (memblock_isolate_range_with grow st w base sz) (\<lambda>(st', ret, start_rgn, end_rgn).
       if ret \<noteq> 0 then Ret (st', ret)
       else Ret (put_type st' w (remove_regions start_rgn end_rgn (get_type st' w)), 0))"

definition memblock_free_with :: "grow \<Rightarrow> memblock \<Rightarrow> u64 \<Rightarrow> u64 \<Rightarrow> (memblock \<times> int) outcome" where
  "memblock_free_with grow st base sz = memblock_remove_range_with grow st Reserved base sz"

definition memblock_reserve_with :: "grow \<Rightarrow> memblock \<Rightarrow> u64 \<Rightarrow> u64 \<Rightarrow> (memblock \<times> int) outcome" where
  "memblock_reserve_with grow st base sz =
     memblock_add_range_with grow st Reserved base sz MAX_NUMNODES 0"

section \<open>Doubling an array\<close>

text \<open>The size of \<^verbatim>\<open>struct memblock_region\<close>: three 64-bit fields and a padded \<^verbatim>\<open>int\<close>.\<close>

abbreviation (input) region_bytes :: u64 where "region_bytes \<equiv> 32"

definition in_slab :: "memblock \<Rightarrow> which \<Rightarrow> bool" where
  "in_slab st w = (case w of Memory \<Rightarrow> mb_memory_in_slab st | Reserved \<Rightarrow> mb_reserved_in_slab st)"

definition set_in_slab :: "memblock \<Rightarrow> which \<Rightarrow> bool \<Rightarrow> memblock" where
  "set_in_slab st w v =
     (case w of Memory \<Rightarrow> st\<lparr>mb_memory_in_slab := v\<rparr> | Reserved \<Rightarrow> st\<lparr>mb_reserved_in_slab := v\<rparr>)"

text \<open>Where the new array goes; 0 when there is no place.\<close>

definition find_new_array ::
  "memblock_env \<Rightarrow> memblock \<Rightarrow> which \<Rightarrow> u64 \<Rightarrow> u64 \<Rightarrow> u64 \<Rightarrow> u64 \<Rightarrow> u64 outcome" where
  "find_new_array env st w new_area_start new_area_size new_size new_alloc_size =
     (if env_slab_available env then Ret (env_kmalloc env new_size)
      else
        let (start, sz) = (if w \<noteq> Reserved then (0, 0) else (new_area_start, new_area_size)) in
        obind (memblock_find_in_range env st (start + sz) (mb_current_limit st)
                 new_alloc_size PAGE_SIZE)
          (\<lambda>addr. if addr = 0 \<and> sz \<noteq> 0
                  then memblock_find_in_range env st 0 (min start (mb_current_limit st))
                         new_alloc_size PAGE_SIZE
                  else Ret addr))"

definition memblock_double_array_with :: "grow \<Rightarrow> memblock_env \<Rightarrow> grow" where
  "memblock_double_array_with grow env st w new_area_start new_area_size =
     (if \<not> mb_can_resize st then Ret (st, - 1)
      else
        let ty = get_type st w;
            old_size = of_nat (mt_max ty) * region_bytes;
            new_size = push_bit 1 old_size;
            old_alloc_size = PAGE_ALIGN old_size;
            new_alloc_size = PAGE_ALIGN new_size in
        obind (find_new_array env st w new_area_start new_area_size new_size new_alloc_size)
          (\<lambda>addr.
            if addr = 0 then Ret (st, - 1)
            else
              let st1 = put_type st w (ty\<lparr>mt_loc := AllocAt addr, mt_max := 2 * mt_max ty\<rparr>) in
              obind
                (if in_slab st w then Ret (st1, 0)
                 else case mt_loc ty of
                        InitRegions \<Rightarrow> Ret (st1, 0)
                      | AllocAt old \<Rightarrow> memblock_free_with grow st1 old old_alloc_size)
                (\<lambda>(st2, _).
                  obind
                    (if env_slab_available env then Ret st2
                     else obind (memblock_reserve_with grow st2 addr new_alloc_size)
                            (\<lambda>(st3, ret). if ret \<noteq> 0 then Bug else Ret st3))
                    (\<lambda>st4. Ret (set_in_slab st4 w (env_slab_available env), 0)))))"

text \<open>
  A doubling of the memory array can double the reserved array, whose own doubling then has
  room for the two entries it edits; so three levels are enough.
\<close>

fun memblock_double_array_fuel :: "nat \<Rightarrow> memblock_env \<Rightarrow> grow" where
  "memblock_double_array_fuel 0 env = (\<lambda>_ _ _ _. NoFuel)"
| "memblock_double_array_fuel (Suc n) env =
     memblock_double_array_with (memblock_double_array_fuel n env) env"

definition memblock_double_array :: "memblock_env \<Rightarrow> grow" where
  "memblock_double_array env = memblock_double_array_fuel 3 env"

section \<open>The public operations on ranges\<close>

definition memblock_add_range ::
  "memblock_env \<Rightarrow> memblock \<Rightarrow> which \<Rightarrow> u64 \<Rightarrow> u64 \<Rightarrow> int \<Rightarrow> u64 \<Rightarrow> (memblock \<times> int) outcome" where
  "memblock_add_range env = memblock_add_range_with (memblock_double_array env)"

definition memblock_isolate_range ::
  "memblock_env \<Rightarrow> memblock \<Rightarrow> which \<Rightarrow> u64 \<Rightarrow> u64 \<Rightarrow> (memblock \<times> int \<times> nat \<times> nat) outcome" where
  "memblock_isolate_range env = memblock_isolate_range_with (memblock_double_array env)"

definition memblock_remove_range ::
  "memblock_env \<Rightarrow> memblock \<Rightarrow> which \<Rightarrow> u64 \<Rightarrow> u64 \<Rightarrow> (memblock \<times> int) outcome" where
  "memblock_remove_range env = memblock_remove_range_with (memblock_double_array env)"

definition memblock_add_node ::
  "memblock_env \<Rightarrow> memblock \<Rightarrow> u64 \<Rightarrow> u64 \<Rightarrow> int \<Rightarrow> (memblock \<times> int) outcome" where
  "memblock_add_node env st base sz nid = memblock_add_range env st Memory base sz nid 0"

definition memblock_add :: "memblock_env \<Rightarrow> memblock \<Rightarrow> u64 \<Rightarrow> u64 \<Rightarrow> (memblock \<times> int) outcome" where
  "memblock_add env st base sz = memblock_add_range env st Memory base sz MAX_NUMNODES 0"

definition memblock_remove :: "memblock_env \<Rightarrow> memblock \<Rightarrow> u64 \<Rightarrow> u64 \<Rightarrow> (memblock \<times> int) outcome" where
  "memblock_remove env st base sz = memblock_remove_range env st Memory base sz"

definition memblock_free :: "memblock_env \<Rightarrow> memblock \<Rightarrow> u64 \<Rightarrow> u64 \<Rightarrow> (memblock \<times> int) outcome" where
  "memblock_free env = memblock_free_with (memblock_double_array env)"

definition memblock_reserve :: "memblock_env \<Rightarrow> memblock \<Rightarrow> u64 \<Rightarrow> u64 \<Rightarrow> (memblock \<times> int) outcome" where
  "memblock_reserve env = memblock_reserve_with (memblock_double_array env)"

text \<open>\<^verbatim>\<open>for (i = start_rgn; i < end_rgn; i++)\<close> with an update of region \<open>i\<close>.\<close>

definition update_regions ::
  "(memblock_region \<Rightarrow> memblock_region) \<Rightarrow> nat \<Rightarrow> nat \<Rightarrow> memblock_type \<Rightarrow> memblock_type" where
  "update_regions f start_rgn end_rgn ty =
     ty\<lparr>mt_regions := fold (\<lambda>i rs. rs[i := f (rs ! i)]) [start_rgn..<end_rgn] (mt_regions ty)\<rparr>"

definition memblock_setclr_flag ::
  "memblock_env \<Rightarrow> memblock \<Rightarrow> u64 \<Rightarrow> u64 \<Rightarrow> bool \<Rightarrow> u64 \<Rightarrow> (memblock \<times> int) outcome" where
  "memblock_setclr_flag env st base sz setf flag =
     obind (memblock_isolate_range env st Memory base sz) (\<lambda>(st', ret, start_rgn, end_rgn).
       if ret \<noteq> 0 then Ret (st', ret)
       else obind (memblock_merge_regions
                     (update_regions
                        (if setf then memblock_set_region_flags flag
                         else memblock_clear_region_flags flag)
                        start_rgn end_rgn (get_type st' Memory)))
              (\<lambda>ty. Ret (put_type st' Memory ty, 0)))"

definition memblock_mark_hotplug ::
  "memblock_env \<Rightarrow> memblock \<Rightarrow> u64 \<Rightarrow> u64 \<Rightarrow> (memblock \<times> int) outcome" where
  "memblock_mark_hotplug env st base sz = memblock_setclr_flag env st base sz True MEMBLOCK_HOTPLUG"

definition memblock_clear_hotplug ::
  "memblock_env \<Rightarrow> memblock \<Rightarrow> u64 \<Rightarrow> u64 \<Rightarrow> (memblock \<times> int) outcome" where
  "memblock_clear_hotplug env st base sz = memblock_setclr_flag env st base sz False MEMBLOCK_HOTPLUG"

definition memblock_mark_mirror ::
  "memblock_env \<Rightarrow> memblock \<Rightarrow> u64 \<Rightarrow> u64 \<Rightarrow> (memblock \<times> int) outcome" where
  "memblock_mark_mirror env st base sz =
     memblock_setclr_flag env (st\<lparr>mb_has_mirror := True\<rparr>) base sz True MEMBLOCK_MIRROR"

definition memblock_mark_nomap ::
  "memblock_env \<Rightarrow> memblock \<Rightarrow> u64 \<Rightarrow> u64 \<Rightarrow> (memblock \<times> int) outcome" where
  "memblock_mark_nomap env st base sz = memblock_setclr_flag env st base sz True MEMBLOCK_NOMAP"

definition memblock_clear_nomap ::
  "memblock_env \<Rightarrow> memblock \<Rightarrow> u64 \<Rightarrow> u64 \<Rightarrow> (memblock \<times> int) outcome" where
  "memblock_clear_nomap env st base sz = memblock_setclr_flag env st base sz False MEMBLOCK_NOMAP"

definition memblock_set_node ::
  "memblock_env \<Rightarrow> memblock \<Rightarrow> u64 \<Rightarrow> u64 \<Rightarrow> which \<Rightarrow> int \<Rightarrow> (memblock \<times> int) outcome" where
  "memblock_set_node env st base sz w nid =
     obind (memblock_isolate_range env st w base sz) (\<lambda>(st', ret, start_rgn, end_rgn).
       if ret \<noteq> 0 then Ret (st', ret)
       else obind (memblock_merge_regions
                     (update_regions (memblock_set_region_node nid) start_rgn end_rgn
                        (get_type st' w)))
              (\<lambda>ty. Ret (put_type st' w ty, 0)))"

section \<open>Allocation\<close>

definition memblock_alloc_range_nid ::
  "memblock_env \<Rightarrow> memblock \<Rightarrow> u64 \<Rightarrow> u64 \<Rightarrow> u64 \<Rightarrow> u64 \<Rightarrow> int \<Rightarrow> u64 \<Rightarrow> (memblock \<times> u64) outcome" where
  "memblock_alloc_range_nid env st sz align start end nid flags =
     (let align = (if align = 0 then SMP_CACHE_BYTES else align) in
      obind (memblock_find_in_range_node env st sz align start end nid flags) (\<lambda>found.
        if found = 0 then Ret (st, 0)
        else obind (memblock_reserve env st found sz) (\<lambda>(st', ret).
          Ret (st', if ret = 0 then found else 0))))"

definition memblock_alloc_range ::
  "memblock_env \<Rightarrow> memblock \<Rightarrow> u64 \<Rightarrow> u64 \<Rightarrow> u64 \<Rightarrow> u64 \<Rightarrow> u64 \<Rightarrow> (memblock \<times> u64) outcome" where
  "memblock_alloc_range env st sz align start end flags =
     memblock_alloc_range_nid env st sz align start end NUMA_NO_NODE flags"

definition memblock_alloc_base_nid ::
  "memblock_env \<Rightarrow> memblock \<Rightarrow> u64 \<Rightarrow> u64 \<Rightarrow> u64 \<Rightarrow> int \<Rightarrow> u64 \<Rightarrow> (memblock \<times> u64) outcome" where
  "memblock_alloc_base_nid env st sz align max_addr nid flags =
     memblock_alloc_range_nid env st sz align 0 max_addr nid flags"

definition memblock_alloc_nid ::
  "memblock_env \<Rightarrow> memblock \<Rightarrow> u64 \<Rightarrow> u64 \<Rightarrow> int \<Rightarrow> (memblock \<times> u64) outcome" where
  "memblock_alloc_nid env st sz align nid =
     (let flags = choose_memblock_flags st in
      obind (memblock_alloc_base_nid env st sz align MEMBLOCK_ALLOC_ACCESSIBLE nid flags)
        (\<lambda>(st', ret).
          if ret = 0 \<and> flags AND MEMBLOCK_MIRROR \<noteq> 0
          then memblock_alloc_base_nid env st' sz align MEMBLOCK_ALLOC_ACCESSIBLE nid
                 (flags AND NOT MEMBLOCK_MIRROR)
          else Ret (st', ret)))"

definition memblock_alloc_base_nopanic ::
  "memblock_env \<Rightarrow> memblock \<Rightarrow> u64 \<Rightarrow> u64 \<Rightarrow> u64 \<Rightarrow> (memblock \<times> u64) outcome" where
  "memblock_alloc_base_nopanic env st sz align max_addr =
     memblock_alloc_base_nid env st sz align max_addr NUMA_NO_NODE MEMBLOCK_NONE"

text \<open>\<^verbatim>\<open>panic()\<close> does not return, as a \<^verbatim>\<open>BUG_ON\<close> that fires does not.\<close>

definition memblock_alloc_base ::
  "memblock_env \<Rightarrow> memblock \<Rightarrow> u64 \<Rightarrow> u64 \<Rightarrow> u64 \<Rightarrow> (memblock \<times> u64) outcome" where
  "memblock_alloc_base env st sz align max_addr =
     obind (memblock_alloc_base_nopanic env st sz align max_addr)
       (\<lambda>(st', alloc). if alloc = 0 then Bug else Ret (st', alloc))"

definition memblock_alloc :: "memblock_env \<Rightarrow> memblock \<Rightarrow> u64 \<Rightarrow> u64 \<Rightarrow> (memblock \<times> u64) outcome" where
  "memblock_alloc env st sz align = memblock_alloc_base env st sz align MEMBLOCK_ALLOC_ACCESSIBLE"

definition memblock_alloc_try_nid ::
  "memblock_env \<Rightarrow> memblock \<Rightarrow> u64 \<Rightarrow> u64 \<Rightarrow> int \<Rightarrow> (memblock \<times> u64) outcome" where
  "memblock_alloc_try_nid env st sz align nid =
     obind (memblock_alloc_nid env st sz align nid) (\<lambda>(st', res).
       if res \<noteq> 0 then Ret (st', res)
       else memblock_alloc_base env st' sz align MEMBLOCK_ALLOC_ACCESSIBLE)"

text \<open>
  One attempt of \<^verbatim>\<open>memblock_virt_alloc_internal\<close>: find and reserve, first on the node asked
  for and then on any node.
\<close>

definition find_and_reserve ::
  "memblock_env \<Rightarrow> memblock \<Rightarrow> u64 \<Rightarrow> u64 \<Rightarrow> u64 \<Rightarrow> u64 \<Rightarrow> int \<Rightarrow> u64 \<Rightarrow> (memblock \<times> u64) outcome" where
  "find_and_reserve env st sz align min_addr max_addr nid flags =
     obind (memblock_find_in_range_node env st sz align min_addr max_addr nid flags) (\<lambda>alloc.
       if alloc = 0 then Ret (st, 0)
       else obind (memblock_reserve env st alloc sz) (\<lambda>(st', ret).
         Ret (st', if ret = 0 then alloc else 0)))"

definition virt_alloc_attempt ::
  "memblock_env \<Rightarrow> memblock \<Rightarrow> u64 \<Rightarrow> u64 \<Rightarrow> u64 \<Rightarrow> u64 \<Rightarrow> int \<Rightarrow> u64 \<Rightarrow> (memblock \<times> u64) outcome" where
  "virt_alloc_attempt env st sz align min_addr max_addr nid flags =
     obind (find_and_reserve env st sz align min_addr max_addr nid flags) (\<lambda>(st', alloc).
       if alloc \<noteq> 0 then Ret (st', alloc)
       else if nid \<noteq> NUMA_NO_NODE
       then find_and_reserve env st' sz align min_addr max_addr NUMA_NO_NODE flags
       else Ret (st', 0))"

text \<open>The \<^verbatim>\<open>goto again\<close> loop: first the lower bound is dropped, then the mirror flag.\<close>

function virt_alloc_again ::
  "memblock_env \<Rightarrow> u64 \<Rightarrow> u64 \<Rightarrow> u64 \<Rightarrow> int \<Rightarrow> memblock \<Rightarrow> u64 \<Rightarrow> u64 \<Rightarrow> (memblock \<times> u64) outcome" where
  "virt_alloc_again env sz align max_addr nid st min_addr flags =
     obind (virt_alloc_attempt env st sz align min_addr max_addr nid flags) (\<lambda>(st', alloc).
       if alloc \<noteq> 0 then Ret (st', alloc)
       else if min_addr \<noteq> 0 then virt_alloc_again env sz align max_addr nid st' 0 flags
       else if flags AND MEMBLOCK_MIRROR \<noteq> 0
       then virt_alloc_again env sz align max_addr nid st' min_addr (flags AND NOT MEMBLOCK_MIRROR)
       else Ret (st', 0))"
  by pat_completeness auto
termination
proof (relation "measure (\<lambda>(env, sz, align, max_addr, nid, st, min_addr, flags).
          (if min_addr \<noteq> 0 then 1 else 0) + (if flags AND MEMBLOCK_MIRROR \<noteq> 0 then 1 else 0))",
    goal_cases)
  case 1
  then show ?case by simp
next
  case 2
  then show ?case by simp
next
  case (3 env sz align max_addr nid st min_addr flags x st' alloc)
  have "(flags AND NOT MEMBLOCK_MIRROR) AND MEMBLOCK_MIRROR = 0"
    by (rule bit_eqI) (auto simp: bit_simps)
  with 3 show ?case by simp
qed

declare virt_alloc_again.simps [simp del]

text \<open>
  The result is the physical address behind the virtual one that the C function returns, 0
  for a null pointer.
\<close>

definition memblock_virt_alloc_internal ::
  "memblock_env \<Rightarrow> memblock \<Rightarrow> u64 \<Rightarrow> u64 \<Rightarrow> u64 \<Rightarrow> u64 \<Rightarrow> int \<Rightarrow> (memblock \<times> u64) outcome" where
  "memblock_virt_alloc_internal env st sz align min_addr max_addr nid =
     (let flags = choose_memblock_flags st;
          nid = (if nid = MAX_NUMNODES then NUMA_NO_NODE else nid) in
      if env_slab_available env then Ret (st, env_kmalloc env sz)
      else
        let align = (if align = 0 then SMP_CACHE_BYTES else align);
            max_addr = (if max_addr > mb_current_limit st then mb_current_limit st else max_addr) in
        virt_alloc_again env sz align max_addr nid st min_addr flags)"

definition memblock_virt_alloc_try_nid ::
  "memblock_env \<Rightarrow> memblock \<Rightarrow> u64 \<Rightarrow> u64 \<Rightarrow> u64 \<Rightarrow> u64 \<Rightarrow> int \<Rightarrow> (memblock \<times> u64) outcome" where
  "memblock_virt_alloc_try_nid env st sz align min_addr max_addr nid =
     obind (memblock_virt_alloc_internal env st sz align min_addr max_addr nid)
       (\<lambda>(st', ptr). if ptr \<noteq> 0 then Ret (st', ptr) else Bug)"

text \<open>
  The variants that return a null pointer instead of stopping. They differ in whether the
  block is filled, which this model of addresses does not show.
\<close>

definition memblock_virt_alloc_try_nid_raw ::
  "memblock_env \<Rightarrow> memblock \<Rightarrow> u64 \<Rightarrow> u64 \<Rightarrow> u64 \<Rightarrow> u64 \<Rightarrow> int \<Rightarrow> (memblock \<times> u64) outcome" where
  "memblock_virt_alloc_try_nid_raw env st sz align min_addr max_addr nid =
     memblock_virt_alloc_internal env st sz align min_addr max_addr nid"

definition memblock_virt_alloc_try_nid_nopanic ::
  "memblock_env \<Rightarrow> memblock \<Rightarrow> u64 \<Rightarrow> u64 \<Rightarrow> u64 \<Rightarrow> u64 \<Rightarrow> int \<Rightarrow> (memblock \<times> u64) outcome" where
  "memblock_virt_alloc_try_nid_nopanic env st sz align min_addr max_addr nid =
     memblock_virt_alloc_internal env st sz align min_addr max_addr nid"

definition memblock_free_early :: "memblock_env \<Rightarrow> memblock \<Rightarrow> u64 \<Rightarrow> u64 \<Rightarrow> memblock outcome" where
  "memblock_free_early env st base sz =
     obind (memblock_remove_range env st Reserved base sz) (\<lambda>(st', _). Ret st')"

text \<open>
  The page frames that \<^verbatim>\<open>__memblock_free_late\<close> hands to the page allocator, in order; its
  loop also adds their number to \<^verbatim>\<open>totalram_pages\<close>.
\<close>

definition memblock_free_late :: "u64 \<Rightarrow> u64 \<Rightarrow> u64 list" where
  "memblock_free_late base sz =
     map of_nat [unat (PFN_UP base)..<unat (PFN_DOWN (base + sz))]"

definition discard_array :: "memblock_type \<Rightarrow> u64 list" where
  "discard_array ty =
     (case mt_loc ty of
        InitRegions \<Rightarrow> []
      | AllocAt addr \<Rightarrow> memblock_free_late addr (PAGE_ALIGN (32 * of_nat (mt_max ty))))"

definition memblock_discard :: "memblock \<Rightarrow> u64 list" where
  "memblock_discard st = discard_array (mb_reserved st) @ discard_array (mb_memory st)"

section \<open>Queries and limits\<close>

definition memblock_phys_mem_size :: "memblock \<Rightarrow> u64" where
  "memblock_phys_mem_size st = mt_total_size (mb_memory st)"

definition memblock_reserved_size :: "memblock \<Rightarrow> u64" where
  "memblock_reserved_size st = mt_total_size (mb_reserved st)"

text \<open>
  \<^verbatim>\<open>__next_reserved_mem_region\<close>: the new loop variable and the bounds, the upper one inclusive.
\<close>

definition next_reserved_mem_region :: "memblock \<Rightarrow> u64 \<Rightarrow> u64 \<times> (u64 \<times> u64) option" where
  "next_reserved_mem_region st idx =
     (let rs = mt_regions (mb_reserved st) in
      if unat idx < length rs then
        let r = rs ! unat idx in (idx + 1, Some (mr_base r, mr_end r - 1))
      else (ULLONG_MAX, None))"

text \<open>\<^verbatim>\<open>__next_mem_pfn_range\<close>: the next index from \<open>idx\<close> on, or -1, and the page frames.\<close>

function next_pfn_from ::
  "memblock_region list \<Rightarrow> int \<Rightarrow> nat \<Rightarrow> int \<times> (u64 \<times> u64 \<times> int) option" where
  "next_pfn_from rs nid i =
     (if i < length rs then
        let r = rs ! i in
        if PFN_UP (mr_base r) \<ge> PFN_DOWN (mr_end r) then next_pfn_from rs nid (Suc i)
        else if nid = MAX_NUMNODES \<or> nid = mr_nid r
        then (int i, Some (PFN_UP (mr_base r), PFN_DOWN (mr_end r), mr_nid r))
        else next_pfn_from rs nid (Suc i)
      else (- 1, None))"
  by pat_completeness auto
termination
  by (relation "measure (\<lambda>(rs, nid, i). length rs - i)") auto

declare next_pfn_from.simps [simp del]

definition next_mem_pfn_range :: "memblock \<Rightarrow> int \<Rightarrow> int \<Rightarrow> int \<times> (u64 \<times> u64 \<times> int) option" where
  "next_mem_pfn_range st idx nid = next_pfn_from (mt_regions (mb_memory st)) nid (nat (idx + 1))"

definition memblock_mem_size :: "memblock \<Rightarrow> u64 \<Rightarrow> u64" where
  "memblock_mem_size st limit_pfn =
     PFN_PHYS (fold (\<lambda>r pages. pages + (min (PFN_DOWN (mr_end r)) limit_pfn -
                                        min (PFN_UP (mr_base r)) limit_pfn))
                (mt_regions (mb_memory st)) 0)"

definition memblock_start_of_DRAM :: "memblock \<Rightarrow> u64" where
  "memblock_start_of_DRAM st = mr_base (mt_regions (mb_memory st) ! 0)"

definition memblock_end_of_DRAM :: "memblock \<Rightarrow> u64" where
  "memblock_end_of_DRAM st =
     mr_end (mt_regions (mb_memory st) ! (length (mt_regions (mb_memory st)) - 1))"

fun find_max_addr :: "memblock_region list \<Rightarrow> u64 \<Rightarrow> u64" where
  "find_max_addr [] limit = ULLONG_MAX"
| "find_max_addr (r # rs) limit =
     (if limit \<le> mr_size r then mr_base r + limit else find_max_addr rs (limit - mr_size r))"

definition memblock_enforce_memory_limit ::
  "memblock_env \<Rightarrow> memblock \<Rightarrow> u64 \<Rightarrow> memblock outcome" where
  "memblock_enforce_memory_limit env st limit =
     (if limit = 0 then Ret st
      else
        let max_addr = find_max_addr (mt_regions (mb_memory st)) limit in
        if max_addr = ULLONG_MAX then Ret st
        else obind (memblock_remove_range env st Memory max_addr ULLONG_MAX) (\<lambda>(st', _).
          obind (memblock_remove_range env st' Reserved max_addr ULLONG_MAX) (\<lambda>(st'', _).
            Ret st'')))"

text \<open>\<^verbatim>\<open>for (i = hi - 1; i >= lo; i--)\<close> with the removal of a region that is mapped.\<close>

definition remove_mapped :: "nat \<Rightarrow> nat \<Rightarrow> memblock_type \<Rightarrow> memblock_type" where
  "remove_mapped lo hi ty =
     fold (\<lambda>i ty. if \<not> memblock_is_nomap (mt_regions ty ! i) then memblock_remove_region ty i else ty)
       (rev [lo..<hi]) ty"

definition memblock_cap_memory_range ::
  "memblock_env \<Rightarrow> memblock \<Rightarrow> u64 \<Rightarrow> u64 \<Rightarrow> memblock outcome" where
  "memblock_cap_memory_range env st base sz =
     (if sz = 0 then Ret st
      else obind (memblock_isolate_range env st Memory base sz) (\<lambda>(st1, ret, start_rgn, end_rgn).
        if ret \<noteq> 0 then Ret st1
        else
          let ty = mb_memory st1;
              ty = remove_mapped end_rgn (length (mt_regions ty)) ty;
              ty = remove_mapped 0 start_rgn ty;
              st2 = st1\<lparr>mb_memory := ty\<rparr> in
          obind (memblock_remove_range env st2 Reserved 0 base) (\<lambda>(st3, _).
            obind (memblock_remove_range env st3 Reserved (base + sz) ULLONG_MAX) (\<lambda>(st4, _).
              Ret st4))))"

definition memblock_mem_limit_remove_map ::
  "memblock_env \<Rightarrow> memblock \<Rightarrow> u64 \<Rightarrow> memblock outcome" where
  "memblock_mem_limit_remove_map env st limit =
     (if limit = 0 then Ret st
      else
        let max_addr = find_max_addr (mt_regions (mb_memory st)) limit in
        if max_addr = ULLONG_MAX then Ret st else memblock_cap_memory_range env st 0 max_addr)"

text \<open>
  The binary search of \<^verbatim>\<open>memblock_search\<close>, a \<^verbatim>\<open>do ... while (left < right)\<close> loop; the index
  found, or -1.
\<close>

function search_from :: "memblock_region list \<Rightarrow> u64 \<Rightarrow> nat \<Rightarrow> nat \<Rightarrow> int" where
  "search_from rs addr left right =
     (let mid = (right + left) div 2 in
      if addr < mr_base (rs ! mid)
      then (if left < mid then search_from rs addr left mid else - 1)
      else if addr \<ge> mr_end (rs ! mid)
      then (if mid + 1 < right then search_from rs addr (mid + 1) right else - 1)
      else int mid)"
  by pat_completeness auto
termination
  by (relation "measure (\<lambda>(rs, addr, left, right). right - left)") auto

declare search_from.simps [simp del]

definition memblock_search :: "memblock_type \<Rightarrow> u64 \<Rightarrow> int" where
  "memblock_search ty addr = search_from (mt_regions ty) addr 0 (length (mt_regions ty))"

text \<open>
  \<^verbatim>\<open>memblock_next_valid_pfn\<close>: the same loop; when it ends without a hit, the cursor
  \<^verbatim>\<open>right\<close> names the next region.
\<close>

function next_valid_from :: "memblock_region list \<Rightarrow> u64 \<Rightarrow> nat \<Rightarrow> nat \<Rightarrow> nat option" where
  "next_valid_from rs addr left right =
     (let mid = (right + left) div 2 in
      if addr < mr_base (rs ! mid)
      then (if left < mid then next_valid_from rs addr left mid else Some mid)
      else if addr \<ge> mr_end (rs ! mid)
      then (if mid + 1 < right then next_valid_from rs addr (mid + 1) right else Some right)
      else None)"
  by pat_completeness auto
termination
  by (relation "measure (\<lambda>(rs, addr, left, right). right - left)") auto

declare next_valid_from.simps [simp del]

definition memblock_next_valid_pfn :: "memblock \<Rightarrow> u64 \<Rightarrow> u64 \<Rightarrow> u64" where
  "memblock_next_valid_pfn st pfn max_pfn =
     (let rs = mt_regions (mb_memory st) in
      case next_valid_from rs (PFN_PHYS (pfn + 1)) 0 (length rs) of
        None \<Rightarrow> min (pfn + 1) max_pfn
      | Some right \<Rightarrow>
          if right = length rs then max_pfn else min (PFN_DOWN (mr_base (rs ! right))) max_pfn)"

definition memblock_is_reserved :: "memblock \<Rightarrow> u64 \<Rightarrow> bool" where
  "memblock_is_reserved st addr \<longleftrightarrow> memblock_search (mb_reserved st) addr \<noteq> - 1"

definition memblock_is_memory :: "memblock \<Rightarrow> u64 \<Rightarrow> bool" where
  "memblock_is_memory st addr \<longleftrightarrow> memblock_search (mb_memory st) addr \<noteq> - 1"

definition memblock_is_map_memory :: "memblock \<Rightarrow> u64 \<Rightarrow> bool" where
  "memblock_is_map_memory st addr \<longleftrightarrow>
     (let i = memblock_search (mb_memory st) addr in
      i \<noteq> - 1 \<and> \<not> memblock_is_nomap (mt_regions (mb_memory st) ! nat i))"

text \<open>\<^verbatim>\<open>memblock_search_pfn_nid\<close>: the first and last page frame and the node, None for -1.\<close>

definition memblock_search_pfn_nid :: "memblock \<Rightarrow> u64 \<Rightarrow> (u64 \<times> u64 \<times> int) option" where
  "memblock_search_pfn_nid st pfn =
     (let mid = memblock_search (mb_memory st) (PFN_PHYS pfn) in
      if mid = - 1 then None
      else let r = mt_regions (mb_memory st) ! nat mid in
        Some (PFN_DOWN (mr_base r), PFN_DOWN (mr_end r), mr_nid r))"

definition memblock_is_region_memory :: "memblock \<Rightarrow> u64 \<Rightarrow> u64 \<Rightarrow> bool" where
  "memblock_is_region_memory st base sz \<longleftrightarrow>
     (let idx = memblock_search (mb_memory st) base;
          end = base + memblock_cap_size base sz in
      idx \<noteq> - 1 \<and> mr_end (mt_regions (mb_memory st) ! nat idx) \<ge> end)"

definition memblock_is_region_reserved :: "memblock \<Rightarrow> u64 \<Rightarrow> u64 \<Rightarrow> bool" where
  "memblock_is_region_reserved st base sz \<longleftrightarrow>
     memblock_overlaps_region (mb_reserved st) base (memblock_cap_size base sz)"

text \<open>
  \<^verbatim>\<open>memblock_trim_memory\<close>: removing a region steps the cursor back, so the same index is
  visited again. A region other than the empty dummy weighs one more, which pays for the
  dummy that replaces the last region.
\<close>

definition trim_weight :: "memblock_region \<Rightarrow> nat" where
  "trim_weight r = (if mr_base r = 0 \<and> mr_size r = 0 then 1 else 2)"

function trim_from :: "u64 \<Rightarrow> memblock_type \<Rightarrow> nat \<Rightarrow> memblock_type" where
  "trim_from align ty i =
     (if i < length (mt_regions ty) then
        case (mt_regions ty ! i, round_up (mr_base (mt_regions ty ! i)) align,
              round_down (mr_end (mt_regions ty ! i)) align) of
          (r, start, end) \<Rightarrow>
            if start = mr_base r \<and> end = mr_end r then trim_from align ty (Suc i)
            else if start < end then
              trim_from align
                (ty\<lparr>mt_regions := (mt_regions ty)[i := r\<lparr>mr_base := start, mr_size := end - start\<rparr>]\<rparr>)
                (Suc i)
            else trim_from align (memblock_remove_region ty i) i
      else ty)"
  by pat_completeness auto
termination
proof (relation "measure (\<lambda>(align, ty, i). sum_list (map trim_weight (drop i (mt_regions ty))))",
    goal_cases)
  case 1
  then show ?case by simp
next
  case (2 align ty i)
  then show ?case
    by (simp add: Cons_nth_drop_Suc [symmetric] trim_weight_def)
next
  case (3 align ty i)
  then show ?case
    by (simp add: Cons_nth_drop_Suc [symmetric] trim_weight_def)
next
  case (4 align ty i r)
  then have "drop i (mt_regions ty) = r # drop (Suc i) (mt_regions ty)"
    and "\<not> (mr_base r = 0 \<and> mr_size r = 0)"
    by (auto simp: Cons_nth_drop_Suc)
  with 4(1) show ?case
    by (auto simp: memblock_remove_region_def Let_def trim_weight_def empty_region_def)
qed

declare trim_from.simps [simp del]

definition memblock_trim_memory :: "memblock \<Rightarrow> u64 \<Rightarrow> memblock" where
  "memblock_trim_memory st align = st\<lparr>mb_memory := trim_from align (mb_memory st) 0\<rparr>"

definition memblock_set_current_limit :: "memblock \<Rightarrow> u64 \<Rightarrow> memblock" where
  "memblock_set_current_limit st limit = st\<lparr>mb_current_limit := limit\<rparr>"

definition memblock_allow_resize :: "memblock \<Rightarrow> memblock" where
  "memblock_allow_resize st = st\<lparr>mb_can_resize := True\<rparr>"

definition memblock_set_bottom_up :: "memblock \<Rightarrow> bool \<Rightarrow> memblock" where
  "memblock_set_bottom_up st enable = st\<lparr>mb_bottom_up := enable\<rparr>"

definition memblock_reserved_memory_within :: "memblock \<Rightarrow> u64 \<Rightarrow> u64 \<Rightarrow> u64" where
  "memblock_reserved_memory_within st start_addr end_addr =
     fold (\<lambda>r sz. if mr_end r < start_addr then sz
                  else if mr_base r > end_addr then sz
                  else sz + (mr_end r - mr_base r))
       (mt_regions (mb_reserved st)) 0"

end
