(* ===== verification/Memblock_Regions.thy ===== *)
theory Memblock_Regions
  imports Memblock
begin

text \<open>
  The region arrays of \<open>Memblock\<close> as sets of addresses. A well-formed array is sorted, its
  regions are not empty, do not wrap and do not overlap. The in-place loops over indices are
  shown equal to functions on lists, and these to set operations: adding a range is a union,
  isolating a range keeps the set, and merging keeps the set and leaves no two mergeable
  neighbours. Removal and search follow in \<open>Memblock_Remove\<close> and \<open>Memblock_Query\<close>.
\<close>

section \<open>Sorted arrays\<close>

fun sorted_from :: "u64 \<Rightarrow> memblock_region list \<Rightarrow> bool" where
  "sorted_from lo [] \<longleftrightarrow> True"
| "sorted_from lo (r # rs) \<longleftrightarrow>
     lo \<le> mr_base r \<and> mr_base r < mr_end r \<and> sorted_from (mr_end r) rs"

definition covers :: "memblock_region list \<Rightarrow> u64 set" where
  "covers rs = (\<Union>r\<in>set rs. {mr_base r..<mr_end r})"

definition sizes :: "memblock_region list \<Rightarrow> u64" where
  "sizes rs = sum_list (map mr_size rs)"

lemma covers_simps [simp]:
  "covers [] = {}"
  "covers (r # rs) = {mr_base r..<mr_end r} \<union> covers rs"
  "covers (xs @ ys) = covers xs \<union> covers ys"
  by (auto simp: covers_def)

lemma sizes_simps [simp]:
  "sizes [] = 0"
  "sizes (r # rs) = mr_size r + sizes rs"
  "sizes (xs @ ys) = sizes xs + sizes ys"
  by (simp_all add: sizes_def)

lemma sorted_from_mono: "sorted_from lo rs \<Longrightarrow> lo' \<le> lo \<Longrightarrow> sorted_from lo' rs"
  by (cases rs) auto

lemma sorted_from_lower: "sorted_from lo rs \<Longrightarrow> x \<in> covers rs \<Longrightarrow> lo \<le> x"
  by (induction rs arbitrary: lo) (auto, fastforce)

lemma sorted_from_base: "sorted_from lo rs \<Longrightarrow> r \<in> set rs \<Longrightarrow> lo \<le> mr_base r"
  by (induction rs arbitrary: lo) (auto, fastforce)

lemma sorted_from_append:
  "sorted_from lo (xs @ r # ys) \<longleftrightarrow>
     sorted_from lo xs \<and> (\<forall>x\<in>set xs. mr_end x \<le> mr_base r) \<and> lo \<le> mr_base r \<and>
     mr_base r < mr_end r \<and> sorted_from (mr_end r) ys"
proof (induction xs arbitrary: lo)
  case Nil
  then show ?case by simp
next
  case (Cons x xs)
  have "mr_base x < mr_end x \<Longrightarrow> mr_end x \<le> mr_base r \<Longrightarrow> lo \<le> mr_base x \<Longrightarrow> lo \<le> mr_base r"
    by (meson order.trans less_imp_le)
  with Cons show ?case by auto
qed

section \<open>Adding a range\<close>

fun add_list :: "int \<Rightarrow> u64 \<Rightarrow> u64 \<Rightarrow> u64 \<Rightarrow> memblock_region list \<Rightarrow> memblock_region list" where
  "add_list nid flags end base [] =
     (if base < end
      then [\<lparr>mr_base = base, mr_size = end - base, mr_flags = flags, mr_nid = nid\<rparr>] else [])"
| "add_list nid flags end base (r # rs) =
     (if mr_base r \<ge> end then
        (if base < end
         then [\<lparr>mr_base = base, mr_size = end - base, mr_flags = flags, mr_nid = nid\<rparr>]
         else []) @ r # rs
      else if mr_end r \<le> base then r # add_list nid flags end base rs
      else
        (if mr_base r > base
         then [\<lparr>mr_base = base, mr_size = mr_base r - base, mr_flags = flags, mr_nid = nid\<rparr>]
         else []) @ r # add_list nid flags end (min (mr_end r) end) rs)"

lemma add_list_length: "length rs \<le> length (add_list nid flags end base rs)"
  by (induction rs arbitrary: base) (auto simp: le_SucI)

lemma add_list_length_upper: "length (add_list nid flags end base rs) \<le> 2 * length rs + 1"
  by (induction rs arbitrary: base) (auto simp: le_SucI)

lemma add_list_unchanged:
  "length (add_list nid flags end base rs) = length rs \<Longrightarrow> add_list nid flags end base rs = rs"
proof (induction rs arbitrary: base)
  case Nil
  then show ?case by (auto split: if_splits)
next
  case (Cons r rs)
  then show ?case
    using add_list_length [of rs nid flags "end" "min (mr_end r) end"]
    by (auto split: if_splits)
qed

lemma add_list_done [simp]: "add_list nid flags e e rs = rs"
  by (induction rs) (auto simp: min_def)

lemma add_list_sorted:
  "sorted_from lo rs \<Longrightarrow> lo \<le> base \<Longrightarrow> sorted_from lo (add_list nid flags e base rs)"
proof (induction rs arbitrary: base lo)
  case Nil
  then show ?case by simp
next
  case (Cons r rs)
  then have r: "lo \<le> mr_base r" "mr_base r < mr_end r" and rs: "sorted_from (mr_end r) rs"
    by auto
  have "mr_end r \<le> base \<Longrightarrow> sorted_from (mr_end r) (add_list nid flags e base rs)"
    using Cons.IH [OF rs] .
  moreover have "sorted_from (mr_end r) (add_list nid flags e (min (mr_end r) e) rs)"
    using Cons.IH [OF rs, of "mr_end r"] rs by (simp add: min_def)
  ultimately show ?case
    using r rs Cons.prems by (auto simp: not_le)
qed

lemma add_list_covers:
  "sorted_from lo rs \<Longrightarrow> covers (add_list nid flags e base rs) = covers rs \<union> {base..<e}"
proof (induction rs arbitrary: base lo)
  case Nil
  then show ?case by auto
next
  case (Cons r rs)
  then have r: "mr_base r < mr_end r" and rs: "sorted_from (mr_end r) rs"
    by auto
  show ?case
    using r Cons.IH [OF rs] by (auto simp: min_def)
qed

section \<open>The loop of memblock_add_range is add_list\<close>

text \<open>The pass and the code after it, from any point of the loop.\<close>

definition add_range_rest ::
  "bool \<Rightarrow> u64 \<Rightarrow> int \<Rightarrow> u64 \<Rightarrow> memblock_type \<Rightarrow> nat \<Rightarrow> u64 \<Rightarrow> nat \<Rightarrow>
   (memblock_type \<times> nat) outcome" where
  "add_range_rest ins e nid flags ty idx base nr =
     obind (add_range_pass ins e nid flags ty idx base nr)
       (\<lambda>(ty', base, idx, nr_new).
          if base < e then
            if ins then obind (memblock_insert_region ty' idx base (e - base) nid flags)
                          (\<lambda>ty''. Ret (ty'', Suc nr_new))
            else Ret (ty', Suc nr_new)
          else Ret (ty', nr_new))"

lemma add_range_round_rest:
  "add_range_round ins base e nid flags ty = add_range_rest ins e nid flags ty 0 base 0"
  by (simp add: add_range_round_def add_range_rest_def)

lemma add_range_rest_count:
  assumes "mt_regions ty = pre @ rs"
  shows "add_range_rest False e nid flags ty (length pre) base nr =
           Ret (ty, nr + (length (add_list nid flags e base rs) - length rs))"
  using assms
proof (induction rs arbitrary: pre base nr)
  case Nil
  then show ?case
    by (simp add: add_range_rest_def add_range_pass.simps [of _ _ _ _ ty])
next
  case (Cons r rs)
  have next_pre: "mt_regions ty = (pre @ [r]) @ rs" using Cons.prems by simp
  note IH = Cons.IH [OF next_pre]
  note len = add_list_length [of rs nid flags e]
  have "add_range_rest False e nid flags ty (length pre) base nr =
     (if mr_base r \<ge> e then Ret (ty, if base < e then Suc nr else nr)
      else if mr_end r \<le> base then add_range_rest False e nid flags ty (Suc (length pre)) base nr
      else add_range_rest False e nid flags ty (Suc (length pre)) (min (mr_end r) e)
             (if mr_base r > base then Suc nr else nr))"
    using Cons.prems
    by (auto simp: add_range_rest_def add_range_pass.simps [of _ _ _ _ ty "length pre"] Let_def)
  then show ?case
    using IH [of base nr] IH [of "min (mr_end r) e" "Suc nr"] IH [of "min (mr_end r) e" nr]
      len [of base] len [of "min (mr_end r) e"]
    by (auto simp: Suc_diff_le)
qed

lemma add_range_rest_insert:
  assumes "mt_regions ty = pre @ rs"
    and "length pre + length (add_list nid flags e base rs) \<le> mt_max ty"
  shows "add_range_rest True e nid flags ty (length pre) base nr =
           Ret (ty\<lparr>mt_regions := pre @ add_list nid flags e base rs,
                   mt_total_size := mt_total_size ty +
                     (sizes (add_list nid flags e base rs) - sizes rs)\<rparr>,
                nr + (length (add_list nid flags e base rs) - length rs))"
  using assms
proof (induction rs arbitrary: pre base nr ty)
  case Nil
  then show ?case
    by (auto simp: add_range_rest_def add_range_pass.simps [of _ _ _ _ ty] Let_def
        memblock_insert_region_def)
next
  case (Cons r rs)
  let ?new = "\<lparr>mr_base = base, mr_size = mr_base r - base, mr_flags = flags, mr_nid = nid\<rparr>"
  let ?ty = "ty\<lparr>mt_regions := pre @ ?new # r # rs,
                mt_total_size := mt_total_size ty + (mr_base r - base)\<rparr>"
  note len = add_list_length [of rs nid flags e]
  have step: "add_range_rest True e nid flags ty (length pre) base nr =
     (if mr_base r \<ge> e then
        if base < e then obind (memblock_insert_region ty (length pre) base (e - base) nid flags)
                           (\<lambda>ty'. Ret (ty', Suc nr))
        else Ret (ty, nr)
      else if mr_end r \<le> base then add_range_rest True e nid flags ty (Suc (length pre)) base nr
      else if mr_base r > base then
        add_range_rest True e nid flags ?ty (Suc (Suc (length pre))) (min (mr_end r) e) (Suc nr)
      else add_range_rest True e nid flags ty (Suc (length pre)) (min (mr_end r) e) nr)"
    using Cons.prems len [of "min (mr_end r) e"]
    by (auto simp: add_range_rest_def add_range_pass.simps [of _ _ _ _ ty "length pre"] Let_def
        memblock_insert_region_def)
  show ?case
  proof (cases "e \<le> mr_base r")
    case True
    then show ?thesis
      using step Cons.prems by (auto simp: memblock_insert_region_def Let_def split: if_splits)
  next
    case ne: False
    show ?thesis
    proof (cases "mr_end r \<le> base")
      case True
      then show ?thesis
        using ne step Cons.IH [of ty "pre @ [r]" base nr] Cons.prems len [of base] by simp
    next
      case False
      then show ?thesis
        using ne step Cons.IH [of ty "pre @ [r]" "min (mr_end r) e" nr]
          Cons.IH [of ?ty "pre @ [?new, r]" "min (mr_end r) e" "Suc nr"] Cons.prems
          len [of "min (mr_end r) e"]
        by (cases "mr_base r > base") (simp_all add: algebra_simps Suc_diff_le)
    qed
  qed
qed

section \<open>Merging\<close>

definition mergeable :: "memblock_region \<Rightarrow> memblock_region \<Rightarrow> bool" where
  "mergeable r s \<longleftrightarrow> mr_end r = mr_base s \<and> mr_nid r = mr_nid s \<and> mr_flags r = mr_flags s"

fun merge_list :: "memblock_region list \<Rightarrow> memblock_region list" where
  "merge_list [] = []"
| "merge_list [r] = [r]"
| "merge_list (r # s # rs) =
     (if mergeable r s then merge_list (r\<lparr>mr_size := mr_size r + mr_size s\<rparr> # rs)
      else r # merge_list (s # rs))"

lemma mergeable_end: "mergeable r s \<Longrightarrow> mr_base r + (mr_size r + mr_size s) = mr_end s"
  by (simp add: mergeable_def add.assoc [symmetric])

lemma mergeable_sorted:
  assumes "mergeable r s" and "sorted_from lo (r # s # rs)"
  shows "sorted_from lo (r\<lparr>mr_size := mr_size r + mr_size s\<rparr> # rs)"
proof -
  have "mr_base r < mr_end s"
    using assms by (auto simp: mergeable_def)
  with assms show ?thesis by (simp add: mergeable_end)
qed

lemma merge_regions_from_list:
  "sorted_from lo rs \<Longrightarrow> merge_regions_from (pre @ rs) (length pre) = Ret (pre @ merge_list rs)"
proof (induction rs arbitrary: pre lo rule: merge_list.induct)
  case 1
  then show ?case by (simp add: merge_regions_from.simps)
next
  case (2 r)
  then show ?case by (simp add: merge_regions_from.simps)
next
  case (3 r s rs)
  have step: "merge_regions_from (pre @ r # s # rs) (length pre) =
     (if mergeable r s
      then merge_regions_from (pre @ r\<lparr>mr_size := mr_size r + mr_size s\<rparr> # rs) (length pre)
      else if mr_end r > mr_base s then Bug
      else merge_regions_from (pre @ r # s # rs) (Suc (length pre)))"
    by (subst merge_regions_from.simps) (simp add: Let_def mergeable_def nth_append_Suc)
  show ?case
  proof (cases "mergeable r s")
    case True
    from 3(1) [OF True mergeable_sorted [OF True 3(3)]] True step show ?thesis by simp
  next
    case False
    from 3(3) have "sorted_from (mr_end r) (s # rs)" by simp
    from 3(2) [OF False this, of "pre @ [r]"] False step 3(3) show ?thesis
      by (simp add: not_less)
  qed
qed

lemma merge_list_covers: "sorted_from lo rs \<Longrightarrow> covers (merge_list rs) = covers rs"
proof (induction rs arbitrary: lo rule: merge_list.induct)
  case (3 r s rs)
  show ?case
  proof (cases "mergeable r s")
    case True
    have "{mr_base r..<mr_end s} = {mr_base r..<mr_end r} \<union> {mr_base s..<mr_end s}"
      using True 3(3) by (auto simp: mergeable_def)
    with 3(1) [OF True mergeable_sorted [OF True 3(3)]] True show ?thesis
      by (simp add: mergeable_end Un_assoc)
  next
    case False
    with 3(2) [of "mr_end r"] 3(3) show ?thesis by simp
  qed
qed auto

lemma merge_list_sorted: "sorted_from lo rs \<Longrightarrow> sorted_from lo (merge_list rs)"
proof (induction rs arbitrary: lo rule: merge_list.induct)
  case (3 r s rs)
  show ?case
  proof (cases "mergeable r s")
    case True
    from 3(1) [OF True mergeable_sorted [OF True 3(3)]] True show ?thesis by simp
  next
    case False
    with 3(2) [of "mr_end r"] 3(3) show ?thesis by simp
  qed
qed auto

lemma merge_list_sizes [simp]: "sizes (merge_list rs) = sizes rs"
  by (induction rs rule: merge_list.induct) (auto simp: add.assoc)

lemma merge_list_length: "length (merge_list rs) \<le> length rs"
  by (induction rs rule: merge_list.induct) auto

lemma merge_list_Nil [simp]: "merge_list rs = [] \<longleftrightarrow> rs = []"
  by (induction rs rule: merge_list.induct) auto

lemma merge_list_head:
  "\<exists>r' ys. merge_list (r # rs) = r' # ys \<and> mr_base r' = mr_base r \<and> mr_nid r' = mr_nid r \<and>
     mr_flags r' = mr_flags r"
proof (induction "r # rs" arbitrary: r rs rule: merge_list.induct)
  case (3 r s rs)
  then show ?case by (cases "mergeable r s") fastforce+
qed auto

lemma merge_list_minimal: "successively (\<lambda>r s. \<not> mergeable r s) (merge_list rs)"
proof (induction rs rule: merge_list.induct)
  case (3 r s rs)
  obtain s' ys where "merge_list (s # rs) = s' # ys" "mr_base s' = mr_base s"
    "mr_nid s' = mr_nid s" "mr_flags s' = mr_flags s"
    using merge_list_head by blast
  with 3 show ?case by (auto simp: mergeable_def)
qed auto

section \<open>Isolating a range\<close>

text \<open>The pieces of a region that meets the range: below it, inside it, above it.\<close>

definition piece_below :: "u64 \<Rightarrow> memblock_region \<Rightarrow> memblock_region list" where
  "piece_below base r =
     (if mr_base r < base then [r\<lparr>mr_size := base - mr_base r\<rparr>] else [])"

definition piece_inside :: "u64 \<Rightarrow> u64 \<Rightarrow> memblock_region \<Rightarrow> memblock_region" where
  "piece_inside base e r =
     (let b = max (mr_base r) base in r\<lparr>mr_base := b, mr_size := min (mr_end r) e - b\<rparr>)"

definition piece_above :: "u64 \<Rightarrow> memblock_region \<Rightarrow> memblock_region list" where
  "piece_above e r =
     (if mr_end r > e then [r\<lparr>mr_base := e, mr_size := mr_end r - e\<rparr>] else [])"

fun iso_list :: "u64 \<Rightarrow> u64 \<Rightarrow> memblock_region list \<Rightarrow> memblock_region list" where
  "iso_list base e [] = []"
| "iso_list base e (r # rs) =
     (if mr_base r \<ge> e then r # rs
      else if mr_end r \<le> base then r # iso_list base e rs
      else piece_below base r @ piece_inside base e r # piece_above e r @ iso_list base e rs)"

lemma iso_list_above: "sorted_from e rs \<Longrightarrow> iso_list base e rs = rs"
  by (cases rs) auto

lemma iso_list_covers:
  "sorted_from lo rs \<Longrightarrow> base < e \<Longrightarrow> covers (iso_list base e rs) = covers rs"
proof (induction rs arbitrary: lo)
  case (Cons r rs)
  then show ?case
    by (auto simp: piece_below_def piece_inside_def piece_above_def Let_def max_def min_def
        split: if_splits)
qed simp

lemma iso_list_sizes: "sizes (iso_list base e rs) = sizes rs"
  by (induction rs)
     (auto simp: piece_below_def piece_inside_def piece_above_def Let_def max_def min_def
        split: if_splits)

lemma sorted_from_nonempty: "sorted_from lo rs \<Longrightarrow> r \<in> set rs \<Longrightarrow> mr_base r < mr_end r"
  by (induction rs arbitrary: lo) auto

lemma iso_list_sorted:
  "sorted_from lo rs \<Longrightarrow> base < e \<Longrightarrow> sorted_from lo (iso_list base e rs)"
proof (induction rs arbitrary: lo)
  case (Cons r rs)
  then have IH: "sorted_from (mr_end r) (iso_list base e rs)" by simp
  then have "mr_end r \<le> e \<Longrightarrow> sorted_from (min (mr_end r) e) (iso_list base e rs)"
    by (simp add: min_def)
  with IH Cons.prems show ?case
    by (auto simp: piece_below_def piece_inside_def piece_above_def Let_def max_def min_def
        not_le not_less)
qed simp

lemma iso_list_length_1:
  "sorted_from lo rs \<Longrightarrow> base \<le> lo \<Longrightarrow> length (iso_list base e rs) \<le> length rs + 1"
proof (induction rs arbitrary: lo)
  case (Cons r rs)
  then have "mr_end r > e \<Longrightarrow> iso_list base e rs = rs"
    using sorted_from_mono [of "mr_end r" rs e] by (simp add: iso_list_above)
  moreover have "base \<le> mr_end r" and "\<not> mr_base r < base" using Cons.prems by auto
  moreover note Cons.IH [of "mr_end r"]
  ultimately show ?case
    using Cons.prems by (auto simp: piece_below_def piece_above_def)
qed simp

lemma iso_list_length:
  "sorted_from lo rs \<Longrightarrow> length (iso_list base e rs) \<le> length rs + 2"
proof (induction rs arbitrary: lo)
  case (Cons r rs)
  then have "mr_end r > e \<Longrightarrow> iso_list base e rs = rs"
    using sorted_from_mono [of "mr_end r" rs e] by (simp add: iso_list_above)
  moreover have "\<not> mr_end r \<le> base \<Longrightarrow> length (iso_list base e rs) \<le> length rs + 1"
    using Cons.prems by (intro iso_list_length_1 [of "mr_end r"]) auto
  moreover have "length (iso_list base e rs) \<le> length rs + 2"
    using Cons.prems by (intro Cons.IH [of "mr_end r"]) simp
  ultimately show ?case
    by (auto simp: piece_below_def piece_above_def)
qed simp

definition region_low :: "u64 \<Rightarrow> memblock_region \<Rightarrow> bool" where
  "region_low base x \<longleftrightarrow> mr_end x \<le> base"

definition region_inside :: "u64 \<Rightarrow> u64 \<Rightarrow> memblock_region \<Rightarrow> bool" where
  "region_inside base e x \<longleftrightarrow> base \<le> mr_base x \<and> mr_end x \<le> e"

lemma no_low_above:
  assumes "sorted_from lo rs" and "base \<le> lo"
  shows "filter (region_low base) rs = []"
proof -
  have "\<not> region_low base x" if "x \<in> set rs" for x
    using sorted_from_base [OF assms(1) that] sorted_from_nonempty [OF assms(1) that] assms(2)
    by (auto simp: region_low_def)
  then show ?thesis by (simp add: filter_empty_conv)
qed

lemma no_inside_above:
  assumes "sorted_from lo rs" and "e \<le> lo"
  shows "filter (region_inside base e) rs = []"
proof -
  have "\<not> region_inside base e x" if "x \<in> set rs" for x
    using sorted_from_base [OF assms(1) that] sorted_from_nonempty [OF assms(1) that] assms(2)
    by (auto simp: region_inside_def)
  then show ?thesis by (simp add: filter_empty_conv)
qed

text \<open>The two indices the loop returns, from the indices it starts with.\<close>

definition isolated_idx ::
  "u64 \<Rightarrow> u64 \<Rightarrow> nat \<Rightarrow> memblock_region list \<Rightarrow> nat \<times> nat \<Rightarrow> nat \<times> nat" where
  "isolated_idx base e n rs se =
     (let low = length (filter (region_low base) rs);
          ins = length (filter (region_inside base e) rs) in
      if ins = 0 then se
      else (if snd se = 0 then n + low else fst se, n + low + ins))"

lemma region_eta:
  "\<lparr>mr_base = mr_base r, mr_size = n, mr_flags = mr_flags r, mr_nid = mr_nid r\<rparr> = r\<lparr>mr_size := n\<rparr>"
  by (cases r) simp

lemma iso_list_length_ge: "length rs \<le> length (iso_list base e rs)"
  by (induction rs) auto

lemma isolate_from_insert:
  assumes "mt_regions ty = pre @ r # rs"
    and "mr_base r < base \<or> mr_end r > e \<Longrightarrow> length pre + length rs + 1 < mt_max ty"
    and "\<not> e \<le> mr_base r" and "\<not> mr_end r \<le> base"
  shows "isolate_from base e ty (length pre) s en =
     (if mr_base r < base then
        isolate_from base e
          (ty\<lparr>mt_regions := pre @ r\<lparr>mr_size := base - mr_base r\<rparr> #
               r\<lparr>mr_base := base, mr_size := mr_size r - (base - mr_base r)\<rparr> # rs\<rparr>)
          (Suc (length pre)) s en
      else if mr_end r > e then
        isolate_from base e
          (ty\<lparr>mt_regions := pre @ r\<lparr>mr_size := e - mr_base r\<rparr> #
               r\<lparr>mr_base := e, mr_size := mr_size r - (e - mr_base r)\<rparr> # rs\<rparr>)
          (length pre) s en
      else isolate_from base e ty (Suc (length pre)) (if en = 0 then length pre else s)
             (Suc (length pre)))"
  using assms
  by (auto simp: isolate_from.simps [of _ _ ty] Let_def memblock_insert_region_def region_eta)

text \<open>A region that meets the range and starts inside it.\<close>

lemma isolate_from_inside:
  assumes IH: "\<And>s en. isolate_from base e ty (Suc (length pre)) s en =
      Ret (ty\<lparr>mt_regions := pre @ r # iso_list base e rs\<rparr>,
           isolated_idx base e (Suc (length pre)) (iso_list base e rs) (s, en))"
    and sorted: "sorted_from lo (r # rs)" and "base < e" and ty: "mt_regions ty = pre @ r # rs"
    and max: "length pre + length (iso_list base e (r # rs)) \<le> mt_max ty"
    and r: "\<not> e \<le> mr_base r" "\<not> mr_end r \<le> base" "\<not> mr_base r < base"
  shows "isolate_from base e ty (length pre) s en =
           Ret (ty\<lparr>mt_regions := pre @ iso_list base e (r # rs)\<rparr>,
                isolated_idx base e (length pre) (iso_list base e (r # rs)) (s, en))"
proof (cases "mr_end r > e")
  case True
  let ?mid = "r\<lparr>mr_size := e - mr_base r\<rparr>"
  let ?top = "r\<lparr>mr_base := e, mr_size := mr_end r - e\<rparr>"
  let ?ty = "ty\<lparr>mt_regions := pre @ ?mid # ?top # rs\<rparr>"
  have "sorted_from e (?top # rs)"
    using sorted True by (auto simp: algebra_simps)
  note none = no_inside_above [OF this order_refl, of base]
  have iso: "iso_list base e (r # rs) = ?mid # ?top # rs"
    using r True sorted sorted_from_mono [of "mr_end r" rs e]
    by (simp add: piece_below_def piece_inside_def piece_above_def iso_list_above)
  have ins: "filter (region_inside base e) (?mid # ?top # rs) = [?mid]"
    using none r by (simp add: region_inside_def)
  have low: "filter (region_low base) (?mid # ?top # rs) = []"
    using iso iso_list_sorted [of base "r # rs" base e] sorted r \<open>base < e\<close>
    by (intro no_low_above [of base]) simp_all
  have idx: "isolated_idx base e (length pre) (?mid # ?top # rs) (s, en) =
      (if en = 0 then length pre else s, Suc (length pre))"
    unfolding isolated_idx_def low ins by simp
  have "isolate_from base e ty (length pre) s en = isolate_from base e ?ty (length pre) s en"
    using r True ty max [unfolded iso] by (subst isolate_from_insert) (auto simp: algebra_simps)
  also have "\<dots> = isolate_from base e ?ty (Suc (length pre)) (if en = 0 then length pre else s)
      (Suc (length pre))"
    using r \<open>base < e\<close>
    by (subst isolate_from_insert [where r = ?mid and pre = pre and rs = "?top # rs"]) auto
  also have "\<dots> = Ret (?ty, if en = 0 then length pre else s, Suc (length pre))"
    by (simp add: isolate_from.simps [of _ _ ?ty])
  finally show ?thesis unfolding iso idx .
next
  case False
  have iso: "iso_list base e (r # rs) = r # iso_list base e rs"
    using r False
    by (cases r) (auto simp: piece_below_def piece_inside_def piece_above_def max_def min_def Let_def)
  have "sorted_from (mr_end r) (iso_list base e rs)"
    using sorted \<open>base < e\<close> by (auto intro: iso_list_sorted)
  then have "filter (region_low base) (iso_list base e rs) = []"
    using r by (intro no_low_above [of "mr_end r"]) auto
  moreover have "isolate_from base e ty (length pre) s en =
      isolate_from base e ty (Suc (length pre)) (if en = 0 then length pre else s) (Suc (length pre))"
    using r False ty by (subst isolate_from_insert) auto
  moreover have "base \<le> mr_base r" "mr_end r \<le> e" using r False by simp_all
  ultimately show ?thesis
    using r unfolding iso
    by (simp add: IH isolated_idx_def region_low_def region_inside_def)
qed

lemma isolate_from_list:
  assumes "sorted_from lo rs" and "base < e" and "mt_regions ty = pre @ rs"
    and "length pre + length (iso_list base e rs) \<le> mt_max ty"
  shows "isolate_from base e ty (length pre) s en =
           Ret (ty\<lparr>mt_regions := pre @ iso_list base e rs\<rparr>,
                isolated_idx base e (length pre) (iso_list base e rs) (s, en))"
  using assms
proof (induction rs arbitrary: pre ty s en lo)
  case Nil
  then show ?case by (simp add: isolate_from.simps isolated_idx_def)
next
  case (Cons r rs)
  then have r: "mr_base r < mr_end r" and rs: "sorted_from (mr_end r) rs" by auto
  consider "e \<le> mr_base r" | "\<not> e \<le> mr_base r" "mr_end r \<le> base"
    | "\<not> e \<le> mr_base r" "\<not> mr_end r \<le> base" by blast
  then show ?case
  proof cases
    case 1
    have "sorted_from e (r # rs)" using Cons.prems(1) 1 by simp
    then have "filter (region_inside base e) (r # rs) = []" by (rule no_inside_above) simp
    with 1 Cons.prems show ?thesis
      by (simp add: isolate_from.simps [of _ _ _ "length pre"] isolated_idx_def Let_def)
  next
    case 2
    then have "isolate_from base e ty (length pre) s en =
        isolate_from base e ty (length (pre @ [r])) s en"
      using Cons.prems by (simp add: isolate_from.simps [of _ _ _ "length pre"] Let_def)
    also have "\<dots> = Ret (ty\<lparr>mt_regions := (pre @ [r]) @ iso_list base e rs\<rparr>,
        isolated_idx base e (length (pre @ [r])) (iso_list base e rs) (s, en))"
      using Cons.prems rs 2 by (intro Cons.IH) auto
    finally show ?thesis
      using 2 Cons.prems r by (auto simp: isolated_idx_def region_low_def region_inside_def Let_def)
  next
    case 3
    show ?thesis
    proof (cases "mr_base r < base")
      case True
      let ?low = "r\<lparr>mr_size := base - mr_base r\<rparr>"
      let ?r = "r\<lparr>mr_base := base, mr_size := mr_size r - (base - mr_base r)\<rparr>"
      have end_r: "mr_end ?r = mr_end r" by (simp add: algebra_simps)
      have iso: "iso_list base e (r # rs) = ?low # iso_list base e (?r # rs)"
        using 3 True Cons.prems(2) end_r
        by (auto simp: piece_below_def piece_inside_def piece_above_def Let_def add.commute)
      let ?ty = "ty\<lparr>mt_regions := (pre @ [?low]) @ ?r # rs\<rparr>"
      have "isolate_from base e ty (length pre) s en =
          isolate_from base e ?ty (length (pre @ [?low])) s en"
        using 3 True Cons.prems iso_list_length_ge [of rs base e]
        by (subst isolate_from_insert) (auto simp: piece_below_def)
      moreover have "\<dots> = Ret (?ty\<lparr>mt_regions := (pre @ [?low]) @ iso_list base e (?r # rs)\<rparr>,
          isolated_idx base e (length (pre @ [?low])) (iso_list base e (?r # rs)) (s, en))"
      proof (rule isolate_from_inside [where lo = base])
        fix s en
        have "length (pre @ [?low, ?r]) + length (iso_list base e rs) \<le> mt_max ?ty"
          using Cons.prems(4) 3 True by (simp add: piece_below_def)
        from Cons.IH [OF rs Cons.prems(2) _ this, of s en]
        show "isolate_from base e ?ty (Suc (length (pre @ [?low]))) s en =
            Ret (?ty\<lparr>mt_regions := (pre @ [?low]) @ ?r # iso_list base e rs\<rparr>,
                 isolated_idx base e (Suc (length (pre @ [?low]))) (iso_list base e rs) (s, en))"
          by simp
      next
        show "sorted_from base (?r # rs)"
          using end_r rs 3 by (simp add: not_le add.commute)
      qed (use Cons.prems 3 end_r in \<open>simp_all add: iso add.commute del: iso_list.simps\<close>)
      moreover have "\<not> base \<le> mr_base r" using True by simp
      ultimately show ?thesis
        by (simp add: iso isolated_idx_def region_low_def region_inside_def Let_def
            del: iso_list.simps)
    next
      case False
      show ?thesis
        using Cons.prems rs 3 False
        by (intro isolate_from_inside [of base e ty pre r rs]) (auto simp: Cons.IH [where pre = "pre @ [r]", simplified])
    qed
  qed
qed

end
