(* ===== verification/Memblock_Remove.thy ===== *)
theory Memblock_Remove
  imports Memblock_Regions
begin

text \<open>
  Removing a range from a region array of \<open>Memblock\<close>: the loop that deletes the isolated regions
  from the back equals cutting a piece out of the list, the array that becomes empty keeps its one
  placeholder region, and the set of addresses loses exactly the range.
\<close>

section \<open>Removing a range\<close>

lemma remove_regions_nonempty:
  assumes "s \<le> en" and "en \<le> length (mt_regions ty)"
    and "take s (mt_regions ty) @ drop en (mt_regions ty) \<noteq> []"
  shows "remove_regions s en ty =
     ty\<lparr>mt_regions := take s (mt_regions ty) @ drop en (mt_regions ty),
        mt_total_size := mt_total_size ty - sizes (drop s (take en (mt_regions ty)))\<rparr>"
  using assms
proof (induction en arbitrary: ty)
  case 0
  then show ?case by (simp add: remove_regions_def)
next
  case (Suc n)
  let ?rs = "mt_regions ty"
  let ?ty = "ty\<lparr>mt_regions := take n ?rs @ drop (Suc n) ?rs,
                mt_total_size := mt_total_size ty - mr_size (?rs ! n)\<rparr>"
  show ?case
  proof (cases "s = Suc n")
    case True
    then show ?thesis by (simp add: remove_regions_def)
  next
    case False
    have "memblock_remove_region ty n = ?ty"
      using Suc.prems False by (auto simp: memblock_remove_region_def Let_def)
    then have "remove_regions s (Suc n) ty = remove_regions s n ?ty"
      using Suc.prems False by (simp add: remove_regions_def)
    also have "\<dots> = ?ty\<lparr>mt_regions := take s (mt_regions ?ty) @ drop n (mt_regions ?ty),
        mt_total_size := mt_total_size ?ty - sizes (drop s (take n (mt_regions ?ty)))\<rparr>"
      using Suc.prems False by (intro Suc.IH) (auto simp: min_def)
    also have "\<dots> = ty\<lparr>mt_regions := take s ?rs @ drop (Suc n) ?rs,
        mt_total_size := mt_total_size ty - mr_size (?rs ! n) - sizes (drop s (take n ?rs))\<rparr>"
      using Suc.prems False by (simp add: min_def)
    finally show ?thesis
      using Suc.prems False by (simp add: take_Suc_conv_app_nth diff_diff_eq add.commute)
  qed
qed

lemma remove_regions_list:
  assumes "s \<le> en" and "en \<le> length (mt_regions ty)" and "mt_regions ty \<noteq> []"
  shows "remove_regions s en ty =
     ty\<lparr>mt_regions := (if take s (mt_regions ty) @ drop en (mt_regions ty) = [] then [empty_region]
                      else take s (mt_regions ty) @ drop en (mt_regions ty)),
        mt_total_size := mt_total_size ty - sizes (drop s (take en (mt_regions ty)))\<rparr>"
proof (cases "take s (mt_regions ty) @ drop en (mt_regions ty) = []")
  case True
  then have s: "s = 0" and en: "en = length (mt_regions ty)" using assms by auto
  obtain r rs where rs: "mt_regions ty = r # rs" using assms(3) by (cases "mt_regions ty") auto
  have upt: "[0..<en] = 0 # [1..<en]" using en rs by (subst upt_conv_Cons) auto
  have "remove_regions 0 en ty = memblock_remove_region (remove_regions 1 en ty) 0"
    unfolding remove_regions_def upt by simp
  also have "remove_regions 1 en ty =
      ty\<lparr>mt_regions := [r], mt_total_size := mt_total_size ty - sizes rs\<rparr>"
    using en rs by (subst remove_regions_nonempty) auto
  finally show ?thesis
    using s en rs by (simp add: memblock_remove_region_def diff_diff_eq add.commute)
next
  case False
  show ?thesis
    by (simp only: remove_regions_nonempty [OF assms(1,2) False] False if_False)
qed

lemma iso_list_trichotomy:
  "sorted_from lo rs \<Longrightarrow> base < e \<Longrightarrow> x \<in> set (iso_list base e rs) \<Longrightarrow>
     region_low base x \<or> region_inside base e x \<or> e \<le> mr_base x"
proof (induction rs arbitrary: lo)
  case (Cons r rs)
  have "e \<le> mr_base y" if "e \<le> mr_base r" "y \<in> set (r # rs)" for y
    using that Cons.prems(1) sorted_from_base [of "mr_base r" "r # rs" y] by auto
  with Cons show ?case
    by (auto simp: piece_below_def piece_inside_def piece_above_def region_low_def
        region_inside_def Let_def max_def min_def split: if_splits)
qed simp

lemma sorted_from_filter: "sorted_from lo rs \<Longrightarrow> sorted_from lo (filter P rs)"
proof (induction rs arbitrary: lo)
  case (Cons r rs)
  then have "sorted_from (mr_end r) (filter P rs)" "lo \<le> mr_base r" "mr_base r < mr_end r"
    by auto
  then show ?case
    by (auto elim: sorted_from_mono)
qed simp

definition region_high :: "u64 \<Rightarrow> memblock_region \<Rightarrow> bool" where
  "region_high e x \<longleftrightarrow> e \<le> mr_base x"

lemma sorted_partition:
  "sorted_from lo rs \<Longrightarrow> base < e \<Longrightarrow>
   (\<And>x. x \<in> set rs \<Longrightarrow> region_low base x \<or> region_inside base e x \<or> region_high e x) \<Longrightarrow>
   rs = filter (region_low base) rs @ filter (region_inside base e) rs @ filter (region_high e) rs"
proof (induction rs arbitrary: lo)
  case (Cons r rs)
  then have rs: "sorted_from (mr_end r) rs" and r: "mr_base r < mr_end r" by auto
  have IH: "rs = filter (region_low base) rs @ filter (region_inside base e) rs @
      filter (region_high e) rs"
    using Cons.IH [OF rs] Cons.prems by simp
  consider "region_low base r" | "region_inside base e r" | "region_high e r"
    using Cons.prems(3) by auto
  then show ?case
  proof cases
    case 1
    then have "\<not> region_inside base e r" "\<not> region_high e r"
      using r Cons.prems(2) by (auto simp: region_low_def region_inside_def region_high_def)
    with 1 IH show ?thesis by simp
  next
    case 2
    then have "\<not> region_low base r" "\<not> region_high e r" "filter (region_low base) rs = []"
      using r Cons.prems(2) no_low_above [OF rs, of base]
      by (auto simp: region_low_def region_inside_def region_high_def)
    with 2 IH show ?thesis by simp
  next
    case 3
    then have "\<not> region_low base r" "\<not> region_inside base e r"
      "filter (region_low base) rs = []" "filter (region_inside base e) rs = []"
      using r Cons.prems(2) no_low_above [OF rs, of base] no_inside_above [OF rs, of e base]
      by (auto simp: region_low_def region_inside_def region_high_def)
    with 3 IH show ?thesis by simp
  qed
qed simp

text \<open>What is left of a sorted array when the range is removed.\<close>

definition remove_list :: "u64 \<Rightarrow> u64 \<Rightarrow> memblock_region list \<Rightarrow> memblock_region list" where
  "remove_list base e rs = filter (\<lambda>x. \<not> region_inside base e x) (iso_list base e rs)"

lemma remove_list_sorted:
  "sorted_from lo rs \<Longrightarrow> base < e \<Longrightarrow> sorted_from lo (remove_list base e rs)"
  by (simp add: remove_list_def sorted_from_filter iso_list_sorted)

lemma covers_filter: "covers rs = covers (filter P rs) \<union> covers (filter (\<lambda>x. \<not> P x) rs)"
  by (induction rs) auto

lemma remove_list_covers:
  assumes "sorted_from lo rs" and "base < e"
  shows "covers (remove_list base e rs) = covers rs - {base..<e}"
proof -
  let ?xs = "iso_list base e rs"
  have "covers (filter (region_inside base e) ?xs) \<subseteq> {base..<e}"
    by (auto simp: covers_def region_inside_def)
  moreover have "covers (remove_list base e rs) \<inter> {base..<e} = {}"
    using iso_list_trichotomy [OF assms]
    by (fastforce simp: covers_def remove_list_def region_low_def)
  moreover have "covers rs = covers (filter (region_inside base e) ?xs) \<union> covers (remove_list base e rs)"
    using iso_list_covers [OF assms] covers_filter [of ?xs] by (simp add: remove_list_def)
  ultimately show ?thesis by blast
qed

lemma isolated_parts:
  assumes sorted: "sorted_from lo rs" and e: "base < e"
    and idx: "isolated_idx base e 0 (iso_list base e rs) (0, 0) = (s, en)"
  shows "s \<le> en" and "en \<le> length (iso_list base e rs)"
    and "take s (iso_list base e rs) @ drop en (iso_list base e rs) = remove_list base e rs"
    and "drop s (take en (iso_list base e rs)) =
           filter (region_inside base e) (iso_list base e rs)"
proof -
  let ?xs = "iso_list base e rs"
  let ?L = "filter (region_low base) ?xs" and ?I = "filter (region_inside base e) ?xs"
    and ?H = "filter (region_high e) ?xs"
  have xs: "sorted_from lo ?xs" using sorted e by (rule iso_list_sorted)
  have part: "?xs = ?L @ ?I @ ?H"
    using xs e iso_list_trichotomy [OF sorted e]
    by (intro sorted_partition) (auto simp: region_high_def)
  have excl: "region_low base x \<Longrightarrow> \<not> region_inside base e x"
    "region_high e x \<Longrightarrow> \<not> region_inside base e x" if "x \<in> set ?xs" for x
    using sorted_from_nonempty [OF xs that]
    by (auto simp: region_inside_def region_low_def region_high_def)
  have "remove_list base e rs = filter (\<lambda>x. \<not> region_inside base e x) (?L @ ?I @ ?H)"
    unfolding remove_list_def using part by (rule arg_cong)
  also have "\<dots> = ?L @ ?H"
    using excl by (simp cong: filter_cong conj_cong)
  finally have rem: "remove_list base e rs = ?L @ ?H" .
  have se: "(s, en) = (if ?I = [] then (0, 0) else (length ?L, length ?L + length ?I))"
    using idx by (simp add: isolated_idx_def Let_def split: if_splits)
  note parts = append3_parts [OF part]
  have none: "?I = [] \<Longrightarrow> ?xs = ?L @ ?H" using part by (simp only: append_Nil)
  show "s \<le> en" "en \<le> length ?xs"
    using se parts(4) by (auto split: if_splits)
  show "take s ?xs @ drop en ?xs = remove_list base e rs"
  proof (cases "?I = []")
    case True
    then have "s = 0" "en = 0" using se by auto
    then show ?thesis using rem none [OF True, symmetric] by simp
  next
    case False
    then have "s = length ?L" "en = length ?L + length ?I" using se by auto
    then show ?thesis using parts(1,3) rem by simp
  qed
  show "drop s (take en ?xs) = ?I"
  proof (cases "?I = []")
    case True
    then show ?thesis using se by auto
  next
    case False
    then have "s = length ?L" "en = length ?L + length ?I" using se by auto
    then show ?thesis using parts(2) by (simp add: drop_take)
  qed
qed

end
