(* ===== verification/Memblock_Abs.thy ===== *)
theory Memblock_Abs
  imports Memblock_Remove
begin

text \<open>
  The abstract view of a region array: a map from every address it covers to the flags and
  the node of the region the address is in. The list functions that the loops of
  \<^verbatim>\<open>mm/memblock.c\<close> were shown to compute are operations on this map.
\<close>

fun amap :: "memblock_region list \<Rightarrow> (u64 \<rightharpoonup> u64 \<times> int)" where
  "amap [] x = None"
| "amap (r # rs) x =
     (if mr_base r \<le> x \<and> x < mr_end r then Some (mr_flags r, mr_nid r) else amap rs x)"

text \<open>
  The abstract operations: give a range attributes where it has none, forget a range, and
  change the attributes of what is known of a range.
\<close>

definition spec_add :: "u64 set \<Rightarrow> u64 \<times> int \<Rightarrow> (u64 \<rightharpoonup> u64 \<times> int) \<Rightarrow> (u64 \<rightharpoonup> u64 \<times> int)" where
  "spec_add A attr m =
     (\<lambda>x. case m x of None \<Rightarrow> if x \<in> A then Some attr else None | Some y \<Rightarrow> Some y)"

definition spec_remove :: "u64 set \<Rightarrow> (u64 \<rightharpoonup> u64 \<times> int) \<Rightarrow> (u64 \<rightharpoonup> u64 \<times> int)" where
  "spec_remove A m = m |` (- A)"

definition spec_update ::
  "u64 set \<Rightarrow> (u64 \<times> int \<Rightarrow> u64 \<times> int) \<Rightarrow> (u64 \<rightharpoonup> u64 \<times> int) \<Rightarrow> (u64 \<rightharpoonup> u64 \<times> int)" where
  "spec_update A g m = (\<lambda>x. if x \<in> A then map_option g (m x) else m x)"

lemma dom_spec [simp]:
  "dom (spec_add A attr m) = dom m \<union> A"
  "dom (spec_remove A m) = dom m - A"
  "dom (spec_update A g m) = dom m"
  by (auto simp: spec_add_def spec_remove_def spec_update_def dom_def restrict_map_def
      split: option.splits if_splits)

lemma spec_empty [simp]:
  "spec_add {} attr m = m" "spec_remove {} m = m" "spec_update {} g m = m"
  by (auto simp: spec_add_def spec_remove_def spec_update_def fun_eq_iff split: option.splits)

lemma amap_append: "amap (xs @ ys) = amap ys ++ amap xs"
  by (induction xs) (auto simp: map_add_def fun_eq_iff split: option.splits)

lemma dom_amap: "dom (amap rs) = covers rs"
  by (induction rs) (auto simp: dom_def split: if_splits)

lemma amap_outside: "x \<notin> covers rs \<Longrightarrow> amap rs x = None"
  using dom_amap [of rs] by auto

lemma amap_below: "sorted_from lo rs \<Longrightarrow> x < lo \<Longrightarrow> amap rs x = None"
  using sorted_from_lower [of lo rs x] by (auto intro!: amap_outside)

lemma add_list_amap:
  "sorted_from lo rs \<Longrightarrow>
     amap (add_list nid flags e base rs) x =
       (case amap rs x of
          None \<Rightarrow> if base \<le> x \<and> x < e then Some (flags, nid) else None
        | Some y \<Rightarrow> Some y)"
proof (induction rs arbitrary: base lo)
  case Nil
  then show ?case by auto
next
  case (Cons r rs)
  then have r: "mr_base r < mr_end r" and rs: "sorted_from (mr_end r) rs"
    by auto
  have below: "x < mr_end r \<Longrightarrow> amap rs x = None" using amap_below [OF rs] .
  consider "e \<le> mr_base r" | "\<not> e \<le> mr_base r" "mr_end r \<le> base"
    | "\<not> e \<le> mr_base r" "\<not> mr_end r \<le> base" by blast
  then show ?case
  proof cases
    case 1
    then have "x < e \<Longrightarrow> \<not> mr_base r \<le> x" "x < e \<Longrightarrow> x < mr_end r"
      "base \<le> x \<Longrightarrow> x < e \<Longrightarrow> base < e" using r by auto
    with 1 below show ?thesis by (cases "x < e") (simp_all split: option.split)
  next
    case 2
    then show ?thesis using Cons.IH [OF rs] by simp
  next
    case 3
    let ?m = "min (mr_end r) e"
    have IH: "amap (add_list nid flags e ?m rs) x =
       (case amap rs x of None \<Rightarrow> if ?m \<le> x \<and> x < e then Some (flags, nid) else None | Some y \<Rightarrow> Some y)"
      by (rule Cons.IH [OF rs])
    consider "x < mr_base r" | "mr_base r \<le> x" "x < mr_end r" | "mr_end r \<le> x" by fastforce
    then show ?thesis
    proof cases
      case 1
      then have "x < mr_end r" "x < e" "\<not> ?m \<le> x" using r 3 by (auto simp: min_def)
      with 1 3 IH below show ?thesis by auto
    next
      case 2
      then have "\<not> x < mr_base r" by simp
      with 2 3 show ?thesis by simp
    next
      case 3
      then have "base \<le> x" "\<not> x < mr_base r" using \<open>\<not> mr_end r \<le> base\<close> r by auto
      with 3 IH \<open>\<not> e \<le> mr_base r\<close> \<open>\<not> mr_end r \<le> base\<close> show ?thesis
        by (auto simp: min_def split: option.split)
    qed
  qed
qed

lemma merge_list_amap: "sorted_from lo rs \<Longrightarrow> amap (merge_list rs) x = amap rs x"
proof (induction rs arbitrary: lo rule: merge_list.induct)
  case (3 r s rs)
  show ?case
  proof (cases "mergeable r s")
    case True
    have "amap (r\<lparr>mr_size := mr_size r + mr_size s\<rparr> # rs) x = amap (r # s # rs) x"
      using True 3(3) by (auto simp: mergeable_end) (auto simp: mergeable_def)
    with 3(1) [OF True mergeable_sorted [OF True 3(3)]] True show ?thesis by simp
  next
    case False
    with 3(2) [of "mr_end r"] 3(3) show ?thesis by simp
  qed
qed auto

lemma amap_Cons_cong: "amap rs x = amap rs' x \<Longrightarrow> amap (r # rs) x = amap (r # rs') x"
  by simp

lemma split_amap:
  assumes "mr_base r \<le> c" and "c \<le> mr_end r"
  shows "amap (r\<lparr>mr_size := c - mr_base r\<rparr> # r\<lparr>mr_base := c, mr_size := mr_end r - c\<rparr> # rs) x =
    amap (r # rs) x"
proof (cases "x < c")
  case True
  then have "x < mr_end r" "\<not> c \<le> x" using assms by auto
  with True show ?thesis by simp
next
  case False
  then have "mr_base r \<le> x" "c \<le> x" using assms by auto
  with False show ?thesis by simp
qed

lemma piece_above_amap:
  assumes "mr_base r < e"
  shows "amap (r\<lparr>mr_size := min (mr_end r) e - mr_base r\<rparr> # piece_above e r @ rs) x = amap (r # rs) x"
proof (cases "e < mr_end r")
  case True
  then have "min (mr_end r) e = e" "piece_above e r = [r\<lparr>mr_base := e, mr_size := mr_end r - e\<rparr>]"
    by (simp_all add: piece_above_def)
  then show ?thesis
    using True assms split_amap [of r e rs x] by (simp only: append_Cons append_Nil less_imp_le)
next
  case False
  then have "min (mr_end r) e = mr_end r" "piece_above e r = []"
    by (auto simp: piece_above_def min_def)
  then show ?thesis by simp
qed

lemma pieces_amap:
  assumes "mr_base r < e" and "base < e" and "base < mr_end r"
  shows "amap (piece_below base r @ piece_inside base e r # piece_above e r @ rs) x = amap (r # rs) x"
proof (cases "mr_base r < base")
  case True
  let ?s = "r\<lparr>mr_base := base, mr_size := mr_end r - base\<rparr>"
  have pieces: "piece_inside base e r = ?s\<lparr>mr_size := min (mr_end ?s) e - mr_base ?s\<rparr>"
    "piece_above e r = piece_above e ?s" "piece_below base r = [r\<lparr>mr_size := base - mr_base r\<rparr>]"
    using True by (simp_all add: piece_inside_def piece_above_def piece_below_def max_def Let_def)
  have "amap (piece_inside base e r # piece_above e r @ rs) x = amap (?s # rs) x"
    unfolding pieces by (rule piece_above_amap) (simp add: assms)
  from amap_Cons_cong [OF this] show ?thesis
    using True assms split_amap [of r base rs x]
    by (simp only: pieces(3) append_Cons append_Nil less_imp_le)
next
  case False
  then show ?thesis
    using piece_above_amap [of r e rs x] assms
    by (simp add: piece_inside_def piece_below_def max_def Let_def)
qed

lemma iso_list_amap:
  "sorted_from lo rs \<Longrightarrow> base < e \<Longrightarrow> amap (iso_list base e rs) x = amap rs x"
proof (induction rs arbitrary: lo)
  case (Cons r rs)
  then have r: "mr_base r < mr_end r" and IH: "amap (iso_list base e rs) x = amap rs x" by auto
  show ?case
    using r IH Cons.prems(2) pieces_amap [of r e base "iso_list base e rs" x]
    by (auto simp: not_le)
qed simp

lemma add_list_spec:
  "sorted_from lo rs \<Longrightarrow>
     amap (add_list nid flags e base rs) = spec_add {base..<e} (flags, nid) (amap rs)"
  by (auto simp: fun_eq_iff spec_add_def add_list_amap split: option.split)

lemma amap_filter_outside:
  "(\<And>r. r \<in> set rs \<Longrightarrow> \<not> P r \<Longrightarrow> \<not> (mr_base r \<le> x \<and> x < mr_end r)) \<Longrightarrow>
     amap (filter P rs) x = amap rs x"
  by (induction rs) auto

lemma remove_list_spec:
  assumes "sorted_from lo rs" and "base < e"
  shows "amap (remove_list base e rs) = spec_remove {base..<e} (amap rs)"
proof
  fix x
  show "amap (remove_list base e rs) x = spec_remove {base..<e} (amap rs) x"
  proof (cases "x \<in> {base..<e}")
    case True
    then have "x \<notin> covers (remove_list base e rs)"
      using remove_list_covers [OF assms] by auto
    then show ?thesis
      using True by (simp add: amap_outside spec_remove_def)
  next
    case False
    have "amap (remove_list base e rs) x = amap (iso_list base e rs) x"
      unfolding remove_list_def
      by (rule amap_filter_outside) (use False in \<open>auto simp: region_inside_def\<close>)
    then show ?thesis
      using False iso_list_amap [OF assms, of x] by (simp add: spec_remove_def)
  qed
qed

text \<open>A change of attributes in the part of the array that lies inside the range.\<close>

definition attr_change :: "(memblock_region \<Rightarrow> memblock_region) \<Rightarrow> (u64 \<times> int \<Rightarrow> u64 \<times> int) \<Rightarrow> bool" where
  "attr_change f g \<longleftrightarrow> (\<forall>r. mr_base (f r) = mr_base r \<and> mr_size (f r) = mr_size r \<and>
     (mr_flags (f r), mr_nid (f r)) = g (mr_flags r, mr_nid r))"

lemma amap_map: "attr_change f g \<Longrightarrow> amap (map f rs) x = map_option g (amap rs x)"
  by (induction rs) (auto simp: attr_change_def)

lemma sorted_from_map: "attr_change f g \<Longrightarrow> sorted_from lo (map f rs) = sorted_from lo rs"
  by (induction rs arbitrary: lo) (auto simp: attr_change_def)

lemma sizes_map: "attr_change f g \<Longrightarrow> sizes (map f rs) = sizes rs"
  by (induction rs) (auto simp: attr_change_def)

end
