(* ===== verification/Memblock_Ops.thy ===== *)
theory Memblock_Ops
  imports Memblock_Abs
begin

text \<open>
  The operations on a whole \<open>memblock\<close> state: the well-formedness invariant, the contract of
  the array-doubling function as a locale, and the effect of adding, removing and marking
  ranges under that contract.
\<close>

section \<open>The invariant\<close>

text \<open>An array holds either one empty dummy entry at address 0 or a sorted list of regions.\<close>

definition wf_regions :: "memblock_region list \<Rightarrow> bool" where
  "wf_regions rs \<longleftrightarrow>
     (\<exists>r. rs = [r] \<and> mr_base r = 0 \<and> mr_size r = 0) \<or> (rs \<noteq> [] \<and> sorted_from 0 rs)"

definition wf_type :: "memblock_type \<Rightarrow> bool" where
  "wf_type ty \<longleftrightarrow>
     wf_regions (mt_regions ty) \<and> length (mt_regions ty) \<le> mt_max ty \<and>
     mt_total_size ty = sizes (mt_regions ty)"

definition memblock_wf :: "memblock \<Rightarrow> bool" where
  "memblock_wf st \<longleftrightarrow> wf_type (mb_memory st) \<and> wf_type (mb_reserved st)"

lemma get_put_type [simp]:
  "get_type (put_type st w ty) w = ty"
  "w \<noteq> v \<Longrightarrow> get_type (put_type st w ty) v = get_type st v"
  by (cases w; cases v; simp add: get_type_def put_type_def)+

lemma put_get_type [simp]: "put_type st w (get_type st w) = st"
  by (cases w) (simp_all add: get_type_def put_type_def)

lemma wf_get_type: "memblock_wf st \<longleftrightarrow> (\<forall>w. wf_type (get_type st w))"
  by (auto simp: memblock_wf_def get_type_def split: which.split)

lemma wf_put_type: "memblock_wf st \<Longrightarrow> wf_type ty \<Longrightarrow> memblock_wf (put_type st w ty)"
  by (cases w) (simp_all add: memblock_wf_def put_type_def)

lemma wf_init: "memblock_wf memblock_init"
  by (simp add: memblock_wf_def wf_type_def wf_regions_def memblock_init_def memblock_init_type_def)

lemma wf_regions_cases:
  assumes "wf_regions rs"
  obtains (dummy) r where "rs = [r]" "mr_base r = 0" "mr_size r = 0" "covers rs = {}"
  | (regions) "rs \<noteq> []" "sorted_from 0 rs" "mr_size (rs ! 0) \<noteq> 0"
proof -
  have "mr_size r \<noteq> 0" if "sorted_from 0 (r # rs')" for r rs' using that by auto
  then show thesis
    using assms that by (cases rs) (auto simp: wf_regions_def)
qed

text \<open>The part of a request that \<^verbatim>\<open>memblock_cap_size\<close> leaves.\<close>

definition capped :: "u64 \<Rightarrow> u64 \<Rightarrow> u64 set" where
  "capped base sz = {base..<base + memblock_cap_size base sz}"

lemma cap_size_bound: "unat base + unat (memblock_cap_size base sz) < 2 ^ 64"
proof -
  have "memblock_cap_size base sz \<le> - 1 - base" by (simp add: memblock_cap_size_def)
  then have "unat (memblock_cap_size base sz) \<le> 2 ^ 64 - 1 - unat base"
    by (simp add: word_le_nat_alt unat_max_minus)
  moreover have "unat base < 2 ^ 64" using unat_bound [of base] by simp
  ultimately show ?thesis by linarith
qed

lemma cap_size_no_wrap:
  "memblock_cap_size base sz \<noteq> 0 \<Longrightarrow> base < base + memblock_cap_size base sz"
  using cap_size_bound by (intro word_less_add_no_wrap) simp_all

lemma cap_size_exact:
  assumes "unat base + unat sz < 2 ^ 64"
  shows "memblock_cap_size base sz = sz"
proof -
  have "sz \<le> - 1 - base"
    using assms by (simp add: word_le_nat_alt unat_max_minus)
  then show ?thesis by (simp add: memblock_cap_size_def min_def)
qed

section \<open>Rounds of memblock_add_range on a well-formed array\<close>

lemma add_range_rest_full:
  assumes "mt_regions ty = pre @ rs" and "length pre + length rs \<le> mt_max ty"
    and "\<not> length pre + length (add_list nid flags e base rs) \<le> mt_max ty"
  shows "add_range_rest True e nid flags ty (length pre) base nr = Bug"
  using assms
proof (induction rs arbitrary: pre base nr ty)
  case Nil
  then show ?case
    by (auto simp: add_range_rest_def add_range_pass.simps [of _ _ _ _ ty] Let_def
        memblock_insert_region_def split: if_splits)
next
  case (Cons r rs)
  let ?new = "\<lparr>mr_base = base, mr_size = mr_base r - base, mr_flags = flags, mr_nid = nid\<rparr>"
  let ?ty = "ty\<lparr>mt_regions := pre @ ?new # r # rs,
                mt_total_size := mt_total_size ty + (mr_base r - base)\<rparr>"
  have step: "add_range_rest True e nid flags ty (length pre) base nr =
     (if mr_base r \<ge> e then
        if base < e then obind (memblock_insert_region ty (length pre) base (e - base) nid flags)
                           (\<lambda>ty'. Ret (ty', Suc nr))
        else Ret (ty, nr)
      else if mr_end r \<le> base then add_range_rest True e nid flags ty (Suc (length pre)) base nr
      else if mr_base r > base then
        (if mt_max ty \<le> length pre + length rs + 1 then Bug
         else add_range_rest True e nid flags ?ty (Suc (Suc (length pre))) (min (mr_end r) e) (Suc nr))
      else add_range_rest True e nid flags ty (Suc (length pre)) (min (mr_end r) e) nr)"
    using Cons.prems
    by (auto simp: add_range_rest_def add_range_pass.simps [of _ _ _ _ ty "length pre"] Let_def
        memblock_insert_region_def)
  show ?case
  proof (cases "e \<le> mr_base r")
    case True
    then show ?thesis
      using step Cons.prems by (auto simp: memblock_insert_region_def Let_def split: if_splits)
  next
    case ne: False
    show ?thesis
    proof (cases "mr_end r \<le> base")
      case True
      then show ?thesis
        using ne step Cons.IH [of ty "pre @ [r]" base nr] Cons.prems by simp
    next
      case False
      then show ?thesis
        using ne step Cons.IH [of ty "pre @ [r]" "min (mr_end r) e" nr]
          Cons.IH [of ?ty "pre @ [?new, r]" "min (mr_end r) e" "Suc nr"] Cons.prems
        by (cases "mr_base r > base") simp_all
    qed
  qed
qed

text \<open>A round that inserts: it fits and yields \<open>add_list\<close>, or it hits the \<^verbatim>\<open>BUG_ON\<close>.\<close>

lemma add_range_round_insert:
  assumes "length (mt_regions ty) \<le> mt_max ty"
  shows "add_range_round True base e nid flags ty =
     (let rs = add_list nid flags e base (mt_regions ty) in
      if length rs \<le> mt_max ty
      then Ret (ty\<lparr>mt_regions := rs,
                   mt_total_size := mt_total_size ty + (sizes rs - sizes (mt_regions ty))\<rparr>,
                length rs - length (mt_regions ty))
      else Bug)"
  using assms add_range_rest_insert [of ty "[]"] add_range_rest_full [of ty "[]"]
  by (simp add: add_range_round_rest Let_def)

lemma add_range_round_count:
  "add_range_round False base e nid flags ty =
     Ret (ty, length (add_list nid flags e base (mt_regions ty)) - length (mt_regions ty))"
  using add_range_rest_count [of ty "[]"] by (simp add: add_range_round_rest)

lemma merge_regions_wf:
  assumes "sorted_from 0 (mt_regions ty)"
  shows "memblock_merge_regions ty = Ret (ty\<lparr>mt_regions := merge_list (mt_regions ty)\<rparr>)"
  using merge_regions_from_list [OF assms, of "[]"] by (simp add: memblock_merge_regions_def)

text \<open>The array after a range is added, when the array need not grow.\<close>

definition add_type :: "u64 \<Rightarrow> u64 \<Rightarrow> int \<Rightarrow> u64 \<Rightarrow> memblock_type \<Rightarrow> memblock_type" where
  "add_type base e nid flags ty =
     (let rs = add_list nid flags e base (mt_regions ty) in
      if length rs = length (mt_regions ty) then ty
      else ty\<lparr>mt_total_size := mt_total_size ty + (sizes rs - sizes (mt_regions ty)),
              mt_regions := merge_list rs\<rparr>)"

lemma add_type_wf:
  assumes "wf_type ty" and "sorted_from 0 (mt_regions ty)"
    and "length (add_list nid flags e base (mt_regions ty)) \<le> mt_max ty"
  shows "wf_type (add_type base e nid flags ty)"
    and "amap (mt_regions (add_type base e nid flags ty)) =
           spec_add {base..<e} (flags, nid) (amap (mt_regions ty))"
    and "sorted_from 0 (mt_regions (add_type base e nid flags ty))"
proof -
  let ?rs = "add_list nid flags e base (mt_regions ty)"
  have rs: "sorted_from 0 ?rs" "amap ?rs = spec_add {base..<e} (flags, nid) (amap (mt_regions ty))"
    using assms(2) by (simp_all add: add_list_sorted add_list_spec)
  have ne: "mt_regions ty \<noteq> []" using assms(1) by (auto simp: wf_type_def wf_regions_def)
  then have "?rs \<noteq> []" using add_list_length [of "mt_regions ty" nid flags e base] by auto
  with rs assms merge_list_length [of ?rs]
  show "wf_type (add_type base e nid flags ty)"
    by (auto simp: add_type_def Let_def wf_type_def wf_regions_def merge_list_sorted)
  have "amap (merge_list ?rs) = amap ?rs"
    using merge_list_amap [OF rs(1)] by (simp add: fun_eq_iff)
  then show "amap (mt_regions (add_type base e nid flags ty)) =
      spec_add {base..<e} (flags, nid) (amap (mt_regions ty))"
    using rs(2) add_list_unchanged [of nid flags e base "mt_regions ty"]
    by (auto simp: add_type_def Let_def)
  show "sorted_from 0 (mt_regions (add_type base e nid flags ty))"
    using rs assms(2) by (auto simp: add_type_def Let_def merge_list_sorted)
qed

section \<open>What growing an array may change\<close>

text \<open>
  Growing moves an array and, as a side effect, edits the reserved ranges, since the arrays
  themselves live in reserved memory. The memory ranges and the settings never change.
\<close>

definition same_memory :: "memblock_type \<Rightarrow> memblock_type \<Rightarrow> bool" where
  "same_memory ty ty' \<longleftrightarrow> mt_regions ty' = mt_regions ty \<and>
     mt_total_size ty' = mt_total_size ty \<and> mt_max ty \<le> mt_max ty'"

definition same_settings :: "memblock \<Rightarrow> memblock \<Rightarrow> bool" where
  "same_settings st st' \<longleftrightarrow>
     mb_bottom_up st' = mb_bottom_up st \<and> mb_current_limit st' = mb_current_limit st \<and>
     mb_has_mirror st' = mb_has_mirror st \<and> mb_can_resize st' = mb_can_resize st"

definition mem_kept :: "memblock \<Rightarrow> memblock \<Rightarrow> bool" where
  "mem_kept st st' \<longleftrightarrow> same_memory (mb_memory st) (mb_memory st') \<and> same_settings st st'"

lemma mem_kept_refl: "mem_kept st st"
  by (simp add: mem_kept_def same_memory_def same_settings_def)

lemma mem_kept_trans: "mem_kept st st' \<Longrightarrow> mem_kept st' st'' \<Longrightarrow> mem_kept st st''"
  by (auto simp: mem_kept_def same_memory_def same_settings_def)

lemma mem_kept_put_reserved [simp]: "mem_kept st (put_type st' Reserved ty) = mem_kept st st'"
  by (simp add: put_type_def mem_kept_def same_settings_def)

lemma mem_kept_put_memory:
  "mem_kept st (put_type st Memory (mb_memory st\<lparr>mt_loc := l, mt_max := 2 * mt_max (mb_memory st)\<rparr>))"
  by (simp add: put_type_def mem_kept_def same_memory_def same_settings_def)

lemma mem_kept_set_in_slab [simp]: "mem_kept st (set_in_slab st' w v) = mem_kept st st'"
  by (cases w) (simp_all add: set_in_slab_def mem_kept_def same_settings_def)

lemma same_settings_put [simp]:
  "same_settings st (put_type st' w ty) = same_settings st st'"
  by (cases w) (simp_all add: put_type_def same_settings_def)

lemma same_memory_wf: "same_memory ty ty' \<Longrightarrow> wf_type ty \<Longrightarrow> wf_type ty'"
  by (auto simp: same_memory_def wf_type_def)

lemma get_type_simps [simp]:
  "get_type st Memory = mb_memory st" "get_type st Reserved = mb_reserved st"
  by (simp_all add: get_type_def)

locale array_growth =
  fixes grow :: grow
  assumes grow_kept: "grow st w base sz = Ret (st', r) \<Longrightarrow> mem_kept st st'"
begin

lemma make_room_kept:
  assumes "make_room grow fuel st w n base sz = Ret (st', ok)"
  shows "mem_kept st st' \<and>
     (ok \<longrightarrow> length (mt_regions (get_type st' w)) + n \<le> mt_max (get_type st' w))"
  using assms
proof (induction fuel arbitrary: st)
  case 0
  then show ?case
    by (auto simp: make_room.simps [of _ 0] mem_kept_refl not_less split: if_splits)
next
  case (Suc fuel)
  show ?case
  proof (cases "mt_max (get_type st w) < length (mt_regions (get_type st w)) + n")
    case True
    with Suc.prems obtain st1 r where
      g: "grow st w base sz = Ret (st1, r)" and
      rest: "if r < 0 then Ret (st1, False) = Ret (st', ok)
             else make_room grow fuel st1 w n base sz = Ret (st', ok)"
      by (auto simp: make_room.simps [of _ "Suc fuel"] obind_Ret_conv split: if_splits)
    from grow_kept [OF g] rest Suc.IH [of st1] show ?thesis
      by (auto split: if_splits intro: mem_kept_trans)
  next
    case False
    then show ?thesis
      using Suc.prems by (auto simp: make_room.simps [of _ "Suc fuel"] mem_kept_refl)
  qed
qed

end

section \<open>Adding a range\<close>

text \<open>The array with a range added, the first entry replaced when the array is empty.\<close>

definition add_result :: "u64 \<Rightarrow> u64 \<Rightarrow> int \<Rightarrow> u64 \<Rightarrow> memblock_type \<Rightarrow> memblock_type" where
  "add_result base sz nid flags ty =
     (let sz = memblock_cap_size base sz in
      if sz = 0 then ty
      else if mr_size (mt_regions ty ! 0) = 0 then
        ty\<lparr>mt_regions := [\<lparr>mr_base = base, mr_size = sz, mr_flags = flags, mr_nid = nid\<rparr>],
           mt_total_size := sz\<rparr>
      else add_type base (base + sz) nid flags ty)"

definition add_fits :: "u64 \<Rightarrow> u64 \<Rightarrow> int \<Rightarrow> u64 \<Rightarrow> memblock_type \<Rightarrow> bool" where
  "add_fits base sz nid flags ty \<longleftrightarrow>
     mr_size (mt_regions ty ! 0) = 0 \<or>
     length (add_list nid flags (base + memblock_cap_size base sz) base (mt_regions ty)) \<le> mt_max ty"

lemma add_fits_upper:
  "2 * length (mt_regions ty) + 1 \<le> mt_max ty \<Longrightarrow> add_fits base sz nid flags ty"
  using add_list_length_upper [of nid flags "base + memblock_cap_size base sz" base "mt_regions ty"]
  by (simp add: add_fits_def)

lemma add_result_wf:
  assumes "wf_type ty" and "add_fits base sz nid flags ty"
  shows "wf_type (add_result base sz nid flags ty)"
    and "amap (mt_regions (add_result base sz nid flags ty)) =
           spec_add (capped base sz) (flags, nid) (amap (mt_regions ty))"
proof -
  have rs: "wf_regions (mt_regions ty)" using assms by (simp add: wf_type_def)
  have "wf_type (add_result base sz nid flags ty) \<and>
    amap (mt_regions (add_result base sz nid flags ty)) =
      spec_add (capped base sz) (flags, nid) (amap (mt_regions ty))"
    using rs
  proof (cases rule: wf_regions_cases)
    case (dummy r)
    then show ?thesis
      using assms(1) cap_size_no_wrap [of base sz]
      by (auto simp: add_result_def Let_def capped_def wf_type_def wf_regions_def spec_add_def fun_eq_iff)
  next
    case regions
    then show ?thesis
      using assms cap_size_no_wrap [of base sz]
        add_type_wf [of ty nid flags "base + memblock_cap_size base sz" base]
      by (auto simp: add_result_def Let_def capped_def add_fits_def)
  qed
  then show "wf_type (add_result base sz nid flags ty)"
    and "amap (mt_regions (add_result base sz nid flags ty)) =
           spec_add (capped base sz) (flags, nid) (amap (mt_regions ty))" by simp_all
qed

lemma add_result_length:
  assumes "length (mt_regions ty) > 0"
  shows "length (mt_regions (add_result base sz nid flags ty)) \<le> 2 * length (mt_regions ty) + 1"
    and "mt_max (add_result base sz nid flags ty) = mt_max ty"
proof -
  let ?rs = "add_list nid flags (base + memblock_cap_size base sz) base (mt_regions ty)"
  have "length (merge_list ?rs) \<le> 2 * length (mt_regions ty) + 1"
    using merge_list_length [of ?rs] add_list_length_upper [of nid flags _ base "mt_regions ty"] le_trans
    by blast
  then show "length (mt_regions (add_result base sz nid flags ty)) \<le> 2 * length (mt_regions ty) + 1"
    and "mt_max (add_result base sz nid flags ty) = mt_max ty"
    using assms by (auto simp: add_result_def add_type_def Let_def)
qed

text \<open>With room in the array no growing takes place and the call succeeds.\<close>

lemma add_range_with_room:
  assumes wf: "wf_type (get_type st w)" and "add_fits base sz nid flags (get_type st w)"
  shows "memblock_add_range_with grow st w base sz nid flags =
    Ret (put_type st w (add_result base sz nid flags (get_type st w)), 0)"
proof -
  let ?ty = "get_type st w" and ?e = "base + memblock_cap_size base sz"
  let ?rs = "add_list nid flags ?e base (mt_regions ?ty)"
  have "wf_regions (mt_regions ?ty)" using wf by (simp add: wf_type_def)
  then show ?thesis
  proof (cases rule: wf_regions_cases)
    case (dummy r)
    then show ?thesis
      by (simp add: memblock_add_range_with_def add_result_def Let_def)
  next
    case regions
    then have fit: "length ?rs \<le> mt_max ?ty" using assms(2) by (simp add: add_fits_def)
    have "sorted_from 0 ?rs" using regions by (simp add: add_list_sorted)
    then show ?thesis
      using regions fit wf add_list_length [of "mt_regions ?ty" nid flags ?e base]
      by (auto simp: memblock_add_range_with_def add_result_def add_type_def Let_def
          add_range_round_count add_range_round_insert merge_regions_wf make_room.simps
          wf_type_def add_list_unchanged)
  qed
qed

lemma total_size_eta: "mt_total_size ty = x \<Longrightarrow> ty\<lparr>mt_total_size := x\<rparr> = ty"
  by (cases ty) simp

lemma insert_and_merge:
  assumes "wf_type ty" and "sorted_from 0 (mt_regions ty)"
  shows "obind (add_range_round True base e nid flags ty) (\<lambda>(ty', n).
           if n = 0 then Ret (k ty')
           else obind (memblock_merge_regions ty') (\<lambda>ty''. Ret (k ty''))) =
    (if length (add_list nid flags e base (mt_regions ty)) \<le> mt_max ty
     then Ret (k (add_type base e nid flags ty)) else Bug)"
proof -
  let ?rs = "add_list nid flags e base (mt_regions ty)"
  have "sorted_from 0 ?rs" using assms(2) by (simp add: add_list_sorted)
  moreover have "length ?rs \<le> length (mt_regions ty) \<longleftrightarrow> length ?rs = length (mt_regions ty)"
    using add_list_length [of "mt_regions ty" nid flags e base] by auto
  moreover have "?rs = mt_regions ty" if "length ?rs = length (mt_regions ty)"
    using that by (rule add_list_unchanged)
  ultimately show ?thesis
    using assms(1)
    by (auto simp: add_range_round_insert add_type_def Let_def merge_regions_wf wf_type_def
        total_size_eta)
qed

context array_growth
begin

lemma add_range_reserved:
  assumes "memblock_add_range_with grow st Reserved base sz nid flags = Ret (st', r)"
  shows "mem_kept st st'"
  using assms
  by (auto simp: memblock_add_range_with_def Let_def obind_Ret_conv mem_kept_refl
      dest!: make_room_kept split: if_splits prod.splits)

lemma isolate_range_reserved:
  assumes "memblock_isolate_range_with grow st Reserved base sz = Ret (st', r, s, e)"
  shows "mem_kept st st'"
  using assms
  by (auto simp: memblock_isolate_range_with_def Let_def obind_Ret_conv mem_kept_refl
      dest!: make_room_kept split: if_splits prod.splits)

lemma remove_range_reserved:
  assumes "memblock_remove_range_with grow st Reserved base sz = Ret (st', r)"
  shows "mem_kept st st'"
  using assms
  by (auto simp: memblock_remove_range_with_def obind_Ret_conv
      dest!: isolate_range_reserved split: if_splits prod.splits)

lemma double_array_kept:
  assumes "memblock_double_array_with grow env st w base sz = Ret (st', r)"
  shows "mem_kept st st'"
proof -
  have moved: "mem_kept st (put_type st w (get_type st w\<lparr>mt_loc := l, mt_max := 2 * mt_max (get_type st w)\<rparr>))"
    for l by (cases w) (simp_all add: mem_kept_put_memory mem_kept_refl)
  show ?thesis
    using assms
    by (auto simp: memblock_double_array_with_def Let_def obind_Ret_conv mem_kept_refl moved
        memblock_free_with_def memblock_reserve_with_def
        intro: mem_kept_trans [OF moved] mem_kept_trans
        dest!: remove_range_reserved add_range_reserved
        split: if_splits prod.splits regions_loc.splits)
qed

end

lemma double_array_fuel_growth: "array_growth (memblock_double_array_fuel n env)"
proof (induction n)
  case 0
  then show ?case by unfold_locales simp
next
  case (Suc n)
  then show ?case
    by (auto intro!: array_growth.intro dest: array_growth.double_array_kept)
qed

interpretation dbl: array_growth "memblock_double_array env" for env
  unfolding memblock_double_array_def by (rule double_array_fuel_growth)

context array_growth
begin

lemma add_range_memory:
  assumes wf: "wf_type (mb_memory st)"
    and ret: "memblock_add_range_with grow st Memory base sz nid flags = Ret (st', r)"
  shows "same_settings st st' \<and> wf_type (mb_memory st') \<and>
    (r = 0 \<and> amap (mt_regions (mb_memory st')) =
        spec_add (capped base sz) (flags, nid) (amap (mt_regions (mb_memory st))) \<or>
     r = - ENOMEM \<and> mt_regions (mb_memory st') = mt_regions (mb_memory st))"
proof -
  let ?ty = "mb_memory st" and ?e = "base + memblock_cap_size base sz"
  let ?n = "length (add_list nid flags ?e base (mt_regions ?ty)) - length (mt_regions ?ty)"
  consider (zero) "memblock_cap_size base sz = 0" | (fits) "add_fits base sz nid flags ?ty"
    | (grows) "memblock_cap_size base sz \<noteq> 0" "\<not> add_fits base sz nid flags ?ty" by blast
  then show ?thesis
  proof cases
    case zero
    then show ?thesis
      using wf ret by (simp add: memblock_add_range_with_def Let_def capped_def same_settings_def)
  next
    case fits
    then show ?thesis
      using wf ret add_range_with_room [of st Memory] add_result_wf [of ?ty]
      by (auto simp: put_type_def same_settings_def)
  next
    case grows
    then have n: "?n \<noteq> 0" and size0: "mr_size (mt_regions ?ty ! 0) \<noteq> 0"
      using wf by (auto simp: add_fits_def wf_type_def)
    with grows obtain st1 b where
      room: "make_room grow room_fuel st Memory ?n base (memblock_cap_size base sz) = Ret (st1, b)" and
      rest: "if b then obind (add_range_round True base ?e nid flags (mb_memory st1)) (\<lambda>(ty', n).
            if n = 0 then Ret (put_type st1 Memory ty', 0)
            else obind (memblock_merge_regions ty') (\<lambda>ty''. Ret (put_type st1 Memory ty'', 0))) = Ret (st', r)
            else st' = st1 \<and> r = - ENOMEM"
      using ret
      by (auto simp: memblock_add_range_with_def Let_def add_range_round_count
          obind_Ret_conv split: if_splits)
    have kept: "same_memory ?ty (mb_memory st1)" "same_settings st st1"
      using make_room_kept [OF room] by (simp_all add: mem_kept_def)
    have wf1: "wf_type (mb_memory st1)" using kept(1) wf by (rule same_memory_wf)
    have sorted: "sorted_from 0 (mt_regions (mb_memory st1))"
      using wf size0 kept by (auto simp: same_memory_def wf_type_def elim: wf_regions_cases)
    let ?ty' = "add_type base ?e nid flags (mb_memory st1)"
    have "st' = put_type st1 Memory ?ty' \<and> r = 0 \<and>
        length (add_list nid flags ?e base (mt_regions (mb_memory st1))) \<le> mt_max (mb_memory st1)" if b
      using rest that insert_and_merge [OF wf1 sorted, of base ?e nid flags
          "\<lambda>ty. (put_type st1 Memory ty, 0 :: int)"]
      by (auto split: if_splits)
    then show ?thesis
      using rest kept wf1 add_type_wf [OF wf1 sorted, of nid flags ?e base]
      by (cases b) (auto simp: put_type_def same_settings_def same_memory_def capped_def)
  qed
qed

end

section \<open>Isolating a range\<close>

text \<open>
  What \<^verbatim>\<open>memblock_isolate_range\<close> leaves: the same map, cut so that exactly the entries
  from \<open>s\<close> up to \<open>en\<close> lie inside the range. An array with no region is not touched.
\<close>

definition isolated :: "u64 set \<Rightarrow> memblock_type \<Rightarrow> memblock_type \<Rightarrow> nat \<Rightarrow> nat \<Rightarrow> bool" where
  "isolated A ty ty' s en \<longleftrightarrow>
     wf_type ty' \<and> mt_max ty' = mt_max ty \<and> s \<le> en \<and> en \<le> length (mt_regions ty') \<and>
     amap (mt_regions ty') = amap (mt_regions ty) \<and>
     amap (take s (mt_regions ty') @ drop en (mt_regions ty')) =
       spec_remove A (amap (mt_regions ty)) \<and>
     covers (drop s (take en (mt_regions ty'))) \<subseteq> A \<and>
     (s < en \<longrightarrow> sorted_from 0 (mt_regions ty') \<and>
        sorted_from 0 (take s (mt_regions ty') @ drop en (mt_regions ty')))"

lemma isolate_from_wf:
  assumes wf: "wf_type ty" and e: "base < e" and room: "length (mt_regions ty) + 2 \<le> mt_max ty"
  obtains ty' s en where "isolate_from base e ty 0 0 0 = Ret (ty', s, en)"
    "isolated {base..<e} ty ty' s en"
proof -
  have "wf_regions (mt_regions ty)" using wf by (simp add: wf_type_def)
  then show thesis
  proof (cases rule: wf_regions_cases)
    case (dummy r)
    then have "isolate_from base e ty 0 0 0 = Ret (ty, 0, 0)"
      using e by (simp add: isolate_from.simps [of _ _ ty])
    moreover have "isolated {base..<e} ty ty 0 0"
      using dummy wf by (auto simp: isolated_def spec_remove_def restrict_map_def fun_eq_iff)
    ultimately show thesis by (rule that)
  next
    case regions
    let ?xs = "iso_list base e (mt_regions ty)"
    obtain s en where idx: "isolated_idx base e 0 ?xs (0, 0) = (s, en)" by fastforce
    have len: "length ?xs \<le> mt_max ty"
      using iso_list_length [OF regions(2), of base e] room by simp
    have iso: "isolate_from base e ty 0 0 0 = Ret (ty\<lparr>mt_regions := ?xs\<rparr>, s, en)"
      using isolate_from_list [OF regions(2) e, of ty "[]" 0 0] len idx by simp
    note parts = isolated_parts [OF regions(2) e idx]
    have sorted: "sorted_from 0 ?xs" using regions(2) e by (rule iso_list_sorted)
    have ne: "?xs \<noteq> []" using regions(1) iso_list_length_ge [of "mt_regions ty" base e] by auto
    have "isolated {base..<e} ty (ty\<lparr>mt_regions := ?xs\<rparr>) s en"
      using parts len sorted ne wf remove_list_spec [OF regions(2) e]
        remove_list_sorted [OF regions(2) e] iso_list_amap [OF regions(2) e]
      by (auto simp: isolated_def wf_type_def wf_regions_def iso_list_sizes fun_eq_iff
          covers_def region_inside_def)
    with iso show thesis by (rule that)
  qed
qed

lemma remove_regions_wf:
  assumes "isolated A ty ty' s en"
  shows "wf_type (remove_regions s en ty')"
    and "amap (mt_regions (remove_regions s en ty')) = spec_remove A (amap (mt_regions ty))"
    and "mt_max (remove_regions s en ty') = mt_max ty"
proof -
  let ?rs = "take s (mt_regions ty') @ drop en (mt_regions ty')"
  have ne: "mt_regions ty' \<noteq> []" and wf: "wf_type ty'"
    using assms by (auto simp: isolated_def wf_type_def wf_regions_def)
  have eq: "remove_regions s en ty' =
      ty'\<lparr>mt_regions := (if ?rs = [] then [empty_region] else ?rs),
         mt_total_size := mt_total_size ty' - sizes (drop s (take en (mt_regions ty')))\<rparr>"
    using assms ne by (intro remove_regions_list) (simp_all add: isolated_def)
  have "take s (mt_regions ty') @ drop s (take en (mt_regions ty')) @ drop en (mt_regions ty') =
      mt_regions ty'"
    using assms by (intro take_mid_drop) (simp add: isolated_def)
  from arg_cong [OF this, of sizes] arg_cong [OF this, of length]
  have parts: "sizes (mt_regions ty') = sizes ?rs + sizes (drop s (take en (mt_regions ty')))"
    "length ?rs \<le> length (mt_regions ty')"
    by (simp_all add: algebra_simps)
  show "mt_max (remove_regions s en ty') = mt_max ty"
    using assms by (simp add: eq isolated_def)
  show "amap (mt_regions (remove_regions s en ty')) = spec_remove A (amap (mt_regions ty))"
    using assms by (auto simp: eq isolated_def empty_region_def fun_eq_iff)
  show "wf_type (remove_regions s en ty')"
  proof (cases "s = en")
    case True
    then show ?thesis using wf ne by (simp add: remove_regions_def)
  next
    case False
    then have "sorted_from 0 ?rs" "s < en" using assms by (auto simp: isolated_def)
    moreover have "0 < mt_max ty'"
      using wf ne by (auto simp: wf_type_def intro: less_le_trans [of 0 "length (mt_regions ty')"])
    ultimately show ?thesis
      using wf parts by (auto simp: eq wf_type_def wf_regions_def empty_region_def Suc_le_eq)
  qed
qed

lemma update_regions_map:
  assumes "s \<le> en" and "en \<le> length (mt_regions ty)"
  shows "mt_regions (update_regions f s en ty) =
    take s (mt_regions ty) @ map f (drop s (take en (mt_regions ty))) @ drop en (mt_regions ty)"
proof -
  have "fold (\<lambda>i rs. rs[i := f (rs ! i)]) [s..<n] xs = take s xs @ map f (drop s (take n xs)) @ drop n xs"
    if "s \<le> n" "n \<le> length xs" for n xs
    using that
  proof (induction n)
    case 0
    then show ?case by simp
  next
    case (Suc n)
    show ?case
    proof (cases "s \<le> n")
      case True
      have "drop s (take (Suc n) xs) = drop s (take n xs) @ [xs ! n]"
        using True Suc.prems by (simp add: take_Suc_conv_app_nth)
      moreover have "drop n xs = xs ! n # drop (Suc n) xs"
        using Suc.prems by (simp add: Cons_nth_drop_Suc)
      ultimately show ?thesis
        using True Suc by (simp add: list_update_append nth_append)
    next
      case False
      then have "s = Suc n" using Suc.prems by simp
      then show ?thesis by simp
    qed
  qed
  then show ?thesis using assms by (simp add: update_regions_def)
qed

lemma same_extent:
  assumes "map (\<lambda>r. (mr_base r, mr_size r)) rs' = map (\<lambda>r. (mr_base r, mr_size r)) rs"
  shows "sorted_from lo rs' = sorted_from lo rs" and "sizes rs' = sizes rs"
proof -
  have "sorted_from lo rs' = sorted_from lo rs \<and> sizes rs' = sizes rs"
    using assms
  proof (induction rs' arbitrary: rs lo)
    case (Cons r' rs')
    then obtain r rs1 where "rs = r # rs1" "mr_base r' = mr_base r" "mr_size r' = mr_size r"
      "map (\<lambda>r. (mr_base r, mr_size r)) rs' = map (\<lambda>r. (mr_base r, mr_size r)) rs1"
      by (cases rs) simp_all
    with Cons.IH [of rs1] show ?case by simp
  qed simp
  then show "sorted_from lo rs' = sorted_from lo rs" and "sizes rs' = sizes rs" by simp_all
qed

lemma update_regions_wf:
  assumes iso: "isolated A ty ty' s en" and f: "attr_change f g"
  obtains ty'' where "memblock_merge_regions (update_regions f s en ty') = Ret ty''"
    "wf_type ty''" "mt_max ty'' = mt_max ty"
    "amap (mt_regions ty'') = spec_update A g (amap (mt_regions ty))"
proof -
  let ?u = "update_regions f s en ty'" and ?rs = "mt_regions ty'"
  let ?mid = "drop s (take en ?rs)"
  have iso': "s \<le> en" "en \<le> length ?rs" "wf_type ty'" "mt_max ty' = mt_max ty"
    "amap ?rs = amap (mt_regions ty)" using iso by (auto simp: isolated_def)
  have u: "mt_regions ?u = take s ?rs @ map f ?mid @ drop en ?rs"
    using iso' by (intro update_regions_map)
  have mid: "amap ?mid x = None" if "x \<notin> A" for x
    using iso that by (intro amap_outside) (auto simp: isolated_def)
  have out: "(amap (drop en ?rs) ++ amap (take s ?rs)) x = None" if "x \<in> A" for x
    using iso that fun_cong [of "amap (take s ?rs @ drop en ?rs)" "spec_remove A (amap (mt_regions ty))" x]
    by (simp add: isolated_def spec_remove_def amap_append)
  have rs: "amap ?rs x = (amap (drop en ?rs) ++ amap ?mid ++ amap (take s ?rs)) x" for x
    using take_mid_drop [OF iso'(1), of ?rs] by (metis amap_append)
  have spec: "amap (mt_regions ?u) = spec_update A g (amap (mt_regions ty))"
  proof
    fix x
    have "amap (mt_regions ?u) x = (amap (drop en ?rs) ++ amap (map f ?mid) ++ amap (take s ?rs)) x"
      by (simp add: u amap_append)
    then show "amap (mt_regions ?u) x = spec_update A g (amap (mt_regions ty)) x"
      using mid [of x] out [of x] rs [of x] iso'(5) amap_map [OF f, of ?mid x]
      by (cases "x \<in> A") (auto simp: spec_update_def map_add_def split: option.splits)
  qed
  have "map (\<lambda>r. (mr_base r, mr_size r)) (mt_regions ?u) =
      map (\<lambda>r. (mr_base r, mr_size r)) (take s ?rs @ ?mid @ drop en ?rs)"
    using f by (simp add: u attr_change_def)
  then have ext: "map (\<lambda>r. (mr_base r, mr_size r)) (mt_regions ?u) = map (\<lambda>r. (mr_base r, mr_size r)) ?rs"
    by (simp only: take_mid_drop [OF iso'(1)])
  have rest: "length (mt_regions ?u) = length ?rs" "sizes (mt_regions ?u) = sizes ?rs"
    "mt_max ?u = mt_max ty'" "mt_total_size ?u = mt_total_size ty'"
    using map_eq_imp_length_eq [OF ext] same_extent [OF ext] by (simp_all add: update_regions_def)
  have "wf_regions ?rs" using iso'(3) by (simp add: wf_type_def)
  then show thesis
  proof (cases rule: wf_regions_cases)
    case (dummy r)
    then have "s = en" using iso by (auto simp: isolated_def)
    then have "mt_regions ?u = ?rs" by (simp add: update_regions_def)
    with dummy have "memblock_merge_regions ?u = Ret ?u"
      by (simp add: memblock_merge_regions_def merge_regions_from.simps)
    then show ?thesis
      using iso' rest spec \<open>mt_regions ?u = ?rs\<close> by (intro that [of ?u]) (simp_all add: wf_type_def)
  next
    case regions
    then have sorted: "sorted_from 0 (mt_regions ?u)" using same_extent [OF ext] by simp
    show ?thesis
    proof (rule that [OF merge_regions_wf [OF sorted]])
      show "wf_type (?u\<lparr>mt_regions := merge_list (mt_regions ?u)\<rparr>)"
        using iso'(3) rest sorted merge_list_length [of "mt_regions ?u"] regions(1)
        by (auto simp: wf_type_def wf_regions_def merge_list_sorted)
    qed (use iso' rest spec merge_list_amap [OF sorted] in \<open>simp_all add: fun_eq_iff\<close>)
  qed
qed

section \<open>Removing and marking a range\<close>

text \<open>With two free entries no growing takes place.\<close>

lemma isolate_range_room:
  assumes wf: "wf_type (get_type st w)"
    and room: "length (mt_regions (get_type st w)) + 2 \<le> mt_max (get_type st w)"
  obtains ty s en where
    "memblock_isolate_range_with grow st w base sz = Ret (put_type st w ty, 0, s, en)"
    "isolated (capped base sz) (get_type st w) ty s en"
proof (cases "memblock_cap_size base sz = 0")
  case True
  have "isolated {} (get_type st w) (get_type st w) 0 0"
    using wf by (simp add: isolated_def)
  with True show thesis
    by (intro that [of "get_type st w" 0 0])
       (simp_all add: memblock_isolate_range_with_def Let_def capped_def)
next
  case False
  let ?e = "base + memblock_cap_size base sz"
  from False have e: "base < ?e" by (rule cap_size_no_wrap)
  obtain ty s en where "isolate_from base ?e (get_type st w) 0 0 0 = Ret (ty, s, en)"
    "isolated {base..<?e} (get_type st w) ty s en"
    using isolate_from_wf [OF wf e room] .
  with False room show thesis
    by (intro that [of ty s en])
       (simp_all add: memblock_isolate_range_with_def Let_def capped_def make_room.simps)
qed

lemma put_put_type [simp]: "put_type (put_type st w ty) w ty' = put_type st w ty'"
  by (cases w) (simp_all add: put_type_def)

lemma remove_range_room:
  assumes "wf_type (get_type st w)"
    and "length (mt_regions (get_type st w)) + 2 \<le> mt_max (get_type st w)"
  obtains ty where "memblock_remove_range_with grow st w base sz = Ret (put_type st w ty, 0)"
    "wf_type ty" "mt_max ty = mt_max (get_type st w)"
    "amap (mt_regions ty) = spec_remove (capped base sz) (amap (mt_regions (get_type st w)))"
proof -
  obtain ty s en where
    iso: "memblock_isolate_range_with grow st w base sz = Ret (put_type st w ty, 0, s, en)"
    "isolated (capped base sz) (get_type st w) ty s en"
    using isolate_range_room [OF assms] .
  from remove_regions_wf [OF iso(2)] show thesis
    by (intro that [of "remove_regions s en ty"])
       (simp_all add: memblock_remove_range_with_def iso(1))
qed

context array_growth
begin

lemma isolate_range_memory:
  assumes wf: "wf_type (mb_memory st)"
    and ret: "memblock_isolate_range_with grow st Memory base sz = Ret (st', r, s, en)"
  shows "same_settings st st' \<and>
    (r = 0 \<and> (\<exists>ty. mt_regions ty = mt_regions (mb_memory st) \<and>
                  isolated (capped base sz) ty (mb_memory st') s en) \<or>
     r = - ENOMEM \<and> same_memory (mb_memory st) (mb_memory st'))"
proof (cases "memblock_cap_size base sz = 0")
  case True
  then have "isolated (capped base sz) (mb_memory st) (mb_memory st) 0 0"
    using wf by (simp add: isolated_def capped_def)
  then show ?thesis
    using True ret by (auto simp: memblock_isolate_range_with_def Let_def same_settings_def)
next
  case False
  let ?e = "base + memblock_cap_size base sz"
  from False have e: "base < ?e" by (rule cap_size_no_wrap)
  obtain st1 b where
    room: "make_room grow room_fuel st Memory 2 base (memblock_cap_size base sz) = Ret (st1, b)" and
    rest: "if b then obind (isolate_from base ?e (mb_memory st1) 0 0 0)
             (\<lambda>(ty, s, en). Ret (put_type st1 Memory ty, 0, s, en)) = Ret (st', r, s, en)
           else st' = st1 \<and> r = - ENOMEM"
    using ret False
    by (auto simp: memblock_isolate_range_with_def Let_def obind_Ret_conv split: if_splits)
  have kept: "same_memory (mb_memory st) (mb_memory st1)" "same_settings st st1"
    and fits: "b \<Longrightarrow> length (mt_regions (mb_memory st1)) + 2 \<le> mt_max (mb_memory st1)"
    using make_room_kept [OF room] by (simp_all add: mem_kept_def)
  have wf1: "wf_type (mb_memory st1)" using kept(1) wf by (rule same_memory_wf)
  show ?thesis
  proof (cases b)
    case True
    then obtain ty s' en' where "isolate_from base ?e (mb_memory st1) 0 0 0 = Ret (ty, s', en')"
      "isolated {base..<?e} (mb_memory st1) ty s' en'"
      using isolate_from_wf [OF wf1 e fits] by blast
    with True rest kept show ?thesis
      by (auto simp: put_type_def same_settings_def same_memory_def capped_def)
  next
    case False
    with rest kept show ?thesis by simp
  qed
qed

lemma remove_range_memory:
  assumes wf: "wf_type (mb_memory st)"
    and ret: "memblock_remove_range_with grow st Memory base sz = Ret (st', r)"
  shows "same_settings st st' \<and> wf_type (mb_memory st') \<and>
    (r = 0 \<and> amap (mt_regions (mb_memory st')) =
        spec_remove (capped base sz) (amap (mt_regions (mb_memory st))) \<or>
     r = - ENOMEM \<and> mt_regions (mb_memory st') = mt_regions (mb_memory st))"
proof -
  obtain st1 r1 s en where
    iso: "memblock_isolate_range_with grow st Memory base sz = Ret (st1, r1, s, en)" and
    rest: "if r1 \<noteq> 0 then st' = st1 \<and> r = r1
           else st' = put_type st1 Memory (remove_regions s en (mb_memory st1)) \<and> r = 0"
    using ret by (auto simp: memblock_remove_range_with_def obind_Ret_conv split: if_splits)
  from isolate_range_memory [OF wf iso] rest same_memory_wf [OF _ wf, of "mb_memory st1"]
  show ?thesis
    by (auto simp: put_type_def same_settings_def same_memory_def remove_regions_wf)
qed

end

text \<open>
  The tail that \<^verbatim>\<open>memblock_setclr_flag\<close> and \<^verbatim>\<open>memblock_set_node\<close> share.
\<close>

lemma mark_memory:
  assumes wf: "wf_type (mb_memory st)" and f: "attr_change f g"
    and ret: "obind (memblock_isolate_range env st Memory base sz) (\<lambda>(st', ret, s, en).
       if ret \<noteq> 0 then Ret (st', ret)
       else obind (memblock_merge_regions (update_regions f s en (get_type st' Memory)))
              (\<lambda>ty. Ret (put_type st' Memory ty, 0))) = Ret (st', r)"
  shows "same_settings st st' \<and> wf_type (mb_memory st') \<and>
    (r = 0 \<and> amap (mt_regions (mb_memory st')) =
        spec_update (capped base sz) g (amap (mt_regions (mb_memory st))) \<or>
     r = - ENOMEM \<and> mt_regions (mb_memory st') = mt_regions (mb_memory st))"
proof -
  obtain st1 r1 s en where
    iso: "memblock_isolate_range_with (memblock_double_array env) st Memory base sz = Ret (st1, r1, s, en)" and
    rest: "if r1 \<noteq> 0 then st' = st1 \<and> r = r1
           else obind (memblock_merge_regions (update_regions f s en (mb_memory st1)))
              (\<lambda>ty. Ret (put_type st1 Memory ty, 0)) = Ret (st', r)"
    using ret by (auto simp: memblock_isolate_range_def obind_Ret_conv split: if_splits)
  note iso' = dbl.isolate_range_memory [OF wf iso]
  show ?thesis
  proof (cases "r1 = 0")
    case True
    with iso' obtain ty where ty: "mt_regions ty = mt_regions (mb_memory st)"
      "isolated (capped base sz) ty (mb_memory st1) s en" and set: "same_settings st st1" by auto
    obtain ty'' where "memblock_merge_regions (update_regions f s en (mb_memory st1)) = Ret ty''"
      "wf_type ty''" "amap (mt_regions ty'') = spec_update (capped base sz) g (amap (mt_regions ty))"
      using update_regions_wf [OF ty(2) f] by metis
    with True rest set ty(1) show ?thesis by (auto simp: put_type_def same_settings_def)
  next
    case False
    with iso' rest same_memory_wf [OF _ wf, of "mb_memory st1"] show ?thesis
      by (auto simp: same_memory_def)
  qed
qed

lemma attr_change_flags:
  "attr_change (memblock_set_region_flags fl) (map_prod (\<lambda>x. x OR fl) id)"
  "attr_change (memblock_clear_region_flags fl) (map_prod (\<lambda>x. x AND NOT fl) id)"
  "attr_change (memblock_set_region_node n) (map_prod id (\<lambda>_. n))"
  by (simp_all add: attr_change_def memblock_set_region_flags_def memblock_clear_region_flags_def
      memblock_set_region_node_def)

end
