(* ===== verification/Memblock_Query.thy ===== *)
theory Memblock_Query
  imports Memblock_Ops
begin

text \<open>
  The queries of \<^verbatim>\<open>mm/memblock.c\<close>: the binary search over a well-formed array decides
  membership, and with it the questions whether an address or a range is memory, mapped
  memory or reserved.
\<close>

section \<open>Binary search\<close>

lemma sorted_from_nth:
  assumes "sorted_from lo rs" and "i < j" and "j < length rs"
  shows "mr_end (rs ! i) \<le> mr_base (rs ! j)"
  using assms
proof (induction rs arbitrary: i j lo)
  case (Cons r rs)
  then obtain j' where j: "j = Suc j'" "j' < length rs" by (cases j) auto
  have rs: "sorted_from (mr_end r) rs" using Cons.prems by simp
  show ?case
  proof (cases i)
    case 0
    then show ?thesis using j sorted_from_base [OF rs, of "rs ! j'"] by simp
  next
    case (Suc i')
    then show ?thesis using j Cons.IH [OF rs, of i' j'] Cons.prems by simp
  qed
qed simp

lemma in_covers_nth:
  "x \<in> covers rs \<longleftrightarrow> (\<exists>i<length rs. mr_base (rs ! i) \<le> x \<and> x < mr_end (rs ! i))"
  by (auto simp: covers_def in_set_conv_nth) (metis nth_mem)

text \<open>The loop invariant: regions before \<open>l\<close> end below the address, those from \<open>r\<close> start above.\<close>

lemma search_from_correct:
  assumes "sorted_from lo rs" and "l < r" and "r \<le> length rs"
    and "\<And>i. i < l \<Longrightarrow> mr_end (rs ! i) \<le> addr"
    and "\<And>i. r \<le> i \<Longrightarrow> i < length rs \<Longrightarrow> addr < mr_base (rs ! i)"
  shows "(search_from rs addr l r = - 1 \<and> addr \<notin> covers rs) \<or>
    (\<exists>i<length rs. search_from rs addr l r = int i \<and> mr_base (rs ! i) \<le> addr \<and> addr < mr_end (rs ! i))"
  using assms
proof (induction rs addr l r rule: search_from.induct)
  case (1 rs addr l r)
  let ?m = "(r + l) div 2"
  have m: "l \<le> ?m" "?m < r" using "1.prems" by auto
  have nonempty: "mr_base (rs ! ?m) < mr_end (rs ! ?m)"
    using sorted_from_nonempty [OF "1.prems"(1), of "rs ! ?m"] m "1.prems"(3) by simp
  have step: "search_from rs addr l r =
     (if addr < mr_base (rs ! ?m) then (if l < ?m then search_from rs addr l ?m else - 1)
      else if addr \<ge> mr_end (rs ! ?m)
      then (if ?m + 1 < r then search_from rs addr (?m + 1) r else - 1)
      else int ?m)"
    by (subst search_from.simps) (simp add: Let_def)
  consider (low) "addr < mr_base (rs ! ?m)" | (high) "\<not> addr < mr_base (rs ! ?m)" "mr_end (rs ! ?m) \<le> addr"
    | (hit) "mr_base (rs ! ?m) \<le> addr" "addr < mr_end (rs ! ?m)" by fastforce
  then show ?case
  proof cases
    case low
    have above: "addr < mr_base (rs ! i)" if "?m \<le> i" "i < length rs" for i
    proof (cases "i = ?m")
      case False
      then have "mr_end (rs ! ?m) \<le> mr_base (rs ! i)"
        using sorted_from_nth [OF "1.prems"(1), of ?m i] that by simp
      with low nonempty show ?thesis by simp
    qed (use low in simp)
    show ?thesis
    proof (cases "l < ?m")
      case True
      then show ?thesis
        using low step "1.IH"(1) [OF refl low True "1.prems"(1) True] "1.prems" above m by simp
    next
      case False
      have "\<not> (mr_base (rs ! i) \<le> addr \<and> addr < mr_end (rs ! i))" if "i < length rs" for i
      proof (cases "i < l")
        case True
        then show ?thesis using "1.prems"(4) [of i] by auto
      next
        case F: False
        then show ?thesis using above [of i] False m that by auto
      qed
      then show ?thesis using low False step by (simp add: in_covers_nth)
    qed
  next
    case high
    have below: "mr_end (rs ! i) \<le> addr" if "i \<le> ?m" for i
    proof (cases "i = ?m")
      case False
      then have "mr_end (rs ! i) \<le> mr_base (rs ! ?m)"
        using sorted_from_nth [OF "1.prems"(1), of i ?m] that m "1.prems"(3) by simp
      with high nonempty show ?thesis by simp
    qed (use high in simp)
    show ?thesis
    proof (cases "?m + 1 < r")
      case True
      then show ?thesis
        using high step "1.IH"(2) [OF refl high(1) high(2) True "1.prems"(1) True] "1.prems" below by simp
    next
      case False
      have "\<not> (mr_base (rs ! i) \<le> addr \<and> addr < mr_end (rs ! i))" if "i < length rs" for i
      proof (cases "i \<le> ?m")
        case True
        then show ?thesis using below [of i] by auto
      next
        case F: False
        then show ?thesis using "1.prems"(5) [of i] False that by auto
      qed
      then show ?thesis using high False step by (simp add: in_covers_nth)
    qed
  next
    case hit
    then have "search_from rs addr l r = int ?m" using step by auto
    then show ?thesis using hit m "1.prems"(3) by auto
  qed
qed

lemma memblock_search_cases:
  assumes "wf_type ty"
  obtains (none) "memblock_search ty addr = - 1" "addr \<notin> covers (mt_regions ty)"
  | (found) i where "memblock_search ty addr = int i" "i < length (mt_regions ty)"
      "mr_base (mt_regions ty ! i) \<le> addr" "addr < mr_end (mt_regions ty ! i)"
      "sorted_from 0 (mt_regions ty)"
proof -
  have "wf_regions (mt_regions ty)" using assms by (simp add: wf_type_def)
  then show thesis
  proof (cases rule: wf_regions_cases)
    case (dummy r)
    then have "memblock_search ty addr = - 1"
      by (simp add: memblock_search_def search_from.simps [of "[r]"])
    then show thesis using dummy none by simp
  next
    case regions
    then have "0 < length (mt_regions ty)" by simp
    from search_from_correct [OF regions(2) this order_refl, of addr] none found regions(2)
    show thesis by (auto simp: memblock_search_def)
  qed
qed

lemma memblock_search_covers:
  assumes "wf_type ty"
  shows "memblock_search ty addr \<noteq> - 1 \<longleftrightarrow> addr \<in> covers (mt_regions ty)"
  using assms
proof (cases rule: memblock_search_cases [where addr = addr])
  case none
  then show ?thesis by simp
next
  case (found i)
  then show ?thesis by (auto simp: in_covers_nth)
qed

lemma amap_nth:
  assumes "sorted_from lo rs" and "i < length rs" and "mr_base (rs ! i) \<le> x" and "x < mr_end (rs ! i)"
  shows "amap rs x = Some (mr_flags (rs ! i), mr_nid (rs ! i))"
  using assms
proof (induction rs arbitrary: i lo)
  case (Cons r rs)
  then have rs: "sorted_from (mr_end r) rs" by simp
  show ?case
  proof (cases i)
    case 0
    then show ?thesis using Cons.prems by simp
  next
    case (Suc j)
    with Cons.prems have j: "j < length rs" "mr_base (rs ! j) \<le> x" "x < mr_end (rs ! j)" by simp_all
    have "\<not> x < mr_end r"
      using sorted_from_base [OF rs, of "rs ! j"] j by auto
    with Cons.IH [OF rs j] Suc show ?thesis by simp
  qed
qed simp

lemma wf_disjoint_wrap: "wf_type ty \<Longrightarrow> r \<in> set (mt_regions ty) \<Longrightarrow> mr_base r \<le> mr_end r"
  by (auto simp: wf_type_def wf_regions_def dest: sorted_from_nonempty)

lemma wf_type_memory: "memblock_wf st \<Longrightarrow> wf_type (mb_memory st)" "memblock_wf st \<Longrightarrow> wf_type (mb_reserved st)"
  by (simp_all add: memblock_wf_def)

lemma intervals_meet:
  fixes a b c d :: u64
  assumes "a < b" and "c < d"
  shows "{a..<b} \<inter> {c..<d} \<noteq> {} \<longleftrightarrow> a < d \<and> c < b"
proof
  assume "a < d \<and> c < b"
  then have "max a c \<in> {a..<b} \<inter> {c..<d}" using assms by (simp add: max_def)
  then show "{a..<b} \<inter> {c..<d} \<noteq> {}" by blast
qed auto

lemma overlaps_region_covers:
  assumes "wf_type ty" and "base < base + sz"
  shows "memblock_overlaps_region ty base sz \<longleftrightarrow> {base..<base + sz} \<inter> covers (mt_regions ty) \<noteq> {}"
proof -
  have "memblock_addrs_overlap base sz (mr_base r) (mr_size r) \<longleftrightarrow>
      {base..<base + sz} \<inter> {mr_base r..<mr_end r} \<noteq> {}" if r: "r \<in> set (mt_regions ty)" for r
  proof (cases "mr_base r < mr_end r")
    case True
    then show ?thesis
      using intervals_meet [OF assms(2) True] by (simp only: memblock_addrs_overlap_def)
  next
    case False
    then have "mr_base r = 0" "mr_size r = 0"
      using assms(1) r sorted_from_nonempty by (auto simp: wf_type_def wf_regions_def)
    then show ?thesis by (simp add: memblock_addrs_overlap_def)
  qed
  then have "memblock_overlaps_region ty base sz \<longleftrightarrow>
      (\<exists>r\<in>set (mt_regions ty). {base..<base + sz} \<inter> {mr_base r..<mr_end r} \<noteq> {})"
    unfolding memblock_overlaps_region_def list_ex_iff by (intro bex_cong) auto
  then show ?thesis unfolding covers_def by blast
qed

end
