(* ===== verification/Memblock_Find.thy ===== *)
theory Memblock_Find
  imports Memblock_Query
begin

text \<open>
  The iterators over free memory and the search for a free area. Both iterators pack two
  C \<^verbatim>\<open>int\<close> indices into the loop variable; the packing is shown invertible, every range an
  iterator delivers is shown to be memory outside every reservation, and the loops are shown
  to end. The search for a free area then returns aligned free memory inside the limits.
\<close>

unbundle bit_operations_syntax

section \<open>Packing two indices into the loop variable\<close>

lemma idx_a_of_pack:
  assumes "- (2 ^ 31) \<le> a" and "a < 2 ^ 31"
  shows "idx_a_of (pack_idx a b) = a"
proof -
  have "ucast (pack_idx a b) = (word_of_int a :: u32)"
    unfolding pack_idx_def by (rule bit_eqI) (simp add: bit_simps)
  then show ?thesis
    using assms by (simp add: idx_a_of_def sint_sbintrunc' signed_take_bit_int_eq_self)
qed

lemma idx_b_of_pack:
  assumes "- (2 ^ 31) \<le> b" and "b < 2 ^ 31"
  shows "idx_b_of (pack_idx a b) = b"
proof -
  have "ucast (drop_bit 32 (pack_idx a b)) = (word_of_int b :: u32)"
    unfolding pack_idx_def by (rule bit_eqI) (auto simp: bit_simps)
  then show ?thesis
    using assms by (simp add: idx_b_of_def sint_sbintrunc' signed_take_bit_int_eq_self)
qed

lemma idx_of_max: "idx_a_of ULLONG_MAX = - 1" "idx_b_of ULLONG_MAX = - 1"
proof -
  have "ucast (ULLONG_MAX :: u64) = (- 1 :: u32)"
    by (rule bit_eqI) (simp add: bit_simps)
  moreover have "ucast (drop_bit 32 (ULLONG_MAX :: u64)) = (- 1 :: u32)"
    by (rule bit_eqI) (simp add: bit_simps)
  ultimately show "idx_a_of ULLONG_MAX = - 1" "idx_b_of ULLONG_MAX = - 1"
    by (simp_all only: idx_a_of_def idx_b_of_def sint_n1)
qed

lemma idx_of_0 [simp]: "idx_a_of 0 = 0" "idx_b_of 0 = 0"
  by (simp_all add: idx_a_of_def idx_b_of_def)

section \<open>Ranges an iterator may deliver\<close>

text \<open>
  The contract between an iterator and the loop around it: from a good loop variable the
  iterator either ends the loop or delivers an acceptable range and a good variable of
  smaller weight.
\<close>

locale range_iterator =
  fixes nxt :: "u64 \<Rightarrow> u64 \<times> (u64 \<times> u64 \<times> int) option"
    and good :: "u64 \<Rightarrow> bool"
    and weight :: "u64 \<Rightarrow> nat"
    and accept :: "u64 \<times> u64 \<times> int \<Rightarrow> bool"
  assumes next_range: "good idx \<Longrightarrow> nxt idx = (idx', Some out) \<Longrightarrow>
      accept out \<and> good idx' \<and> weight idx' < weight idx \<and> idx' \<noteq> ULLONG_MAX"
    and next_end: "good idx \<Longrightarrow> nxt idx = (idx', None) \<Longrightarrow> idx' = ULLONG_MAX"
begin

lemma collect_returns:
  "good idx \<Longrightarrow> weight idx < fuel \<Longrightarrow>
     \<exists>rs. collect_ranges nxt fuel idx = Ret rs \<and> (\<forall>out\<in>set rs. accept out)"
proof (induction fuel arbitrary: idx)
  case (Suc fuel)
  obtain idx' res where nxt: "nxt idx = (idx', res)" by fastforce
  show ?case
  proof (cases res)
    case None
    with nxt next_end [OF Suc.prems(1)] show ?thesis by simp
  next
    case (Some out)
    with nxt next_range [OF Suc.prems(1), of idx' out]
    have "accept out" "good idx'" "weight idx' < fuel" "idx' \<noteq> ULLONG_MAX"
      using Suc.prems(2) by auto
    with Suc.IH [of idx'] nxt Some show ?thesis by auto
  qed
qed simp

end

text \<open>A range is the meet of a memory region that is not skipped and a gap between reservations.\<close>

definition free_piece ::
  "int \<Rightarrow> u64 \<Rightarrow> memblock_region list \<Rightarrow> memblock_region list \<Rightarrow> u64 \<times> u64 \<times> int \<Rightarrow> bool" where
  "free_piece nid flags as rs = (\<lambda>(s, e, n).
     \<exists>m\<in>set as. \<exists>i\<le>length rs. \<not> skip_region nid flags m \<and> n = mr_nid m \<and>
       s = max (mr_base m) (gap_start rs i) \<and> e = min (mr_end m) (gap_end rs i))"

lemma scan_gaps_result:
  assumes "scan_gaps m_start m_end rs b = (found, b')" and "0 \<le> b" and "b \<le> int (length rs) + 1"
  shows "b \<le> b' \<and> b' \<le> int (length rs) + 1 \<and> (found \<longrightarrow> b' \<le> int (length rs))"
  using assms
proof (induction m_start m_end rs b rule: scan_gaps.induct)
  case (1 m_start m_end rs b)
  then show ?case
    by (subst (asm) scan_gaps.simps) (auto split: if_splits)
qed

lemma next_range_from_result:
  assumes "next_range_from nid flags as (Some rs) a b = Some (out, a', b')"
    and "0 \<le> a" and "0 \<le> b" and "b \<le> int (length rs) + 1"
  shows "free_piece nid flags as rs out \<and> a \<le> a' \<and> a' \<le> int (length as) \<and> b \<le> b' \<and>
    b' \<le> int (length rs) + 1 \<and> a + b < a' + b'"
  using assms
proof (induction nid flags as "Some rs" a b rule: next_range_from.induct)
  case (1 nid flags as a b)
  have a: "0 \<le> a \<and> a < int (length as)"
    using "1.prems"(1) by (subst (asm) next_range_from.simps) (simp split: if_splits)
  let ?m = "as ! nat a"
  obtain found b1 where scan: "scan_gaps (mr_base ?m) (mr_end ?m) rs b = (found, b1)" by fastforce
  note b1 = scan_gaps_result [OF scan "1.prems"(3,4)]
  show ?case
  proof (cases "skip_region nid flags ?m")
    case True
    then have "next_range_from nid flags as (Some rs) (a + 1) b = Some (out, a', b')"
      using "1.prems"(1) a by (subst (asm) next_range_from.simps) simp
    from "1.hyps"(1) [OF a refl refl refl True this] "1.prems" show ?thesis by simp
  next
    case skip: False
    show ?thesis
    proof (cases found)
      case True
      then have "out = (max (mr_base ?m) (gap_start rs (nat b1)), min (mr_end ?m) (gap_end rs (nat b1)), mr_nid ?m)"
        "(a', b') = (if mr_end ?m \<le> gap_end rs (nat b1) then (a + 1, b1) else (a, b1 + 1))"
        using "1.prems"(1) a scan skip by (subst (asm) next_range_from.simps, simp add: Let_def)+
      moreover have "free_piece nid flags as rs
          (max (mr_base ?m) (gap_start rs (nat b1)), min (mr_end ?m) (gap_end rs (nat b1)), mr_nid ?m)"
        unfolding free_piece_def prod.case
        by (rule bexI [of _ ?m], rule exI [of _ "nat b1"]) (use skip b1 True a in auto)
      ultimately show ?thesis using b1 a True by (auto split: if_splits)
    next
      case False
      then have "next_range_from nid flags as (Some rs) (a + 1) b1 = Some (out, a', b')"
        using "1.prems"(1) a scan skip by (subst (asm) next_range_from.simps) (simp add: Let_def)
      from "1.hyps"(2) [OF a refl refl refl skip refl scan [symmetric] _ this] b1 "1.prems" False
      show ?thesis by auto
    qed
  qed
qed

lemma scan_gaps_rev_result:
  assumes "scan_gaps_rev m_start m_end rs b = (found, b')" and "- 1 \<le> b"
  shows "b' \<le> b \<and> - 1 \<le> b' \<and> (found \<longrightarrow> 0 \<le> b')"
  using assms
proof (induction m_start m_end rs b rule: scan_gaps_rev.induct)
  case (1 m_start m_end rs b)
  then show ?case
    by (subst (asm) scan_gaps_rev.simps) (auto split: if_splits)
qed

lemma next_range_rev_from_result:
  assumes "next_range_rev_from nid flags as (Some rs) a b = Some (out, a', b')"
    and "a < int (length as)" and "- 1 \<le> b" and "b \<le> int (length rs)"
  shows "free_piece nid flags as rs out \<and> a' \<le> a \<and> - 1 \<le> a' \<and> b' \<le> b \<and> 0 \<le> b' \<and>
    a' + b' < a + b"
  using assms
proof (induction nid flags as "Some rs" a b rule: next_range_rev_from.induct)
  case (1 nid flags as a b)
  have a: "0 \<le> a"
    using "1.prems"(1) by (subst (asm) next_range_rev_from.simps) (simp split: if_splits)
  let ?m = "as ! nat a"
  obtain found b1 where scan: "scan_gaps_rev (mr_base ?m) (mr_end ?m) rs b = (found, b1)" by fastforce
  note b1 = scan_gaps_rev_result [OF scan "1.prems"(3)]
  show ?case
  proof (cases "skip_region nid flags ?m")
    case True
    then have "next_range_rev_from nid flags as (Some rs) (a - 1) b = Some (out, a', b')"
      using "1.prems"(1) a by (subst (asm) next_range_rev_from.simps) simp
    from "1.hyps"(1) [OF a refl refl refl True this] "1.prems" show ?thesis by simp
  next
    case skip: False
    show ?thesis
    proof (cases found)
      case True
      then have "out = (max (mr_base ?m) (gap_start rs (nat b1)), min (mr_end ?m) (gap_end rs (nat b1)), mr_nid ?m)"
        "(a', b') = (if mr_base ?m \<ge> gap_start rs (nat b1) then (a - 1, b1) else (a, b1 - 1))"
        using "1.prems"(1) a scan skip by (subst (asm) next_range_rev_from.simps, simp add: Let_def)+
      moreover have "free_piece nid flags as rs
          (max (mr_base ?m) (gap_start rs (nat b1)), min (mr_end ?m) (gap_end rs (nat b1)), mr_nid ?m)"
        unfolding free_piece_def prod.case
        by (rule bexI [of _ ?m], rule exI [of _ "nat b1"]) (use skip b1 True a "1.prems" in auto)
      moreover have "b1 \<noteq> 0" if "\<not> mr_base ?m \<ge> gap_start rs (nat b1)"
        using that by (auto simp: gap_start_def)
      ultimately show ?thesis using b1 a True by (auto split: if_splits)
    next
      case False
      then have "next_range_rev_from nid flags as (Some rs) (a - 1) b1 = Some (out, a', b')"
        using "1.prems"(1) a scan skip by (subst (asm) next_range_rev_from.simps) (simp add: Let_def)
      from "1.hyps"(2) [OF a refl refl refl skip refl scan [symmetric] _ this] b1 "1.prems" False
      show ?thesis by auto
    qed
  qed
qed

section \<open>Both iterators meet the contract\<close>

definition any_node :: "int \<Rightarrow> int" where
  "any_node nid = (if nid = MAX_NUMNODES then NUMA_NO_NODE else nid)"

definition fits_int :: "memblock_region list \<Rightarrow> memblock_region list \<Rightarrow> bool" where
  "fits_int as rs \<longleftrightarrow> length as < 2 ^ 31 \<and> length rs + 1 < 2 ^ 31"

definition good_up :: "memblock_region list \<Rightarrow> memblock_region list \<Rightarrow> u64 \<Rightarrow> bool" where
  "good_up as rs idx \<longleftrightarrow> fits_int as rs \<and>
     0 \<le> idx_a_of idx \<and> idx_a_of idx \<le> int (length as) \<and>
     0 \<le> idx_b_of idx \<and> idx_b_of idx \<le> int (length rs) + 1"

definition weight_up :: "memblock_region list \<Rightarrow> memblock_region list \<Rightarrow> u64 \<Rightarrow> nat" where
  "weight_up as rs idx = nat (int (length as) - idx_a_of idx) + nat (int (length rs) + 1 - idx_b_of idx)"

definition good_down :: "memblock_region list \<Rightarrow> memblock_region list \<Rightarrow> u64 \<Rightarrow> bool" where
  "good_down as rs idx \<longleftrightarrow> fits_int as rs \<and>
     (idx = ULLONG_MAX \<or>
      - 1 \<le> idx_a_of idx \<and> idx_a_of idx < int (length as) \<and>
      0 \<le> idx_b_of idx \<and> idx_b_of idx \<le> int (length rs))"

definition weight_down :: "memblock_region list \<Rightarrow> memblock_region list \<Rightarrow> u64 \<Rightarrow> nat" where
  "weight_down as rs idx =
     (if idx = ULLONG_MAX then length as + length rs + 1
      else nat (idx_a_of idx + 1) + nat (idx_b_of idx + 1))"

lemma pack_not_max: "0 \<le> b \<Longrightarrow> b < 2 ^ 31 \<Longrightarrow> pack_idx a b \<noteq> ULLONG_MAX"
  using idx_b_of_pack [of b a] idx_of_max(2) by auto

interpretation up: range_iterator
  "\<lambda>i. next_mem_range i nid flags as (Some rs)" "good_up as rs" "weight_up as rs"
  "free_piece (any_node nid) flags as rs" for nid flags as rs
proof unfold_locales
  fix idx idx' out
  assume good: "good_up as rs idx" and nxt: "next_mem_range idx nid flags as (Some rs) = (idx', Some out)"
  from nxt obtain a b where
    from_ab: "next_range_from (any_node nid) flags as (Some rs) (idx_a_of idx) (idx_b_of idx) = Some (out, a, b)"
    and idx': "idx' = pack_idx a b"
    by (auto simp: next_mem_range_def any_node_def Let_def split: option.splits)
  from good next_range_from_result [OF from_ab]
  have ab: "free_piece (any_node nid) flags as rs out" "0 \<le> a" "a \<le> int (length as)" "0 \<le> b"
    "b \<le> int (length rs) + 1" "idx_a_of idx + idx_b_of idx < a + b"
    by (auto simp: good_up_def)
  moreover have "a < 2 ^ 31" "b < 2 ^ 31" using good ab by (auto simp: good_up_def fits_int_def)
  ultimately show "free_piece (any_node nid) flags as rs out \<and> good_up as rs idx' \<and>
      weight_up as rs idx' < weight_up as rs idx \<and> idx' \<noteq> ULLONG_MAX"
    using good idx' pack_not_max [of b a]
    by (auto simp: good_up_def weight_up_def idx_a_of_pack idx_b_of_pack)
qed (auto simp: next_mem_range_def Let_def split: option.splits)

interpretation down: range_iterator
  "\<lambda>i. next_mem_range_rev i nid flags as (Some rs)" "good_down as rs" "weight_down as rs"
  "free_piece (any_node nid) flags as rs" for nid flags as rs
proof unfold_locales
  fix idx idx' out
  let ?a = "if idx = ULLONG_MAX then int (length as) - 1 else idx_a_of idx"
  let ?b = "if idx = ULLONG_MAX then int (length rs) else idx_b_of idx"
  assume good: "good_down as rs idx"
    and nxt: "next_mem_range_rev idx nid flags as (Some rs) = (idx', Some out)"
  from nxt obtain a b where
    from_ab: "next_range_rev_from (any_node nid) flags as (Some rs) ?a ?b = Some (out, a, b)"
    and idx': "idx' = pack_idx a b"
    by (auto simp: next_mem_range_rev_def any_node_def Let_def split: option.splits if_splits)
  from good next_range_rev_from_result [OF from_ab]
  have ab: "free_piece (any_node nid) flags as rs out" "- 1 \<le> a" "a \<le> ?a" "0 \<le> b"
    "b \<le> ?b" "a + b < ?a + ?b"
    by (auto simp: good_down_def)
  moreover have "a < 2 ^ 31" "b < 2 ^ 31"
    using good ab by (auto simp: good_down_def fits_int_def split: if_splits)
  ultimately show "free_piece (any_node nid) flags as rs out \<and> good_down as rs idx' \<and>
      weight_down as rs idx' < weight_down as rs idx \<and> idx' \<noteq> ULLONG_MAX"
    using good idx' pack_not_max [of b a]
    by (auto simp: good_down_def weight_down_def idx_a_of_pack idx_b_of_pack split: if_splits)
qed (auto simp: next_mem_range_rev_def Let_def split: option.splits prod.splits if_splits)

lemma for_each_mem_range_returns:
  assumes "fits_int (mt_regions ta) (mt_regions tb)"
  shows "\<exists>rs. for_each_mem_range ta tb nid flags = Ret rs \<and>
    (\<forall>out\<in>set rs. free_piece (any_node nid) flags (mt_regions ta) (mt_regions tb) out)"
  unfolding for_each_mem_range_def
  by (rule up.collect_returns) (use assms in \<open>simp_all add: good_up_def weight_up_def\<close>)

lemma for_each_mem_range_rev_returns:
  assumes "fits_int (mt_regions ta) (mt_regions tb)"
  shows "\<exists>rs. for_each_mem_range_rev ta tb nid flags = Ret rs \<and>
    (\<forall>out\<in>set rs. free_piece (any_node nid) flags (mt_regions ta) (mt_regions tb) out)"
  unfolding for_each_mem_range_rev_def
  by (rule down.collect_returns) (use assms in \<open>simp_all add: good_down_def weight_down_def\<close>)

section \<open>Free pieces are memory that is not reserved\<close>

lemma gap_not_covered:
  assumes "wf_regions rs" and "i \<le> length rs" and "gap_start rs i \<le> x" and "x < gap_end rs i"
  shows "x \<notin> covers rs"
  using assms(1)
proof (cases rule: wf_regions_cases)
  case (dummy r)
  then show ?thesis by simp
next
  case regions
  have "\<not> (mr_base (rs ! j) \<le> x \<and> x < mr_end (rs ! j))" if "j < length rs" for j
  proof (cases "j < i")
    case True
    have "mr_end (rs ! j) \<le> mr_end (rs ! (i - 1))"
    proof (cases "j = i - 1")
      case False
      with True assms(2) have "mr_end (rs ! j) \<le> mr_base (rs ! (i - 1))"
        by (intro sorted_from_nth [OF regions(2)]) auto
      also have "\<dots> \<le> mr_end (rs ! (i - 1))"
        using sorted_from_nonempty [OF regions(2), of "rs ! (i - 1)"] True assms(2) by simp
      finally show ?thesis .
    qed simp
    with assms(3) True show ?thesis by (auto simp: gap_start_def split: if_splits)
  next
    case False
    have "mr_base (rs ! i) \<le> mr_base (rs ! j)"
    proof (cases "j = i")
      case F: False
      then have "mr_end (rs ! i) \<le> mr_base (rs ! j)"
        using False that by (intro sorted_from_nth [OF regions(2)]) auto
      moreover have "mr_base (rs ! i) < mr_end (rs ! i)"
        using sorted_from_nonempty [OF regions(2), of "rs ! i"] False that by simp
      ultimately show ?thesis by simp
    qed simp
    with assms(4) False that show ?thesis by (auto simp: gap_end_def)
  qed
  then show ?thesis by (auto simp: in_covers_nth)
qed

text \<open>Free memory of the kind asked for: known to be memory, not skipped, not reserved.\<close>

definition free_at :: "memblock \<Rightarrow> int \<Rightarrow> u64 \<Rightarrow> u64 \<Rightarrow> bool" where
  "free_at st nid flags x \<longleftrightarrow> x \<notin> covers (mt_regions (mb_reserved st)) \<and>
     (\<exists>m\<in>set (mt_regions (mb_memory st)). mr_base m \<le> x \<and> x < mr_end m \<and>
        \<not> skip_region (any_node nid) flags m)"

lemma free_piece_free:
  assumes "memblock_wf st" and "free_piece (any_node nid) flags (mt_regions (mb_memory st)) (mt_regions (mb_reserved st)) (s, e, n)"
    and "s \<le> x" and "x < e"
  shows "free_at st nid flags x"
proof -
  from assms(2) obtain m i where m: "m \<in> set (mt_regions (mb_memory st))"
    "i \<le> length (mt_regions (mb_reserved st))" "\<not> skip_region (any_node nid) flags m"
    "s = max (mr_base m) (gap_start (mt_regions (mb_reserved st)) i)"
    "e = min (mr_end m) (gap_end (mt_regions (mb_reserved st)) i)"
    by (auto simp: free_piece_def)
  have "wf_regions (mt_regions (mb_reserved st))" using assms(1) by (simp add: memblock_wf_def wf_type_def)
  from gap_not_covered [OF this m(2)] m assms(3,4) show ?thesis
    by (auto simp: free_at_def)
qed

section \<open>Rounding to a power of two\<close>

lemma round_down_le: "round_down x a \<le> x"
  by (simp add: round_down_def word_and_le2)

lemma round_down_aligned: "round_down x a AND (a - 1) = 0"
  by (simp add: round_down_def and.assoc)

lemma round_up_ge:
  assumes "round_up x a \<noteq> 0"
  shows "x \<le> round_up x a"
proof -
  let ?y = "(x - 1) OR (a - 1)"
  have "x \<noteq> 0" using assms by (auto simp: round_up_def)
  then have "unat (x - 1) = unat x - 1" by (rule unat_minus_one)
  moreover have "unat (1 + ?y) = Suc (unat ?y)"
    using assms by (intro unatSuc) (simp add: round_up_def add.commute)
  moreover have "unat (x - 1) \<le> unat ?y"
    using le_word_or2 [of "x - 1" "a - 1"] by (simp add: word_le_nat_alt)
  ultimately show ?thesis
    by (simp add: round_up_def word_le_nat_alt add.commute [of _ 1])
qed

lemma push_bit_and_mask: "push_bit k (x :: u64) AND mask k = 0"
  by (rule bit_eqI) (auto simp: bit_simps)

lemma round_up_aligned:
  assumes "a = 2 ^ k"
  shows "round_up x a AND (a - 1) = 0"
proof -
  have m: "a - 1 = mask k" using assms by (simp add: mask_eq_exp_minus_1)
  have "(x - 1) OR mask k = push_bit k (drop_bit k (x - 1)) OR mask k"
    by (rule bit_eqI) (auto simp: bit_simps)
  also have "\<dots> = push_bit k (drop_bit k (x - 1)) + mask k"
    by (rule disjunctive_add [symmetric]) (auto simp: bit_simps)
  finally have "round_up x a = push_bit k (drop_bit k (x - 1) + 1)"
    by (simp add: round_up_def m push_bit_add mask_eq_exp_minus_1)
  then show ?thesis
    unfolding m by (simp only: push_bit_and_mask)
qed

section \<open>First fit\<close>

text \<open>A candidate of the given size and alignment that lies in one piece of the list and in the window.\<close>

definition fit ::
  "u64 \<Rightarrow> u64 \<Rightarrow> u64 \<Rightarrow> u64 \<Rightarrow> (u64 \<times> u64 \<times> int) list \<Rightarrow> u64 \<Rightarrow> bool" where
  "fit start e sz align rs cand \<longleftrightarrow>
     cand AND (align - 1) = 0 \<and> start \<le> cand \<and> unat cand + unat sz \<le> unat e \<and>
     (\<exists>(s, t, n)\<in>set rs. s \<le> cand \<and> unat cand + unat sz \<le> unat t)"

lemma unat_clamp: "unat (clamp v lo hi) = min (max (unat v) (unat lo)) (unat hi)"
  by (simp add: clamp_def min_def max_def word_le_nat_alt)

lemma clamped_fit:
  assumes "start \<le> e" and "sz \<noteq> 0" and "cand AND (align - 1) = 0" and "clamp s start e \<le> cand"
    and "unat cand + unat sz \<le> unat (clamp t start e)"
  shows "fit start e sz align ((s, t, n) # rs) cand"
proof -
  have "0 < unat sz" using assms(2) by (simp add: unat_gt_0)
  with assms have "unat start \<le> unat cand \<and> unat s \<le> unat cand \<and> unat cand + unat sz \<le> unat t \<and>
      unat cand + unat sz \<le> unat e"
    unfolding word_le_nat_alt unat_clamp by linarith
  with assms(3) show ?thesis by (simp add: fit_def word_le_nat_alt)
qed

lemma fit_Cons: "fit start e sz align rs cand \<Longrightarrow> fit start e sz align (r # rs) cand"
  by (auto simp: fit_def)

lemma first_fit_bottom_up_fit:
  assumes "align = 2 ^ k" and "start \<le> e" and "sz \<noteq> 0"
  shows "first_fit_bottom_up start e sz align rs = 0 \<or>
    fit start e sz align rs (first_fit_bottom_up start e sz align rs)"
proof (induction rs)
  case (Cons r rs)
  obtain s t n where r: "r = (s, t, n)" by (cases r)
  let ?c = "round_up (clamp s start e) align" and ?te = "clamp t start e"
  show ?case
  proof (cases "?c < ?te \<and> sz \<le> ?te - ?c \<and> ?c \<noteq> 0")
    case True
    then have "unat ?c + unat sz \<le> unat ?te"
      by (auto simp: word_le_nat_alt word_less_nat_alt unat_sub)
    then have "fit start e sz align (r # rs) ?c"
      unfolding r using True round_up_ge [of "clamp s start e" align] round_up_aligned [OF assms(1)]
      by (intro clamped_fit assms(2,3)) auto
    with True show ?thesis by (simp add: r Let_def)
  next
    case False
    with Cons show ?thesis by (auto simp: r Let_def intro: fit_Cons)
  qed
qed simp

lemma first_fit_top_down_fit:
  assumes "start \<le> e" and "sz \<noteq> 0"
  shows "first_fit_top_down start e sz align rs = 0 \<or>
    fit start e sz align rs (first_fit_top_down start e sz align rs)"
proof (induction rs)
  case (Cons r rs)
  obtain s t n where r: "r = (s, t, n)" by (cases r)
  let ?te = "clamp t start e" let ?c = "round_down (?te - sz) align"
  show ?case
  proof (cases "\<not> ?te < sz \<and> clamp s start e \<le> ?c")
    case True
    then have "sz \<le> ?te" by auto
    then have "unat (?te - sz) + unat sz = unat ?te" "unat ?c \<le> unat (?te - sz)"
      using round_down_le [of "?te - sz" align] by (simp_all add: word_le_nat_alt unat_sub)
    then have "fit start e sz align (r # rs) ?c"
      unfolding r using True round_down_aligned by (intro clamped_fit assms) auto
    with True show ?thesis by (simp add: r Let_def)
  next
    case False
    with Cons show ?thesis by (auto simp: r Let_def intro: fit_Cons)
  qed
qed simp

section \<open>The search for a free area\<close>

text \<open>
  What \<^verbatim>\<open>memblock_find_in_range_node\<close> promises of a non-zero result: aligned, inside the
  window, no wrap-around, and every byte is free memory of the kind asked for.
\<close>

definition free_area ::
  "memblock \<Rightarrow> u64 \<Rightarrow> u64 \<Rightarrow> u64 \<Rightarrow> u64 \<Rightarrow> int \<Rightarrow> u64 \<Rightarrow> u64 \<Rightarrow> bool" where
  "free_area st start e sz align nid flags addr \<longleftrightarrow>
     addr AND (align - 1) = 0 \<and> start \<le> addr \<and> unat addr + unat sz \<le> unat e \<and>
     (\<forall>x. addr \<le> x \<longrightarrow> x < addr + sz \<longrightarrow> free_at st nid flags x)"

lemma fit_free_area:
  assumes "memblock_wf st" and "fit start e sz align rs addr"
    and "\<forall>out\<in>set rs. free_piece (any_node nid) flags (mt_regions (mb_memory st)) (mt_regions (mb_reserved st)) out"
  shows "free_area st start e sz align nid flags addr"
proof -
  from assms(2,3) obtain s t n where piece: "s \<le> addr" "unat addr + unat sz \<le> unat t"
    "free_piece (any_node nid) flags (mt_regions (mb_memory st)) (mt_regions (mb_reserved st)) (s, t, n)"
    by (auto simp: fit_def)
  have "unat (addr + sz) \<le> unat t"
    using piece(2) unat_bound [of t] by (subst unat_add_no_wrap) simp_all
  then have "addr + sz \<le> t" by (simp add: word_le_nat_alt)
  with piece(1) have "free_at st nid flags x" if "addr \<le> x" "x < addr + sz" for x
    using that by (intro free_piece_free [OF assms(1) piece(3)]) auto
  with assms(2) show ?thesis by (auto simp: free_area_def fit_def)
qed

lemma free_area_mono:
  "free_area st start e sz align nid flags addr \<Longrightarrow> start' \<le> start \<Longrightarrow>
     free_area st start' e sz align nid flags addr"
  by (auto simp: free_area_def)

lemma find_range_bottom_up_free:
  assumes "memblock_wf st" and "fits_int (mt_regions (mb_memory st)) (mt_regions (mb_reserved st))"
    and "align = 2 ^ k" and "start \<le> e" and "sz \<noteq> 0"
  shows "\<exists>addr. memblock_find_range_bottom_up st start e sz align nid flags = Ret addr \<and>
    (addr = 0 \<or> free_area st start e sz align nid flags addr)"
proof -
  obtain rs where "for_each_mem_range (mb_memory st) (mb_reserved st) nid flags = Ret rs"
    "\<forall>out\<in>set rs. free_piece (any_node nid) flags (mt_regions (mb_memory st)) (mt_regions (mb_reserved st)) out"
    using for_each_mem_range_returns [OF assms(2)] by blast
  with first_fit_bottom_up_fit [OF assms(3-5), of rs] fit_free_area [OF assms(1)] show ?thesis
    by (auto simp: memblock_find_range_bottom_up_def)
qed

lemma find_range_top_down_free:
  assumes "memblock_wf st" and "fits_int (mt_regions (mb_memory st)) (mt_regions (mb_reserved st))"
    and "start \<le> e" and "sz \<noteq> 0"
  shows "\<exists>addr. memblock_find_range_top_down st start e sz align nid flags = Ret addr \<and>
    (addr = 0 \<or> free_area st start e sz align nid flags addr)"
proof -
  obtain rs where "for_each_mem_range_rev (mb_memory st) (mb_reserved st) nid flags = Ret rs"
    "\<forall>out\<in>set rs. free_piece (any_node nid) flags (mt_regions (mb_memory st)) (mt_regions (mb_reserved st)) out"
    using for_each_mem_range_rev_returns [OF assms(2)] by blast
  with first_fit_top_down_fit [OF assms(3,4), of align rs] fit_free_area [OF assms(1)] show ?thesis
    by (auto simp: memblock_find_range_top_down_def)
qed

text \<open>The window \<^verbatim>\<open>memblock_find_in_range_node\<close> searches.\<close>

definition window_start :: "u64 \<Rightarrow> u64" where
  "window_start start = max start PAGE_SIZE"

definition window_end :: "memblock \<Rightarrow> u64 \<Rightarrow> u64 \<Rightarrow> u64" where
  "window_end st start e =
     max (window_start start) (if e = MEMBLOCK_ALLOC_ACCESSIBLE then mb_current_limit st else e)"

lemma find_in_range_node_free:
  assumes "memblock_wf st" and "fits_int (mt_regions (mb_memory st)) (mt_regions (mb_reserved st))"
    and "align = 2 ^ k" and "sz \<noteq> 0"
  shows "\<exists>addr. memblock_find_in_range_node env st sz align start e nid flags = Ret addr \<and>
    (addr = 0 \<or>
     free_area st (window_start start) (window_end st start e) sz align nid flags addr)"
proof -
  let ?s = "window_start start" and ?e = "window_end st start e"
  have se: "?s \<le> ?e" by (simp add: window_end_def)
  obtain td where td: "memblock_find_range_top_down st ?s ?e sz align nid flags = Ret td"
    "td = 0 \<or> free_area st ?s ?e sz align nid flags td"
    using find_range_top_down_free [OF assms(1,2) se assms(4)] by blast
  show ?thesis
  proof (cases "mb_bottom_up st \<and> ?e > env_kernel_end env")
    case True
    then have "max ?s (env_kernel_end env) \<le> ?e" using se by auto
    then obtain bu where bu: "memblock_find_range_bottom_up st (max ?s (env_kernel_end env)) ?e sz align nid flags = Ret bu"
      "bu = 0 \<or> free_area st (max ?s (env_kernel_end env)) ?e sz align nid flags bu"
      using find_range_bottom_up_free [OF assms(1,2,3) _ assms(4)] by blast
    with True td show ?thesis
      by (auto simp: memblock_find_in_range_node_def Let_def window_start_def window_end_def max.commute
          intro: free_area_mono split: if_splits)
  next
    case False
    with td show ?thesis
      by (auto simp: memblock_find_in_range_node_def Let_def window_start_def window_end_def max.commute)
  qed
qed

end
