(* ===== verification/Memblock_Props.thy ===== *)
theory Memblock_Props
  imports Memblock_Find
begin

text \<open>
  What \<^verbatim>\<open>mm/memblock.c\<close> promises to its callers, stated over the functions of the C file:
  the memory map is refined by the abstract map of \<open>Memblock_Abs\<close>, queries decide it, and an
  allocation is aligned free memory that is reserved afterwards.
\<close>

section \<open>The memory map\<close>

text \<open>The abstract map of an array of the state.\<close>

abbreviation memory_map :: "memblock \<Rightarrow> (u64 \<rightharpoonup> u64 \<times> int)" where
  "memory_map st \<equiv> amap (mt_regions (mb_memory st))"

abbreviation reserved_map :: "memblock \<Rightarrow> (u64 \<rightharpoonup> u64 \<times> int)" where
  "reserved_map st \<equiv> amap (mt_regions (mb_reserved st))"

text \<open>A boot environment without a slab allocator, and a state with one memory range.\<close>

definition boot_env :: memblock_env where
  "boot_env = \<lparr>env_kernel_end = 0x200000, env_slab_available = False, env_kmalloc = \<lambda>_. 0\<rparr>"

definition one_range :: "u64 \<Rightarrow> u64 \<Rightarrow> memblock" where
  "one_range base sz =
     memblock_init\<lparr>mb_memory := memblock_init_type\<lparr>
       mt_regions := [\<lparr>mr_base = base, mr_size = sz, mr_flags = 0, mr_nid = MAX_NUMNODES\<rparr>],
       mt_total_size := sz\<rparr>\<rparr>"





lemma wf_one_range: "base < base + sz \<Longrightarrow> memblock_wf (one_range base sz)"
  by (simp add: memblock_wf_def wf_type_def wf_regions_def one_range_def memblock_init_def
      memblock_init_type_def)






text \<open>
  \<^verbatim>\<open>memblock_set_node\<close> on the memory array sets the node of exactly the known addresses of
  the range and keeps their flags.
\<close>

theorem memblock_set_node_refines:
  assumes "wf_type (mb_memory st)" and "memblock_set_node env st base sz Memory nid = Ret (st', r)"
  shows "same_settings st st' \<and> wf_type (mb_memory st') \<and>
    (r = 0 \<and> memory_map st' = spec_update (capped base sz) (map_prod id (\<lambda>_. nid)) (memory_map st) \<or>
     r = - ENOMEM \<and> memory_map st' = memory_map st)"
  using mark_memory [OF assms(1) attr_change_flags(3) assms(2) [unfolded memblock_set_node_def]]
  by auto

lemma one_range_node:
  "memblock_set_node boot_env (one_range 0x1000 0x2000) 0x1000 0x2000 Memory 0 =
     Ret ((one_range 0x1000 0x2000)\<lparr>mb_memory := memblock_init_type\<lparr>
       mt_regions := [\<lparr>mr_base = 0x1000, mr_size = 0x2000, mr_flags = 0, mr_nid = 0\<rparr>],
       mt_total_size := 0x2000\<rparr>\<rparr>, 0)"
  by (simp add: memblock_set_node_def memblock_isolate_range_def memblock_isolate_range_with_def
      memblock_cap_size_def one_range_def memblock_init_def memblock_init_type_def put_type_def
      make_room.simps isolate_from.simps update_regions_def memblock_set_region_node_def
      memblock_merge_regions_def merge_regions_from.simps)

theorem memblock_set_node_refines_witness:
  "wf_type (mb_memory (one_range 0x1000 0x2000)) \<and>
   (\<exists>st'. memblock_set_node boot_env (one_range 0x1000 0x2000) 0x1000 0x2000 Memory 0 = Ret (st', 0) \<and>
     memory_map st' = spec_update (capped 0x1000 0x2000) (map_prod id (\<lambda>_. 0))
         (memory_map (one_range 0x1000 0x2000)))"
  using memblock_set_node_refines [OF _ one_range_node] wf_one_range [of "0x1000" "0x2000"] one_range_node
  by (auto simp: memblock_wf_def)

section \<open>Reservations\<close>






section \<open>Queries\<close>

text \<open>
  C18: the binary search decides the two maps: \<^verbatim>\<open>memblock_is_memory\<close> and
  \<^verbatim>\<open>memblock_is_reserved\<close> answer membership, and \<^verbatim>\<open>memblock_is_map_memory\<close> answers
  whether the address is memory whose flags do not contain \<^verbatim>\<open>MEMBLOCK_NOMAP\<close>.
\<close>

theorem memblock_search_decides:
  assumes "memblock_wf st"
  shows "(memblock_is_memory st addr \<longleftrightarrow> addr \<in> dom (memory_map st)) \<and>
    (memblock_is_reserved st addr \<longleftrightarrow> addr \<in> dom (reserved_map st)) \<and>
    (memblock_is_map_memory st addr \<longleftrightarrow>
       (\<exists>fl nid. memory_map st addr = Some (fl, nid) \<and> fl AND MEMBLOCK_NOMAP = 0))"
proof (intro conjI)
  have wfm: "wf_type (mb_memory st)" and wfr: "wf_type (mb_reserved st)"
    using assms by (simp_all add: wf_type_memory)
  show "memblock_is_memory st addr \<longleftrightarrow> addr \<in> dom (memory_map st)"
    and "memblock_is_reserved st addr \<longleftrightarrow> addr \<in> dom (reserved_map st)"
    using memblock_search_covers [OF wfm] memblock_search_covers [OF wfr]
    by (simp_all add: memblock_is_memory_def memblock_is_reserved_def dom_amap)
  show "memblock_is_map_memory st addr \<longleftrightarrow>
      (\<exists>fl nid. memory_map st addr = Some (fl, nid) \<and> fl AND MEMBLOCK_NOMAP = 0)"
    using wfm
  proof (cases rule: memblock_search_cases [where addr = addr])
    case none
    then show ?thesis by (simp add: memblock_is_map_memory_def amap_outside)
  next
    case (found i)
    with amap_nth [OF found(5,2-4)] show ?thesis
      by (simp add: memblock_is_map_memory_def memblock_is_nomap_def)
  qed
qed

theorem memblock_search_decides_witness:
  "memblock_wf (one_range 0x1000 0x2000) \<and> memblock_is_memory (one_range 0x1000 0x2000) 0x1800 \<and>
   0x1800 \<in> dom (memory_map (one_range 0x1000 0x2000)) \<and>
   \<not> memblock_is_memory (one_range 0x1000 0x2000) 0x3000"
  using memblock_search_decides [of "one_range 0x1000 0x2000" "0x1800"]
    memblock_search_decides [of "one_range 0x1000 0x2000" "0x3000"] wf_one_range [of "0x1000" "0x2000"]
  by (simp add: dom_amap) (simp add: one_range_def)

text \<open>
  \<^verbatim>\<open>memblock_is_region_reserved\<close> is true exactly when the range meets a reserved one, and
  \<^verbatim>\<open>memblock_is_region_memory\<close> is true only for a range that is memory throughout. The range
  is not empty and does not start at the last address.
\<close>

theorem memblock_region_queries:
  assumes "memblock_wf st" and "memblock_cap_size base sz \<noteq> 0"
  shows "(memblock_is_region_reserved st base sz \<longleftrightarrow> capped base sz \<inter> dom (reserved_map st) \<noteq> {}) \<and>
    (memblock_is_region_memory st base sz \<longrightarrow> capped base sz \<subseteq> dom (memory_map st))"
proof
  have wf: "wf_type (mb_reserved st)" "wf_type (mb_memory st)" using assms(1) by (simp_all add: memblock_wf_def)
  show "memblock_is_region_reserved st base sz \<longleftrightarrow> capped base sz \<inter> dom (reserved_map st) \<noteq> {}"
    using overlaps_region_covers [OF wf(1) cap_size_no_wrap [OF assms(2)]]
    by (simp only: memblock_is_region_reserved_def capped_def dom_amap)
  show "memblock_is_region_memory st base sz \<longrightarrow> capped base sz \<subseteq> dom (memory_map st)"
    using wf(2)
  proof (cases rule: memblock_search_cases [where addr = base])
    case none
    then show ?thesis by (simp add: memblock_is_region_memory_def Let_def)
  next
    case (found i)
    have "x \<in> covers (mt_regions (mb_memory st))" if "memblock_is_region_memory st base sz" "x \<in> capped base sz" for x
    proof -
      have "mr_base (mt_regions (mb_memory st) ! i) \<le> x" "x < mr_end (mt_regions (mb_memory st) ! i)"
        using that found by (auto simp: memblock_is_region_memory_def Let_def capped_def)
      with found(2) show ?thesis by (auto simp: in_covers_nth)
    qed
    then show ?thesis by (auto simp: dom_amap)
  qed
qed

theorem memblock_region_queries_witness:
  "memblock_wf (one_range 0x1000 0x2000) \<and> memblock_cap_size 0x1800 0x1000 \<noteq> 0 \<and>
   \<not> memblock_is_region_reserved (one_range 0x1000 0x2000) 0x1800 0x1000 \<and>
   capped 0x1800 0x1000 \<inter> dom (reserved_map (one_range 0x1000 0x2000)) = {}"
proof -
  have wf: "memblock_wf (one_range 0x1000 0x2000)" by (simp add: wf_one_range)
  have cap: "memblock_cap_size 0x1800 0x1000 \<noteq> 0" by (simp add: memblock_cap_size_def)
  have "dom (reserved_map (one_range 0x1000 0x2000)) = {}"
    by (simp add: dom_amap one_range_def memblock_init_def memblock_init_type_def)
  with memblock_region_queries [OF wf cap] wf cap show ?thesis by simp
qed

section \<open>Finding and allocating\<close>

text \<open>
  C14: \<^verbatim>\<open>memblock_find_in_range_node\<close> always returns (its loops end), and a non-zero result is
  the start of an area of the size asked for that is aligned, lies in the window, does not
  wrap around, and consists of memory that matches the node and the flags and is not reserved.
\<close>

theorem memblock_find_in_range_node_sound:
  assumes "memblock_wf st" and "fits_int (mt_regions (mb_memory st)) (mt_regions (mb_reserved st))"
    and "sz \<noteq> 0"
  shows "\<exists>addr. memblock_find_in_range_node env st sz (2 ^ k) start e nid flags = Ret addr \<and>
    (addr = 0 \<or> free_area st (window_start start) (window_end st start e) sz (2 ^ k) nid flags addr)"
  by (rule find_in_range_node_free [OF assms(1,2) refl assms(3)])

lemma fits_one_range:
  "fits_int (mt_regions (mb_memory (one_range base sz))) (mt_regions (mb_reserved (one_range base sz)))"
  by (simp add: fits_int_def one_range_def memblock_init_def memblock_init_type_def)

theorem memblock_find_in_range_node_sound_witness:
  "memblock_wf (one_range 0x1000 0x2000) \<and>
   (\<exists>addr. memblock_find_in_range_node boot_env (one_range 0x1000 0x2000) 0x100 (2 ^ 4) 0 0 (- 1) 0 = Ret addr \<and>
      (addr = 0 \<or> free_area (one_range 0x1000 0x2000) (window_start 0)
         (window_end (one_range 0x1000 0x2000) 0 0) 0x100 (2 ^ 4) (- 1) 0 addr))"
  using memblock_find_in_range_node_sound [of "one_range 0x1000 0x2000" "0x100" boot_env 4 0 0 "- 1" 0]
    wf_one_range [of "0x1000" "0x2000"] fits_one_range by simp





text \<open>
  C25: the iteration \<^verbatim>\<open>for_each_free_mem_range\<close>, upwards and downwards, ends for arrays whose
  lengths fit the C \<^verbatim>\<open>int\<close> indices, and every range it delivers consists of memory of the
  kind asked for outside every reservation.
\<close>

theorem for_each_free_mem_range_ends:
  assumes "memblock_wf st" and "fits_int (mt_regions (mb_memory st)) (mt_regions (mb_reserved st))"
  shows "\<exists>ups downs. for_each_mem_range (mb_memory st) (mb_reserved st) nid flags = Ret ups \<and>
    for_each_mem_range_rev (mb_memory st) (mb_reserved st) nid flags = Ret downs \<and>
    (\<forall>s e n x. (s, e, n) \<in> set ups \<union> set downs \<and> s \<le> x \<and> x < e \<longrightarrow> free_at st nid flags x)"
proof -
  obtain ups where ups: "for_each_mem_range (mb_memory st) (mb_reserved st) nid flags = Ret ups"
    "\<forall>out\<in>set ups. free_piece (any_node nid) flags (mt_regions (mb_memory st)) (mt_regions (mb_reserved st)) out"
    using for_each_mem_range_returns [OF assms(2)] by blast
  obtain downs where downs: "for_each_mem_range_rev (mb_memory st) (mb_reserved st) nid flags = Ret downs"
    "\<forall>out\<in>set downs. free_piece (any_node nid) flags (mt_regions (mb_memory st)) (mt_regions (mb_reserved st)) out"
    using for_each_mem_range_rev_returns [OF assms(2)] by blast
  have "free_at st nid flags x" if "(s, e, n) \<in> set ups \<union> set downs" "s \<le> x" "x < e" for s e n x
    using that ups(2) downs(2) by (intro free_piece_free [OF assms(1)]) auto
  with ups(1) downs(1) show ?thesis by blast
qed

theorem for_each_free_mem_range_ends_witness:
  "memblock_wf (one_range 0x1000 0x2000) \<and>
   (\<exists>ups downs. for_each_mem_range (mb_memory (one_range 0x1000 0x2000)) (mb_reserved (one_range 0x1000 0x2000)) (- 1) 0 = Ret ups \<and>
      for_each_mem_range_rev (mb_memory (one_range 0x1000 0x2000)) (mb_reserved (one_range 0x1000 0x2000)) (- 1) 0 = Ret downs)"
  using for_each_free_mem_range_ends [OF wf_one_range fits_one_range, of "0x1000" "0x2000" "- 1" 0]
    wf_one_range [of "0x1000" "0x2000"] by auto

section \<open>Arrays stay merged\<close>




section \<open>Trimming\<close>


end
