(* ===== verification/Kernel_Sort.thy ===== *)
theory Kernel_Sort
  imports Kernel_Prelude
begin

text \<open>
  The generic sort and search routines \<^verbatim>\<open>lib/sort.c\<close> and \<^verbatim>\<open>lib/bsearch.c\<close>. An array is the
  list of its elements. The C code scales its counters by the element size; the model counts
  elements, which is the same as long as \<^verbatim>\<open>num * size\<close> fits a C \<^verbatim>\<open>int\<close>. All three swap
  functions of the C file exchange two elements.

  The routines work for every comparison function that is a total preorder; that contract is
  a locale, and the callers interpret it on their own comparison functions.
\<close>

section \<open>The routines\<close>

definition swap_elems :: "'a list \<Rightarrow> nat \<Rightarrow> nat \<Rightarrow> 'a list" where
  "swap_elems xs a b = xs[a := xs ! b, b := xs ! a]"

text \<open>
  The inner loop, the same in both phases: \<open>n\<close> is the number of elements in the heap. The
  child to compare with is the second one if there is one and it is larger.
\<close>

definition larger_child :: "('a \<Rightarrow> 'a \<Rightarrow> int) \<Rightarrow> 'a list \<Rightarrow> nat \<Rightarrow> nat \<Rightarrow> nat" where
  "larger_child cmp xs r n =
     (let c = r * 2 + 1 in
      if c < n - 1 \<and> cmp (xs ! c) (xs ! (c + 1)) < 0 then c + 1 else c)"

lemma larger_child_bounds:
  "r * 2 + 1 < n \<Longrightarrow> r < larger_child cmp xs r n \<and> larger_child cmp xs r n < n"
  by (auto simp: larger_child_def Let_def)

lemma larger_child_decr: "r * 2 + 1 < n \<Longrightarrow> n - larger_child cmp xs r n < n - r"
  using larger_child_bounds [of r n cmp xs] by linarith

function sift_down :: "('a \<Rightarrow> 'a \<Rightarrow> int) \<Rightarrow> 'a list \<Rightarrow> nat \<Rightarrow> nat \<Rightarrow> 'a list" where
  "sift_down cmp xs r n =
     (if r * 2 + 1 < n then
        let c = larger_child cmp xs r n in
        if cmp (xs ! r) (xs ! c) \<ge> 0 then xs
        else sift_down cmp (swap_elems xs r c) c n
      else xs)"
  by pat_completeness auto
termination
  by (relation "measure (\<lambda>(cmp, xs, r, n). n - r)") (auto simp: larger_child_decr)

declare sift_down.simps [simp del]

definition heapify :: "('a \<Rightarrow> 'a \<Rightarrow> int) \<Rightarrow> 'a list \<Rightarrow> nat \<Rightarrow> 'a list" where
  "heapify cmp xs num = fold (\<lambda>i xs. sift_down cmp xs i num) (rev [0..<num div 2]) xs"

definition sort_elems :: "('a \<Rightarrow> 'a \<Rightarrow> int) \<Rightarrow> 'a list \<Rightarrow> nat \<Rightarrow> 'a list" where
  "sort_elems cmp xs num =
     fold (\<lambda>i xs. sift_down cmp (swap_elems xs 0 i) 0 i) (rev [1..<num]) (heapify cmp xs num)"

text \<open>\<^verbatim>\<open>bsearch\<close>: the index of the element found from \<open>base\<close> on, None for a null pointer.\<close>

function bsearch_from :: "('a \<Rightarrow> int) \<Rightarrow> 'a list \<Rightarrow> nat \<Rightarrow> nat \<Rightarrow> nat option" where
  "bsearch_from cmp xs base num =
     (if num > 0 then
        let pivot = base + num div 2; result = cmp (xs ! pivot) in
        if result = 0 then Some pivot
        else if result > 0 then bsearch_from cmp xs (pivot + 1) ((num - 1) div 2)
        else bsearch_from cmp xs base (num div 2)
      else None)"
  by pat_completeness auto
termination
  by (relation "measure (\<lambda>(cmp, xs, base, num). num)") auto

declare bsearch_from.simps [simp del]

definition bsearch :: "'k \<Rightarrow> 'a list \<Rightarrow> nat \<Rightarrow> ('k \<Rightarrow> 'a \<Rightarrow> int) \<Rightarrow> nat option" where
  "bsearch key xs num cmp = bsearch_from (cmp key) xs 0 num"

section \<open>Exchanging elements\<close>

lemma length_swap_elems [simp]: "length (swap_elems xs a b) = length xs"
  by (simp add: swap_elems_def)

lemma mset_swap_elems [simp]:
  "a < length xs \<Longrightarrow> b < length xs \<Longrightarrow> mset (swap_elems xs a b) = mset xs"
  by (simp add: swap_elems_def mset_swap)

lemma nth_swap_elems:
  "a < length xs \<Longrightarrow> b < length xs \<Longrightarrow> j < length xs \<Longrightarrow>
     swap_elems xs a b ! j = (if j = a then xs ! b else if j = b then xs ! a else xs ! j)"
  by (auto simp: swap_elems_def nth_list_update)

lemma drop_swap_elems: "a < n \<Longrightarrow> b < n \<Longrightarrow> drop n (swap_elems xs a b) = drop n xs"
  by (simp add: swap_elems_def)

lemma take_swap_elems: "a < n \<Longrightarrow> b < n \<Longrightarrow> take n (swap_elems xs a b) = swap_elems (take n xs) a b"
  by (simp add: swap_elems_def take_update_swap)

lemma sift_down_frame:
  assumes "n \<le> length xs"
  shows "length (sift_down cmp xs r n) = length xs \<and> mset (sift_down cmp xs r n) = mset xs \<and>
    drop n (sift_down cmp xs r n) = drop n xs"
  using assms
proof (induction cmp xs r n rule: sift_down.induct)
  case (1 cmp xs r n)
  let ?c = "larger_child cmp xs r n"
  have step: "sift_down cmp xs r n =
     (if r * 2 + 1 < n then
        if cmp (xs ! r) (xs ! ?c) \<ge> 0 then xs else sift_down cmp (swap_elems xs r ?c) ?c n
      else xs)"
    by (subst sift_down.simps) (simp add: Let_def)
  show ?case
  proof (cases "r * 2 + 1 < n \<and> \<not> cmp (xs ! r) (xs ! ?c) \<ge> 0")
    case True
    then have c: "r < ?c" "?c < n" using larger_child_bounds by blast+
    with "1.IH" [OF conjunct1 [OF True] refl conjunct2 [OF True]] True step "1.prems" show ?thesis
      by (simp add: drop_swap_elems)
  next
    case False
    then show ?thesis using step by auto
  qed
qed

section \<open>Heap sort is correct for every total preorder\<close>

locale comparator =
  fixes cmp :: "'a \<Rightarrow> 'a \<Rightarrow> int"
  assumes cmp_swap: "cmp x y < 0 \<longleftrightarrow> cmp y x > 0"
    and cmp_trans: "cmp x y \<le> 0 \<Longrightarrow> cmp y z \<le> 0 \<Longrightarrow> cmp x z \<le> 0"
begin

lemma cmp_ge_le: "cmp x y \<ge> 0 \<longleftrightarrow> cmp y x \<le> 0"
  using cmp_swap [of x y] by linarith

lemma cmp_refl: "cmp x x = 0"
  using cmp_swap [of x x] by linarith

lemma cmp_total: "cmp x y \<le> 0 \<or> cmp y x \<le> 0"
  using cmp_swap [of y x] by linarith

text \<open>From \<open>k\<close> on every parent is at least its children below \<open>n\<close>; \<open>r\<close> may be too small.\<close>

definition heap_from :: "'a list \<Rightarrow> nat \<Rightarrow> nat \<Rightarrow> bool" where
  "heap_from xs k n \<longleftrightarrow>
     (\<forall>i c. k \<le> i \<and> (c = 2 * i + 1 \<or> c = 2 * i + 2) \<and> c < n \<longrightarrow> cmp (xs ! c) (xs ! i) \<le> 0)"

definition heap_but :: "'a list \<Rightarrow> nat \<Rightarrow> nat \<Rightarrow> nat \<Rightarrow> bool" where
  "heap_but xs k r n \<longleftrightarrow>
     (\<forall>i c. k \<le> i \<and> i \<noteq> r \<and> (c = 2 * i + 1 \<or> c = 2 * i + 2) \<and> c < n \<longrightarrow> cmp (xs ! c) (xs ! i) \<le> 0) \<and>
     (\<forall>p c. k \<le> p \<and> (r = 2 * p + 1 \<or> r = 2 * p + 2) \<and> (c = 2 * r + 1 \<or> c = 2 * r + 2) \<and> c < n \<longrightarrow>
        cmp (xs ! c) (xs ! p) \<le> 0)"

lemma larger_child_max:
  assumes "r * 2 + 1 < n" and "c = 2 * r + 1 \<or> c = 2 * r + 2" and "c < n"
  shows "cmp (xs ! c) (xs ! larger_child cmp xs r n) \<le> 0"
proof -
  let ?a = "r * 2 + 1" and ?b = "r * 2 + 1 + 1"
  have "cmp (xs ! ?a) (xs ! ?b) < 0 \<Longrightarrow> cmp (xs ! ?b) (xs ! ?b) \<le> 0"
    "\<not> cmp (xs ! ?a) (xs ! ?b) < 0 \<Longrightarrow> cmp (xs ! ?b) (xs ! ?a) \<le> 0" "cmp (xs ! ?a) (xs ! ?a) \<le> 0"
    using cmp_refl cmp_ge_le [of "xs ! ?a" "xs ! ?b"] by auto
  moreover have "c = ?a \<or> c = ?b" using assms(2) by auto
  ultimately show ?thesis using assms(1,3) by (auto simp: larger_child_def Let_def)
qed

lemma larger_child_is: "larger_child cmp xs r n = 2 * r + 1 \<or> larger_child cmp xs r n = 2 * r + 2"
  by (auto simp: larger_child_def Let_def)

lemma heap_but_swap:
  assumes "heap_but xs k r n" and "n \<le> length xs" and "r * 2 + 1 < n" and "k \<le> r"
    and "\<not> cmp (xs ! r) (xs ! larger_child cmp xs r n) \<ge> 0"
  shows "heap_but (swap_elems xs r (larger_child cmp xs r n)) k (larger_child cmp xs r n) n"
proof -
  let ?m = "larger_child cmp xs r n"
  let ?ys = "swap_elems xs r ?m"
  have m: "r < ?m" "?m < n" using larger_child_bounds [OF assms(3)] by auto
  have ys: "?ys ! j = (if j = r then xs ! ?m else if j = ?m then xs ! r else xs ! j)" if "j < n" for j
    using that m assms(2) by (intro nth_swap_elems) auto
  have small: "cmp (xs ! r) (xs ! ?m) \<le> 0" using assms(5) by simp
  have "cmp (?ys ! c) (?ys ! i) \<le> 0"
    if "k \<le> i" "i \<noteq> ?m" "c = 2 * i + 1 \<or> c = 2 * i + 2" "c < n" for i c
  proof -
    have i: "i < n" using that by auto
    show ?thesis
    proof (cases "i = r")
      case True
      then have "cmp (xs ! c) (xs ! ?m) \<le> 0" using larger_child_max [OF assms(3)] that by blast
      with True that i m small show ?thesis by (auto simp: ys)
    next
      case False
      then have "cmp (xs ! c) (xs ! i) \<le> 0" using assms(1) that by (auto simp: heap_but_def)
      moreover have "cmp (xs ! ?m) (xs ! i) \<le> 0" if "c = r"
        using assms(1) \<open>k \<le> i\<close> \<open>c = 2 * i + 1 \<or> c = 2 * i + 2\<close> that m larger_child_is
        unfolding heap_but_def by blast
      moreover have "c \<noteq> ?m" using False that larger_child_is [of xs r n] by auto
      ultimately show ?thesis using False that i by (simp add: ys)
    qed
  qed
  moreover have "cmp (?ys ! c) (?ys ! p) \<le> 0"
    if "k \<le> p" "?m = 2 * p + 1 \<or> ?m = 2 * p + 2" "c = 2 * ?m + 1 \<or> c = 2 * ?m + 2" "c < n" for p c
  proof -
    have "p = r" using that(2) larger_child_is [of xs r n] by auto
    moreover have "c \<noteq> r" "c \<noteq> ?m" using that(3) m by auto
    moreover have "cmp (xs ! c) (xs ! ?m) \<le> 0"
      using assms(1,4) that(3,4) m unfolding heap_but_def by auto
    ultimately show ?thesis using that m by (simp add: ys)
  qed
  ultimately show ?thesis unfolding heap_but_def by blast
qed

lemma sift_down_heap:
  assumes "heap_but xs k r n" and "n \<le> length xs" and "k \<le> r"
  shows "heap_from (sift_down cmp xs r n) k n"
  using assms
proof (induction "n - r" arbitrary: xs r rule: less_induct)
  case less
  let ?m = "larger_child cmp xs r n"
  have step: "sift_down cmp xs r n =
     (if r * 2 + 1 < n then
        if cmp (xs ! r) (xs ! ?m) \<ge> 0 then xs else sift_down cmp (swap_elems xs r ?m) ?m n
      else xs)"
    by (subst sift_down.simps) (simp add: Let_def)
  consider (leaf) "\<not> r * 2 + 1 < n" | (stop) "r * 2 + 1 < n" "cmp (xs ! r) (xs ! ?m) \<ge> 0"
    | (go) "r * 2 + 1 < n" "\<not> cmp (xs ! r) (xs ! ?m) \<ge> 0" by blast
  then show ?case
  proof cases
    case leaf
    then show ?thesis using step less.prems(1) by (auto simp: heap_from_def heap_but_def)
  next
    case stop
    have "cmp (xs ! c) (xs ! r) \<le> 0" if "c = 2 * r + 1 \<or> c = 2 * r + 2" "c < n" for c
      using larger_child_max [OF stop(1) that] stop(2) cmp_ge_le cmp_trans by blast
    then show ?thesis using step stop less.prems(1) by (auto simp: heap_from_def heap_but_def)
  next
    case go
    have "r < ?m" "n - ?m < n - r" using larger_child_bounds [OF go(1)] larger_child_decr [OF go(1)] by auto
    with less.hyps [OF _ heap_but_swap [OF less.prems(1,2) go(1) less.prems(3) go(2)]] less.prems go step
    show ?thesis by auto
  qed
qed

lemma heapify_heap:
  assumes "num \<le> length xs"
  shows "heap_from (heapify cmp xs num) 0 num \<and> length (heapify cmp xs num) = length xs \<and>
    mset (heapify cmp xs num) = mset xs \<and> drop num (heapify cmp xs num) = drop num xs"
proof -
  have "heap_from (fold (\<lambda>i xs. sift_down cmp xs i num) (rev [0..<k]) ys) 0 num \<and>
      length (fold (\<lambda>i xs. sift_down cmp xs i num) (rev [0..<k]) ys) = length ys \<and>
      mset (fold (\<lambda>i xs. sift_down cmp xs i num) (rev [0..<k]) ys) = mset ys \<and>
      drop num (fold (\<lambda>i xs. sift_down cmp xs i num) (rev [0..<k]) ys) = drop num ys"
    if "heap_from ys k num" "num \<le> length ys" for k ys
    using that
  proof (induction k arbitrary: ys)
    case (Suc k)
    have "heap_but ys k k num"
      using Suc.prems(1) by (auto simp: heap_from_def heap_but_def le_Suc_eq not_less_eq_eq)
    then have "heap_from (sift_down cmp ys k num) k num"
      using Suc.prems(2) by (intro sift_down_heap) auto
    with Suc.IH [of "sift_down cmp ys k num"] sift_down_frame [OF Suc.prems(2), of cmp k] Suc.prems(2)
    show ?case by simp
  qed simp
  moreover have "heap_from xs (num div 2) num" by (auto simp: heap_from_def)
  ultimately show ?thesis using assms unfolding heapify_def by blast
qed

lemma heap_root_max:
  assumes "heap_from xs 0 n" and "j < n"
  shows "cmp (xs ! j) (xs ! 0) \<le> 0"
  using assms(2)
proof (induction j rule: less_induct)
  case (less j)
  show ?case
  proof (cases "j = 0")
    case True
    then show ?thesis by (simp add: cmp_refl)
  next
    case False
    let ?p = "(j - 1) div 2"
    have "j = 2 * ?p + 1 \<or> j = 2 * ?p + 2" "?p < j" using False by presburger+
    with assms(1) less.prems have "cmp (xs ! j) (xs ! ?p) \<le> 0" by (auto simp: heap_from_def)
    with less.IH [OF \<open>?p < j\<close>] less.prems \<open>?p < j\<close> show ?thesis by (meson cmp_trans less_trans)
  qed
qed

text \<open>The loop invariant of the second phase: a heap of \<open>m\<close> elements below a sorted tail.\<close>

definition heap_tail :: "'a list \<Rightarrow> nat \<Rightarrow> nat \<Rightarrow> bool" where
  "heap_tail xs m n \<longleftrightarrow> heap_from xs 0 m \<and>
     (\<forall>a b. a < b \<and> m \<le> b \<and> b < n \<longrightarrow> cmp (xs ! a) (xs ! b) \<le> 0)"

lemma heap_tail_step:
  assumes tail: "heap_tail xs (Suc i) n" and i: "0 < i" "i < n" and n: "n \<le> length xs"
  shows "heap_tail (sift_down cmp (swap_elems xs 0 i) 0 i) i n"
proof -
  let ?ys = "swap_elems xs 0 i"
  let ?zs = "sift_down cmp ?ys 0 i"
  have len: "i \<le> length ?ys" using i n by simp
  have ys: "?ys ! j = (if j = 0 then xs ! i else if j = i then xs ! 0 else xs ! j)" if "j < length xs" for j
    using that i n by (intro nth_swap_elems) auto
  have "heap_but ?ys 0 0 i"
    using tail i n by (auto simp: heap_tail_def heap_from_def heap_but_def ys)
  then have heap: "heap_from ?zs 0 i" using len by (intro sift_down_heap) auto
  note frame = sift_down_frame [OF len, of cmp 0]
  have high: "?zs ! b = ?ys ! b" if "i \<le> b" "b < n" for b
  proof -
    have "drop i ?zs ! (b - i) = drop i ?ys ! (b - i)" using frame by (simp only:)
    moreover have "i \<le> length ?zs" using frame len by (simp only:)
    ultimately have "?zs ! (i + (b - i)) = ?ys ! (i + (b - i))" using len by (simp only: nth_drop)
    with that(1) show ?thesis by (simp only: le_add_diff_inverse)
  qed
  have sets: "set (take i ?zs) = set (take i ?ys)"
  proof (rule mset_eq_setD)
    have "mset (take i ?zs) + mset (drop i ?zs) = mset (take i ?ys) + mset (drop i ?ys)"
      using conjunct1 [OF conjunct2 [OF frame]] by (simp only: mset_append [symmetric] append_take_drop_id)
    then show "mset (take i ?zs) = mset (take i ?ys)" using frame by (simp only: add_right_cancel)
  qed
  have low: "\<exists>a'<i. ?zs ! a = ?ys ! a'" if "a < i" for a
  proof -
    have "take i ?zs ! a \<in> set (take i ?zs)" using that len frame by (intro nth_mem) simp
    then have "?zs ! a \<in> set (take i ?ys)" unfolding sets using that by simp
    then show ?thesis by (auto simp: in_set_conv_nth)
  qed
  have "cmp (?zs ! a) (?zs ! b) \<le> 0" if ab: "a < b" "i \<le> b" "b < n" for a b
  proof -
    obtain a' where a': "a' < b" "?zs ! a = ?ys ! a'"
    proof (cases "a < i")
      case True
      then obtain a' where "a' < i" "?zs ! a = ?ys ! a'" using low by blast
      then show thesis using that [of a'] ab by simp
    next
      case False
      then show thesis using high [of a] that [of a] ab by simp
    qed
    have max: "cmp (xs ! j) (xs ! 0) \<le> 0" if "j < Suc i" for j
      using tail that by (auto simp: heap_tail_def intro: heap_root_max)
    have "cmp (?ys ! a') (?ys ! b) \<le> 0"
    proof (cases "b = i")
      case True
      with a'(1) i n max show ?thesis by (auto simp: ys)
    next
      case False
      then have b: "Suc i \<le> b" "?ys ! b = xs ! b" using ab n by (auto simp: ys)
      have "?ys ! a' = xs ! (if a' = 0 then i else if a' = i then 0 else a')"
        using a'(1) ab n by (simp add: ys)
      moreover have "(if a' = 0 then i else if a' = i then 0 else a') < b" using a'(1) i ab False by auto
      ultimately have "\<exists>a''<b. ?ys ! a' = xs ! a''" by blast
      with tail b ab(3) show ?thesis by (auto simp: heap_tail_def)
    qed
    with a'(2) high [of b] ab show ?thesis by simp
  qed
  with heap show ?thesis by (auto simp: heap_tail_def)
qed

lemma sort_phase:
  assumes "heap_tail xs m n" and "m \<le> n" and "n \<le> length xs"
  shows "let ys = fold (\<lambda>i xs. sift_down cmp (swap_elems xs 0 i) 0 i) (rev [1..<m]) xs in
    heap_tail ys (min m 1) n \<and> mset ys = mset xs \<and> drop n ys = drop n xs \<and> length ys = length xs"
  using assms
proof (induction m arbitrary: xs)
  case 0
  then show ?case by simp
next
  case (Suc i)
  show ?case
  proof (cases "i = 0")
    case True
    then show ?thesis using Suc.prems by simp
  next
    case False
    let ?zs = "sift_down cmp (swap_elems xs 0 i) 0 i"
    have "heap_tail ?zs i n" using Suc.prems False by (intro heap_tail_step) auto
    moreover have "mset (swap_elems xs 0 i) = mset xs"
      using Suc.prems by (intro mset_swap_elems) auto
    then have "length ?zs = length xs" "mset ?zs = mset xs"
      using sift_down_frame [of i "swap_elems xs 0 i" cmp 0] Suc.prems by auto
    moreover have "drop n ?zs = drop n xs"
    proof -
      have "drop i ?zs = drop i (swap_elems xs 0 i)"
        using sift_down_frame [of i "swap_elems xs 0 i" cmp 0] Suc.prems by auto
      then have "drop (n - i) (drop i ?zs) = drop (n - i) (drop i (swap_elems xs 0 i))" by simp
      then show ?thesis using Suc.prems by (simp add: drop_swap_elems)
    qed
    moreover have "[1..<Suc i] = [1..<i] @ [i]" using False by simp
    ultimately show ?thesis
      using Suc.IH [of ?zs] Suc.prems False by (simp add: Let_def)
  qed
qed

lemma sort_elems_sorts:
  assumes "num \<le> length xs"
  shows "sorted_wrt (\<lambda>a b. cmp a b \<le> 0) (take num (sort_elems cmp xs num)) \<and>
    mset (take num (sort_elems cmp xs num)) = mset (take num xs) \<and>
    drop num (sort_elems cmp xs num) = drop num xs \<and> length (sort_elems cmp xs num) = length xs"
proof -
  let ?hs = "heapify cmp xs num"
  let ?ys = "sort_elems cmp xs num"
  note heap = heapify_heap [OF assms]
  then have "heap_tail ?hs num num" by (auto simp: heap_tail_def)
  from sort_phase [OF this] heap assms
  have ys: "heap_tail ?ys (min num 1) num" "mset ?ys = mset xs" "drop num ?ys = drop num xs"
    "length ?ys = length xs"
    by (simp_all add: sort_elems_def Let_def)
  have "mset (take num ?ys) = mset (take num xs)"
    using ys by (metis append_take_drop_id add_right_cancel mset_append)
  moreover have "sorted_wrt (\<lambda>a b. cmp a b \<le> 0) (take num ?ys)"
    using ys(1,4) assms by (auto simp: sorted_wrt_iff_nth_less heap_tail_def)
  ultimately show ?thesis using ys by simp
qed

end

section \<open>Binary search\<close>

text \<open>An array in ascending order as the key sees it.\<close>

definition ascending_for :: "('a \<Rightarrow> int) \<Rightarrow> 'a list \<Rightarrow> bool" where
  "ascending_for cmp xs \<longleftrightarrow>
     (\<forall>i j. i < j \<and> j < length xs \<longrightarrow>
        (cmp (xs ! j) > 0 \<longrightarrow> cmp (xs ! i) > 0) \<and> (cmp (xs ! i) < 0 \<longrightarrow> cmp (xs ! j) < 0))"

lemma bsearch_from_correct:
  assumes "ascending_for cmp xs" and "base + num \<le> length xs"
    and "\<And>i. i < base \<Longrightarrow> cmp (xs ! i) > 0"
    and "\<And>i. base + num \<le> i \<Longrightarrow> i < length xs \<Longrightarrow> cmp (xs ! i) < 0"
  shows "case bsearch_from cmp xs base num of
      None \<Rightarrow> \<forall>i<length xs. cmp (xs ! i) \<noteq> 0
    | Some i \<Rightarrow> i < length xs \<and> cmp (xs ! i) = 0"
  using assms
proof (induction cmp xs base num rule: bsearch_from.induct)
  case (1 cmp xs base num)
  let ?p = "base + num div 2"
  have step: "bsearch_from cmp xs base num =
     (if num > 0 then if cmp (xs ! ?p) = 0 then Some ?p
        else if cmp (xs ! ?p) > 0 then bsearch_from cmp xs (?p + 1) ((num - 1) div 2)
        else bsearch_from cmp xs base (num div 2)
      else None)"
    by (subst bsearch_from.simps) (simp add: Let_def)
  consider "num = 0" | "num > 0" "cmp (xs ! ?p) = 0" | "num > 0" "cmp (xs ! ?p) > 0" | "num > 0" "cmp (xs ! ?p) < 0"
    by fastforce
  then show ?case
  proof cases
    case 1
    have "cmp (xs ! i) \<noteq> 0" if "i < length xs" for i
      using "1.prems"(3,4) [of i] that \<open>num = 0\<close> by (cases "i < base") auto
    with step \<open>num = 0\<close> show ?thesis by simp
  next
    case 2
    then show ?thesis using step "1.prems"(2) by simp
  next
    case 3
    have p: "?p < length xs" using 3 "1.prems"(2) by linarith
    have low: "cmp (xs ! i) > 0" if "i < ?p + 1" for i
    proof (cases "i = ?p")
      case False
      then have "i < ?p" using that by simp
      with "1.prems"(1) p 3(2) show ?thesis unfolding ascending_for_def by blast
    qed (use 3 in simp)
    have n: "?p + 1 + (num - 1) div 2 = base + num" using 3(1) by presburger
    have "case bsearch_from cmp xs (?p + 1) ((num - 1) div 2) of
        None \<Rightarrow> \<forall>i<length xs. cmp (xs ! i) \<noteq> 0 | Some i \<Rightarrow> i < length xs \<and> cmp (xs ! i) = 0"
    proof (rule "1.IH"(1) [OF 3(1) refl refl _ 3(2) "1.prems"(1)])
      show "cmp (xs ! ?p) \<noteq> 0" using 3(2) by simp
      show "?p + 1 + (num - 1) div 2 \<le> length xs" using n "1.prems"(2) by simp
      show "0 < cmp (xs ! i)" if "i < ?p + 1" for i using low [OF that] .
      show "cmp (xs ! i) < 0" if "?p + 1 + (num - 1) div 2 \<le> i" "i < length xs" for i
        using that "1.prems"(4) n by simp
    qed
    with 3 step show ?thesis by simp
  next
    case 4
    have p: "?p < length xs" using 4 "1.prems"(2) by linarith
    have high: "cmp (xs ! i) < 0" if "?p \<le> i" "i < length xs" for i
    proof (cases "i = ?p")
      case False
      then have "?p < i" using that by simp
      with "1.prems"(1) that 4(2) show ?thesis unfolding ascending_for_def by blast
    qed (use 4 in simp)
    have "case bsearch_from cmp xs base (num div 2) of
        None \<Rightarrow> \<forall>i<length xs. cmp (xs ! i) \<noteq> 0 | Some i \<Rightarrow> i < length xs \<and> cmp (xs ! i) = 0"
    proof (rule "1.IH"(2) [OF 4(1) refl refl _ _ "1.prems"(1)])
      show "cmp (xs ! ?p) \<noteq> 0" "\<not> 0 < cmp (xs ! ?p)" using 4(2) by simp_all
      show "base + num div 2 \<le> length xs" using p by simp
      show "0 < cmp (xs ! i)" if "i < base" for i using "1.prems"(3) [OF that] .
      show "cmp (xs ! i) < 0" if "base + num div 2 \<le> i" "i < length xs" for i
        using high [OF that] .
    qed
    with 4 step show ?thesis by simp
  qed
qed

text \<open>
  C39: on an array in ascending order for the key, \<^verbatim>\<open>bsearch\<close> finds an element that compares
  equal exactly when there is one.
\<close>

theorem bsearch_correct:
  assumes "ascending_for (cmp key) xs"
  shows "case bsearch key xs (length xs) cmp of
      None \<Rightarrow> \<forall>x\<in>set xs. cmp key x \<noteq> 0
    | Some i \<Rightarrow> i < length xs \<and> cmp key (xs ! i) = 0"
  using bsearch_from_correct [OF assms, of 0 "length xs"]
  by (auto simp: bsearch_def in_set_conv_nth split: option.splits)

theorem bsearch_correct_witness:
  "ascending_for ((\<lambda>k x. k - x) 5) [1, 3, 5, 9 :: int] \<and> bsearch 5 [1, 3, 5, 9 :: int] 4 (\<lambda>k x. k - x) = Some 2"
proof -
  have asc: "ascending_for ((\<lambda>k x. k - x) 5) [1, 3, 5, 9 :: int]"
    by (auto simp: ascending_for_def nth_Cons split: nat.splits)
  have "bsearch 5 [1, 3, 5, 9 :: int] 4 (\<lambda>k x. k - x) = Some 2"
    by (simp add: bsearch_def bsearch_from.simps)
  with bsearch_correct [of "\<lambda>k x. k - x" 5 "[1, 3, 5, 9 :: int]"] asc show ?thesis by simp
qed

end
