(* ===== verification/Kernel_Range.thy ===== *)
theory Kernel_Range
  imports Kernel_Sort
begin

text \<open>
  Arrays of address ranges, \<^verbatim>\<open>kernel/range.c\<close>. A \<^verbatim>\<open>struct range\<close> array of \<^verbatim>\<open>az\<close> slots is a
  list of that length; a slot whose end is 0 is free. Loop counters are natural numbers where
  the C code keeps an \<^verbatim>\<open>int\<close> that does not become negative.
\<close>

section \<open>The operations\<close>

record range =
  r_start :: u64
  r_end :: u64

abbreviation free_slot :: range where
  "free_slot \<equiv> \<lparr>r_start = 0, r_end = 0\<rparr>"

definition add_range :: "range list \<Rightarrow> nat \<Rightarrow> u64 \<Rightarrow> u64 \<Rightarrow> range list \<times> nat" where
  "add_range rs nr_range start end =
     (if start \<ge> end then (rs, nr_range)
      else if nr_range \<ge> length rs then (rs, nr_range)
      else (rs[nr_range := \<lparr>r_start = start, r_end = end\<rparr>], nr_range + 1))"

text \<open>
  The body of the merging loop: the \<^verbatim>\<open>memmove\<close> closes the gap at \<open>i\<close> within the first
  \<open>nr_range\<close> slots and the last of them is cleared.
\<close>

definition drop_slot :: "range list \<Rightarrow> nat \<Rightarrow> nat \<Rightarrow> range list" where
  "drop_slot rs i nr_range =
     take i rs @ drop (i + 1) (take nr_range rs) @ [free_slot] @ drop nr_range rs"

text \<open>\<^verbatim>\<open>i--\<close> followed by the loop's \<^verbatim>\<open>i++\<close> visits the same slot again.\<close>

function merge_from :: "range list \<Rightarrow> nat \<Rightarrow> nat \<Rightarrow> u64 \<Rightarrow> u64 \<Rightarrow> range list \<times> nat \<times> u64 \<times> u64" where
  "merge_from rs i nr_range start end =
     (if i < nr_range then
        let r = rs ! i in
        if r_end r = 0 then merge_from rs (i + 1) nr_range start end
        else if max (r_start r) start > min (r_end r) end
        then merge_from rs (i + 1) nr_range start end
        else merge_from (drop_slot rs i nr_range) i (nr_range - 1)
               (min (r_start r) start) (max (r_end r) end)
      else (rs, nr_range, start, end))"
  by pat_completeness auto
termination
  by (relation "measure (\<lambda>(rs, i, nr_range, start, e). nr_range - i)") auto

declare merge_from.simps [simp del]

definition add_range_with_merge :: "range list \<Rightarrow> nat \<Rightarrow> u64 \<Rightarrow> u64 \<Rightarrow> range list \<times> nat" where
  "add_range_with_merge rs nr_range start end =
     (if start \<ge> end then (rs, nr_range)
      else case merge_from rs 0 nr_range start end of
        (rs', nr', start', end') \<Rightarrow> add_range rs' nr' start' end')"

text \<open>
  One round of \<^verbatim>\<open>subtract_range\<close>. The flag tells that the message about missing slots was
  printed, now or in an earlier round.
\<close>

definition subtract_slot :: "u64 \<Rightarrow> u64 \<Rightarrow> nat \<Rightarrow> range list \<times> bool \<Rightarrow> range list \<times> bool" where
  "subtract_slot start end j st =
     (case st of (rs, err) \<Rightarrow>
      let r = rs ! j in
      if r_end r = 0 then (rs, err)
      else if start \<le> r_start r \<and> end \<ge> r_end r then (rs[j := free_slot], err)
      else if start \<le> r_start r \<and> end < r_end r \<and> r_start r < end
      then (rs[j := r\<lparr>r_start := end\<rparr>], err)
      else if start > r_start r \<and> end \<ge> r_end r \<and> r_end r > start
      then (rs[j := r\<lparr>r_end := start\<rparr>], err)
      else if start > r_start r \<and> end < r_end r then
        (case find_index (\<lambda>x. r_end x = 0) rs of
           Some i \<Rightarrow> (rs[i := \<lparr>r_start = end, r_end = r_end r\<rparr>, j := r\<lparr>r_end := start\<rparr>], err)
         | None \<Rightarrow> (rs[j := r\<lparr>r_end := start\<rparr>], True))
      else (rs, err))"

definition subtract_range :: "range list \<Rightarrow> u64 \<Rightarrow> u64 \<Rightarrow> range list \<times> bool" where
  "subtract_range rs start end =
     (if start \<ge> end then (rs, False)
      else fold (subtract_slot start end) [0..<length rs] (rs, False))"

definition cmp_range :: "range \<Rightarrow> range \<Rightarrow> int" where
  "cmp_range r1 r2 =
     (if r_start r1 < r_start r2 then - 1 else if r_start r1 > r_start r2 then 1 else 0)"

text \<open>
  The first loop of \<^verbatim>\<open>clean_sort_range\<close> fills the free slots from the right end. The inner
  loop looks for the last used slot between \<open>i\<close> and \<open>k\<close>.
\<close>

fun last_used :: "range list \<Rightarrow> nat \<Rightarrow> nat \<Rightarrow> nat" where
  "last_used rs i 0 = i"
| "last_used rs i (Suc d) = (if r_end (rs ! (i + Suc d)) \<noteq> 0 then i + Suc d else last_used rs i d)"

lemma last_used_le: "last_used rs i d \<le> i + d"
  by (induction d) auto

function fill_from :: "range list \<Rightarrow> nat \<Rightarrow> nat \<Rightarrow> range list" where
  "fill_from rs i k =
     (if i < k then
        if r_end (rs ! i) \<noteq> 0 then fill_from rs (i + 1) k
        else
          let j = last_used rs i (k - i) in
          if j = i then rs
          else fill_from (rs[i := rs ! j, j := free_slot]) (i + 1) (j - 1)
      else rs)"
  by pat_completeness auto
termination
proof (relation "measure (\<lambda>(rs, i, k). k - i)", goal_cases)
  case (3 rs i k j)
  then show ?case using last_used_le [of rs i "k - i"] by auto
qed auto

declare fill_from.simps [simp del]

definition clean_sort_range :: "range list \<Rightarrow> range list \<times> nat" where
  "clean_sort_range rs =
     (let rs' = fill_from rs 0 (length rs - 1);
          nr_range = (case find_index (\<lambda>r. r_end r = 0) rs' of None \<Rightarrow> length rs | Some i \<Rightarrow> i) in
      (sort_elems cmp_range rs' nr_range, nr_range))"

definition sort_range :: "range list \<Rightarrow> nat \<Rightarrow> range list" where
  "sort_range rs nr_range = sort_elems cmp_range rs nr_range"

section \<open>The set of addresses\<close>

definition span :: "range \<Rightarrow> u64 set" where
  "span r = (if r_end r = 0 then {} else {r_start r..<r_end r})"

definition spans :: "range list \<Rightarrow> u64 set" where
  "spans rs = (\<Union>r\<in>set rs. span r)"

lemma spans_simps [simp]:
  "spans [] = {}" "spans (r # rs) = span r \<union> spans rs" "spans (xs @ ys) = spans xs \<union> spans ys"
  by (auto simp: spans_def)

lemma span_free [simp]: "span free_slot = {}"
  by (simp add: span_def)

lemma span_interval: "span \<lparr>r_start = a, r_end = b\<rparr> = {a..<b}"
  by (auto simp: span_def)

lemma spans_nth: "i < length rs \<Longrightarrow> spans rs = span (rs ! i) \<union> spans (take i rs @ drop (Suc i) rs)"
  by (subst id_take_nth_drop [of i rs]) auto

lemma spans_update:
  "i < length rs \<Longrightarrow> spans (rs[i := r]) = span r \<union> spans (take i rs @ drop (Suc i) rs)"
  by (simp add: upd_conv_take_nth_drop Un_left_commute)

section \<open>Adding with a merge\<close>

lemma interval_union:
  fixes a b s e :: u64
  assumes "max a s \<le> min b e"
  shows "{a..<b} \<union> {s..<e} = {min a s..<max b e}"
  using assms by (auto simp: min_def max_def split: if_splits)

lemma drop_slot_length: "i < n \<Longrightarrow> n \<le> length rs \<Longrightarrow> length (drop_slot rs i n) = length rs"
  by (simp add: drop_slot_def)

lemma take_drop_slot:
  "i < n \<Longrightarrow> n \<le> length rs \<Longrightarrow>
     take (n - Suc 0) (drop_slot rs i n) = take i rs @ drop (i + 1) (take n rs)"
  by (simp add: drop_slot_def)

lemma spans_drop_slot:
  assumes "i < n" and "n \<le> length rs"
  shows "spans (take n rs) = span (rs ! i) \<union> spans (take (n - Suc 0) (drop_slot rs i n))"
  using assms spans_nth [of i "take n rs"] by (simp add: take_drop_slot min_def)

lemma merge_from_spans:
  assumes "merge_from rs i n start e = (rs', n', start', e')" and "n \<le> length rs" and "start < e"
  shows "spans (take n' rs') \<union> {start'..<e'} = spans (take n rs) \<union> {start..<e} \<and>
    n' \<le> n \<and> length rs' = length rs \<and> start' < e'"
  using assms
proof (induction rs i n start e rule: merge_from.induct)
  case (1 rs i n start e)
  let ?r = "rs ! i"
  have step: "merge_from rs i n start e =
     (if i < n then
        if r_end ?r = 0 \<or> max (r_start ?r) start > min (r_end ?r) e then merge_from rs (i + 1) n start e
        else merge_from (drop_slot rs i n) i (n - 1) (min (r_start ?r) start) (max (r_end ?r) e)
      else (rs, n, start, e))"
    by (subst merge_from.simps) (simp add: Let_def)
  consider "\<not> i < n" | "i < n" "r_end ?r = 0" | "i < n" "r_end ?r \<noteq> 0" "max (r_start ?r) start > min (r_end ?r) e"
    | "i < n" "r_end ?r \<noteq> 0" "\<not> max (r_start ?r) start > min (r_end ?r) e" by blast
  then show ?case
  proof cases
    case 1
    then show ?thesis using step "1.prems" by simp
  next
    case 2
    then show ?thesis using step "1.prems" "1.IH"(1) [OF 2(1) refl 2(2)] by simp
  next
    case 3
    then show ?thesis using step "1.prems" "1.IH"(2) [OF 3(1) refl 3(2,3)] by simp
  next
    case 4
    have "span ?r \<union> {start..<e} = {min (r_start ?r) start..<max (r_end ?r) e}"
      using 4 by (simp add: span_def) (intro interval_union, simp add: not_less)
    moreover have "min (r_start ?r) start < max (r_end ?r) e"
      using "1.prems"(3) by (auto simp: min_def max_def)
    moreover have "merge_from (drop_slot rs i n) i (n - 1) (min (r_start ?r) start) (max (r_end ?r) e) =
        (rs', n', start', e')" using step 4 "1.prems"(1) by simp
    ultimately have "spans (take n' rs') \<union> {start'..<e'} =
        spans (take (n - 1) (drop_slot rs i n)) \<union> (span ?r \<union> {start..<e}) \<and>
        n' \<le> n - 1 \<and> length rs' = length rs \<and> start' < e'"
      using "1.IH"(3) [OF 4(1) refl 4(2,3)] 4(1) "1.prems"(2) by (simp add: drop_slot_length)
    then show ?thesis using spans_drop_slot [OF 4(1) "1.prems"(2)] by (auto simp: Un_ac)
  qed
qed

section \<open>Subtracting\<close>

text \<open>
  The loop invariant: slots already visited do not meet the range, and outside the range
  nothing was added; nothing was lost either unless the message was printed.
\<close>

definition subtracted :: "u64 \<Rightarrow> u64 \<Rightarrow> range list \<Rightarrow> nat \<Rightarrow> range list \<times> bool \<Rightarrow> bool" where
  "subtracted start e rs0 j st \<longleftrightarrow>
     (case st of (rs, err) \<Rightarrow>
        length rs = length rs0 \<and> (\<forall>i<j. span (rs ! i) \<inter> {start..<e} = {}) \<and>
        spans rs - {start..<e} \<subseteq> spans rs0 - {start..<e} \<and>
        (\<not> err \<longrightarrow> spans rs - {start..<e} = spans rs0 - {start..<e}))"

text \<open>Replacing slot \<open>j\<close> by what is left of it there or in another slot.\<close>

lemma subtracted_update:
  assumes inv: "subtracted start e rs0 j (rs, err)" and j: "j < length rs"
    and r: "span r \<inter> {start..<e} = {}" "span r \<subseteq> span (rs ! j)"
    and kept: "\<not> err' \<longrightarrow>
      span (rs ! j) - {start..<e} \<subseteq> span r \<union> spans (take j rs @ drop (Suc j) rs)"
    and err: "err \<longrightarrow> err'"
  shows "subtracted start e rs0 (Suc j) (rs[j := r], err')"
proof -
  define D where "D = {start..<e}"
  have "spans (rs[j := r]) - D \<subseteq> spans rs - D"
    using r(2) spans_nth [OF j] spans_update [OF j, of r] by blast
  moreover have "spans rs - D \<subseteq> spans (rs[j := r]) - D" if "\<not> err'"
    using kept that spans_nth [OF j] spans_update [OF j, of r] unfolding D_def by blast
  moreover have "span (rs[j := r] ! i) \<inter> D = {}" if "i < Suc j" for i
    using inv r(1) that j by (cases "i = j") (auto simp: subtracted_def D_def)
  ultimately show ?thesis
    using inv err unfolding subtracted_def prod.case D_def [symmetric] length_list_update by blast
qed

text \<open>Putting a part of slot \<open>j\<close> that does not meet the range into a free slot.\<close>

lemma subtracted_spare:
  assumes inv: "subtracted start e rs0 j (rs, err)" and i: "i < length rs" "span (rs ! i) = {}"
    and r: "span r \<inter> {start..<e} = {}" "span r \<subseteq> spans rs"
  shows "subtracted start e rs0 j (rs[i := r], err)"
proof -
  have "spans (rs[i := r]) = spans rs"
    using i r(2) spans_nth [OF i(1)] spans_update [OF i(1), of r] by blast
  moreover have "span (rs[i := r] ! k) \<inter> {start..<e} = {}" if "k < j" for k
    using inv r(1) that i by (cases "k = i") (auto simp: subtracted_def)
  ultimately show ?thesis using inv unfolding subtracted_def prod.case length_list_update by blast
qed

lemma span_cases:
  assumes "r_end r \<noteq> 0"
  shows "span r = {r_start r..<r_end r}"
  using assms by (simp add: span_def)

lemma span_changes:
  "span (r\<lparr>r_start := a\<rparr>) = (if r_end r = 0 then {} else {a..<r_end r})"
  "span (r\<lparr>r_end := b\<rparr>) = {r_start r..<b}"
  by (auto simp: span_def)

lemma span_other_slot:
  assumes "k < length xs" and "k \<noteq> j"
  shows "span (xs ! k) \<subseteq> spans (take j xs @ drop (Suc j) xs)"
proof -
  have "xs ! k \<in> set (take j xs) \<union> set (drop (Suc j) xs)"
  proof (cases "k < j")
    case True
    then have "take j xs ! k \<in> set (take j xs)" using assms by (intro nth_mem) simp
    then show ?thesis using True by simp
  next
    case False
    then have "drop (Suc j) xs ! (k - Suc j) \<in> set (drop (Suc j) xs)" using assms by (intro nth_mem) simp
    then show ?thesis using False assms by simp
  qed
  then show ?thesis by (auto simp: spans_def)
qed

lemma subtract_slot_step:
  assumes inv: "subtracted start e rs0 j (rs, err)" and j: "j < length rs" and lt: "start < e"
  shows "subtracted start e rs0 (Suc j) (subtract_slot start e j (rs, err))"
proof -
  let ?r = "rs ! j"
  have same: "subtracted start e rs0 (Suc j) (rs, err)" if "span ?r \<inter> {start..<e} = {}"
    using subtracted_update [OF inv j that order_refl, of err] by auto
  consider (free) "r_end ?r = 0"
    | (all) "r_end ?r \<noteq> 0" "start \<le> r_start ?r \<and> e \<ge> r_end ?r"
    | (low) "r_end ?r \<noteq> 0" "start \<le> r_start ?r \<and> e < r_end ?r \<and> r_start ?r < e"
    | (high) "r_end ?r \<noteq> 0" "start > r_start ?r \<and> e \<ge> r_end ?r \<and> r_end ?r > start"
    | (mid) "r_end ?r \<noteq> 0" "start > r_start ?r \<and> e < r_end ?r"
    | (none) "r_end ?r \<noteq> 0" "\<not> (start \<le> r_start ?r \<and> e \<ge> r_end ?r)"
        "\<not> (start \<le> r_start ?r \<and> e < r_end ?r \<and> r_start ?r < e)"
        "\<not> (start > r_start ?r \<and> e \<ge> r_end ?r \<and> r_end ?r > start)"
        "\<not> (start > r_start ?r \<and> e < r_end ?r)"
    by blast
  then show ?thesis
  proof cases
    case free
    then show ?thesis using same by (simp add: subtract_slot_def span_def)
  next
    case all
    then have "subtracted start e rs0 (Suc j) (rs[j := free_slot], err)"
      by (intro subtracted_update [OF inv j]) (auto simp: span_def)
    with all show ?thesis by (simp add: subtract_slot_def Let_def)
  next
    case low
    then have "subtracted start e rs0 (Suc j) (rs[j := ?r\<lparr>r_start := e\<rparr>], err)"
      by (intro subtracted_update [OF inv j]) (auto simp: span_cases span_changes)
    moreover have "\<not> (start \<le> r_start ?r \<and> e \<ge> r_end ?r)" using low by auto
    ultimately show ?thesis using low by (simp add: subtract_slot_def Let_def)
  next
    case high
    then have "subtracted start e rs0 (Suc j) (rs[j := ?r\<lparr>r_end := start\<rparr>], err)"
      by (intro subtracted_update [OF inv j]) (auto simp: span_cases span_changes)
    moreover have "\<not> start \<le> r_start ?r" using high by auto
    ultimately show ?thesis using high by (simp add: subtract_slot_def Let_def)
  next
    case mid
    have neg: "\<not> start \<le> r_start ?r" "\<not> e \<ge> r_end ?r" using mid by auto
    show ?thesis
    proof (cases "find_index (\<lambda>x. r_end x = 0) rs")
      case None
      have "subtracted start e rs0 (Suc j) (rs[j := ?r\<lparr>r_end := start\<rparr>], True)"
        using mid lt by (intro subtracted_update [OF inv j]) (auto simp: span_cases span_changes)
      with neg mid None show ?thesis by (simp add: subtract_slot_def Let_def)
    next
      case (Some i)
      let ?new = "\<lparr>r_start = e, r_end = r_end ?r\<rparr>"
      from find_index_Some [OF Some] have i: "i < length rs" "span (rs ! i) = {}" "i \<noteq> j"
        using mid by (auto simp: span_def)
      have "span ?new \<subseteq> span ?r" using mid lt by (auto simp: span_interval span_cases)
      moreover have "span ?r \<subseteq> spans rs" using spans_nth [OF j] by blast
      ultimately have one: "subtracted start e rs0 j (rs[i := ?new], err)"
        by (intro subtracted_spare [OF inv i(1,2)]) (auto simp: span_interval)
      have rest: "{e..<r_end ?r} \<subseteq> spans (take j (rs[i := ?new]) @ drop (Suc j) (rs[i := ?new]))"
        using span_other_slot [of i "rs[i := ?new]" j] i by (simp add: span_interval)
      have "subtracted start e rs0 (Suc j) (rs[i := ?new, j := ?r\<lparr>r_end := start\<rparr>], err)"
      proof (rule subtracted_update [OF one])
        show "span (?r\<lparr>r_end := start\<rparr>) \<inter> {start..<e} = {}" by (auto simp: span_changes)
        show "span (?r\<lparr>r_end := start\<rparr>) \<subseteq> span (rs[i := ?new] ! j)"
          using mid i(3) lt by (auto simp: span_changes span_cases)
        have "span ?r - {start..<e} \<subseteq> {r_start ?r..<start} \<union> {e..<r_end ?r}"
          using mid by (auto simp: span_cases)
        with rest i(3) show "\<not> err \<longrightarrow> span (rs[i := ?new] ! j) - {start..<e} \<subseteq>
            span (?r\<lparr>r_end := start\<rparr>) \<union> spans (take j (rs[i := ?new]) @ drop (Suc j) (rs[i := ?new]))"
          unfolding span_changes nth_list_update_neq [OF i(3)] by blast
      qed (use j in simp_all)
      with neg mid Some show ?thesis by (simp add: subtract_slot_def Let_def)
    qed
  next
    case none
    then have "r_end ?r \<le> start \<or> e \<le> r_start ?r" by (meson not_le)
    then have "span ?r \<inter> {start..<e} = {}" by (auto simp: span_def)
    moreover have "subtract_slot start e j (rs, err) = (rs, err)"
      unfolding subtract_slot_def Let_def prod.case using none by (simp only: if_False)
    ultimately show ?thesis using same by simp
  qed
qed

lemma subtract_range_subtracted:
  assumes "start < e"
  shows "subtracted start e rs (length rs) (subtract_range rs start e)"
proof -
  have "subtracted start e rs j (fold (subtract_slot start e) [0..<j] (rs, False))"
    if "j \<le> length rs" for j
    using that
  proof (induction j)
    case 0
    then show ?case by (simp add: subtracted_def)
  next
    case (Suc j)
    obtain rs' err where eq: "fold (subtract_slot start e) [0..<j] (rs, False) = (rs', err)"
      by fastforce
    with Suc have "subtracted start e rs j (rs', err)" "j < length rs'" by (auto simp: subtracted_def)
    from subtract_slot_step [OF this assms] eq show ?case by simp
  qed
  with assms show ?thesis by (simp add: subtract_range_def not_le [symmetric])
qed

section \<open>Compacting and sorting\<close>

interpretation range_order: comparator cmp_range
  by unfold_locales (auto simp: cmp_range_def split: if_splits)

lemma cmp_range_le: "cmp_range a b \<le> 0 \<longleftrightarrow> r_start a \<le> r_start b"
  by (auto simp: cmp_range_def)

abbreviation used :: "range \<Rightarrow> bool" where
  "used r \<equiv> r_end r \<noteq> 0"

lemma last_used_spec:
  "last_used rs i d \<noteq> i \<Longrightarrow> i < last_used rs i d \<and> used (rs ! last_used rs i d)"
  "j \<le> i + d \<Longrightarrow> last_used rs i d < j \<Longrightarrow> \<not> used (rs ! j)"
proof (induction d)
  case 0
  { case 1 then show ?case by simp }
  { case 2 then show ?case by simp }
next
  case (Suc d)
  { case 1 with Suc(1) show ?case by (auto split: if_splits) }
  { case 2 with Suc(2) show ?case by (cases "j = i + Suc d") (auto split: if_splits) }
qed

lemma fill_step_mset:
  assumes "i < length rs" and "j < length rs" and "i \<noteq> j" and "\<not> used (rs ! i)"
  shows "filter_mset used (mset (rs[i := rs ! j, j := free_slot])) = filter_mset used (mset rs)"
proof -
  let ?xs = "swap_elems rs i j"
  have "rs[i := rs ! j, j := free_slot] = ?xs[j := free_slot]"
    by (simp add: swap_elems_def)
  moreover have "?xs ! j = rs ! i" using assms by (simp add: nth_swap_elems)
  moreover have "rs ! i \<in># mset rs" using assms(1) by simp
  ultimately show ?thesis
    using assms by (simp add: mset_update multiset_filter_mono filter_diff_mset)
qed

text \<open>Filling keeps the used slots as a multiset and leaves them in front of the free ones.\<close>

definition packed :: "range list \<Rightarrow> bool" where
  "packed rs \<longleftrightarrow> (\<exists>n\<le>length rs. (\<forall>a<n. used (rs ! a)) \<and>
     (\<forall>b. n \<le> b \<and> b < length rs \<longrightarrow> \<not> used (rs ! b)))"

lemma packedI:
  "n \<le> length rs \<Longrightarrow> (\<And>a. a < n \<Longrightarrow> used (rs ! a)) \<Longrightarrow>
     (\<And>b. n \<le> b \<Longrightarrow> b < length rs \<Longrightarrow> \<not> used (rs ! b)) \<Longrightarrow> packed rs"
  unfolding packed_def by blast

lemma fill_from_spec:
  assumes "\<And>a. a < i \<Longrightarrow> used (rs ! a)" and "\<And>b. k < b \<Longrightarrow> b < length rs \<Longrightarrow> \<not> used (rs ! b)"
    and "k < length rs" and "i \<le> Suc k"
  shows "length (fill_from rs i k) = length rs \<and>
    filter_mset used (mset (fill_from rs i k)) = filter_mset used (mset rs) \<and>
    packed (fill_from rs i k)"
  using assms
proof (induction rs i k rule: fill_from.induct)
  case (1 rs i k)
  let ?j = "last_used rs i (k - i)"
  have step: "fill_from rs i k =
     (if i < k then if used (rs ! i) then fill_from rs (i + 1) k
        else if ?j = i then rs else fill_from (rs[i := rs ! ?j, ?j := free_slot]) (i + 1) (?j - 1)
      else rs)"
    by (subst fill_from.simps) (simp add: Let_def)
  consider (over) "\<not> i < k" | (used) "i < k" "used (rs ! i)"
    | (stop) "i < k" "\<not> used (rs ! i)" "?j = i" | (move) "i < k" "\<not> used (rs ! i)" "?j \<noteq> i" by blast
  then show ?case
  proof cases
    case over
    have "packed rs"
    proof (rule packedI [of "if used (rs ! k) then Suc k else k"])
      show "(if used (rs ! k) then Suc k else k) \<le> length rs" using "1.prems"(3) by simp
    next
      fix a assume "a < (if used (rs ! k) then Suc k else k)"
      then have "a < i \<or> a = k \<and> used (rs ! k)" using over by (auto split: if_splits)
      then show "used (rs ! a)" using "1.prems"(1) by blast
    next
      fix b assume b: "(if used (rs ! k) then Suc k else k) \<le> b" "b < length rs"
      then have "k < b \<or> b = k \<and> \<not> used (rs ! k)" by (auto split: if_splits)
      then show "\<not> used (rs ! b)" using "1.prems"(2) b(2) by blast
    qed
    then show ?thesis using step over by simp
  next
    case used
    have "used (rs ! a)" if "a < i + 1" for a
      using that used(2) "1.prems"(1) [of a] by (cases "a = i") auto
    from "1.IH"(1) [OF used this "1.prems"(2,3)] step used show ?thesis by simp
  next
    case stop
    have "packed rs"
    proof (rule packedI [of i])
      fix b assume b: "i \<le> b" "b < length rs"
      consider "b = i" | "i < b" "b \<le> k" | "k < b" using b(1) by linarith
      then show "\<not> used (rs ! b)"
      proof cases
        case 2
        then show ?thesis using last_used_spec(2) [of b i "k - i" rs] stop by simp
      qed (use stop "1.prems"(2) b in simp_all)
    qed (use stop "1.prems" in simp_all)
    then show ?thesis using step stop by simp
  next
    case move
    let ?rs = "rs[i := rs ! ?j, ?j := free_slot]"
    have j: "i < ?j" "used (rs ! ?j)" "?j \<le> k"
      using last_used_spec(1) [OF move(3)] last_used_le [of rs i "k - i"] move(1) by auto
    have "filter_mset used (mset ?rs) = filter_mset used (mset rs)"
      using j move "1.prems" by (intro fill_step_mset) auto
    moreover have free: "\<not> used (?rs ! b)" if "?j - 1 < b" "b < length ?rs" for b
    proof -
      consider "b = ?j" | "?j < b" "b \<le> k" | "k < b" using \<open>?j - 1 < b\<close> j by linarith
      then show ?thesis
      proof cases
        case 1
        then show ?thesis using that by simp
      next
        case 2
        then show ?thesis using last_used_spec(2) [of b i "k - i" rs] move(1) j by simp
      next
        case 3
        then show ?thesis using "1.prems"(2) [of b] that j by simp
      qed
    qed
    moreover have "used (?rs ! a)" if "a < i + 1" for a
      using that j "1.prems"(1) [of a] "1.prems"(3) by (cases "a = i") simp_all
    moreover have "?j - 1 < length ?rs" "i + 1 \<le> Suc (?j - 1)" using j "1.prems"(3) by simp_all
    ultimately show ?thesis
      using step move "1.IH"(2) [OF move(1) _ refl move(3)] by simp
  qed
qed

section \<open>Properties\<close>

text \<open>
  C29: \<^verbatim>\<open>add_range_with_merge\<close> adds exactly the addresses of the new range to those of the first
  \<^verbatim>\<open>nr_range\<close> slots, whatever it merges, as long as one slot is left.
\<close>

theorem add_range_with_merge_union:
  assumes "nr < length rs" and "start < e"
  shows "case add_range_with_merge rs nr start e of (rs', nr') \<Rightarrow>
    spans (take nr' rs') = spans (take nr rs) \<union> {start..<e} \<and> nr' \<le> Suc nr \<and> length rs' = length rs"
proof -
  obtain rs' n' s' e' where m: "merge_from rs 0 nr start e = (rs', n', s', e')" by (cases "merge_from rs 0 nr start e")
  from merge_from_spans [OF m] assms
  have *: "spans (take n' rs') \<union> {s'..<e'} = spans (take nr rs) \<union> {start..<e}" "n' \<le> nr"
    "length rs' = length rs" "s' < e'" by simp_all
  have "take (Suc n') (rs'[n' := \<lparr>r_start = s', r_end = e'\<rparr>]) = take n' rs' @ [\<lparr>r_start = s', r_end = e'\<rparr>]"
    using * assms(1) by (simp add: take_Suc_conv_app_nth)
  with * assms m show ?thesis
    by (auto simp: add_range_with_merge_def add_range_def span_interval)
qed

theorem add_range_with_merge_union_witness:
  "add_range_with_merge [\<lparr>r_start = 2, r_end = 3\<rparr>, \<lparr>r_start = 5, r_end = 8\<rparr>, free_slot] 2 3 6 =
     ([\<lparr>r_start = 2, r_end = 8\<rparr>, free_slot, free_slot], 1) \<and>
   spans [\<lparr>r_start = 2, r_end = 8\<rparr>] = spans [\<lparr>r_start = 2, r_end = 3\<rparr>, \<lparr>r_start = 5, r_end = 8\<rparr>] \<union> {3..<6}"
proof -
  have "add_range_with_merge [\<lparr>r_start = 2, r_end = 3\<rparr>, \<lparr>r_start = 5, r_end = 8\<rparr>, free_slot] 2 3 6 =
      ([\<lparr>r_start = 2, r_end = 8\<rparr>, free_slot, free_slot], 1)"
    by (simp add: add_range_with_merge_def merge_from.simps drop_slot_def add_range_def)
  with add_range_with_merge_union [of 2 "[\<lparr>r_start = 2, r_end = 3\<rparr>, \<lparr>r_start = 5, r_end = 8\<rparr>, free_slot]" 3 6]
  show ?thesis by simp
qed

text \<open>
  C30: after \<^verbatim>\<open>subtract_range\<close> the array holds no address of the range and nothing it did not
  hold before; unless the message about missing slots was printed it holds everything else
  it held before.
\<close>

theorem subtract_range_difference:
  assumes "start < e"
  shows "case subtract_range rs start e of (rs', err) \<Rightarrow>
    spans rs' \<subseteq> spans rs - {start..<e} \<and> (\<not> err \<longrightarrow> spans rs' = spans rs - {start..<e})"
proof -
  obtain rs' err where eq: "subtract_range rs start e = (rs', err)" by fastforce
  define D where "D = {start..<e}"
  have *: "length rs' = length rs" "\<forall>i<length rs. span (rs' ! i) \<inter> D = {}"
    "spans rs' - D \<subseteq> spans rs - D" "\<not> err \<longrightarrow> spans rs' - D = spans rs - D"
    using subtract_range_subtracted [OF assms, of rs] unfolding eq subtracted_def prod.case D_def by auto
  have "spans rs' \<inter> D = {}"
  proof -
    have "span r \<inter> D = {}" if "r \<in> set rs'" for r
      using that *(1,2) by (metis in_set_conv_nth)
    then show ?thesis unfolding spans_def by blast
  qed
  then have "spans rs' - D = spans rs'" by blast
  with * eq show ?thesis unfolding D_def by auto
qed

theorem subtract_range_difference_witness:
  "subtract_range [\<lparr>r_start = 2, r_end = 9\<rparr>, free_slot] 3 5 =
     ([\<lparr>r_start = 2, r_end = 3\<rparr>, \<lparr>r_start = 5, r_end = 9\<rparr>], False) \<and>
   spans [\<lparr>r_start = 2, r_end = 3\<rparr>, \<lparr>r_start = 5, r_end = 9\<rparr>] =
     spans [\<lparr>r_start = 2, r_end = 9\<rparr>, free_slot] - {3..<5}"
proof -
  have "subtract_range [\<lparr>r_start = 2, r_end = 9\<rparr>, free_slot] 3 5 =
     ([\<lparr>r_start = 2, r_end = 3\<rparr>, \<lparr>r_start = 5, r_end = 9\<rparr>], False)"
    by (simp add: subtract_range_def subtract_slot_def)
  with subtract_range_difference [of 3 5 "[\<lparr>r_start = 2, r_end = 9\<rparr>, free_slot]"] show ?thesis by simp
qed

lemma find_first_free:
  assumes "packed rs"
  shows "case find_index (\<lambda>r. r_end r = 0) rs of
      None \<Rightarrow> \<forall>r\<in>set rs. used r
    | Some i \<Rightarrow> i \<le> length rs \<and> (\<forall>r\<in>set (take i rs). used r) \<and> (\<forall>r\<in>set (drop i rs). \<not> used r)"
proof (cases "find_index (\<lambda>r. r_end r = 0) rs")
  case None
  then show ?thesis using find_index_None [of "\<lambda>r. r_end r = 0" rs] by simp
next
  case (Some i)
  note first = find_index_Some [OF Some]
  obtain n where n: "n \<le> length rs" "\<forall>a<n. used (rs ! a)" "\<forall>b. n \<le> b \<and> b < length rs \<longrightarrow> \<not> used (rs ! b)"
    using assms by (auto simp: packed_def)
  then have "n \<le> i" using first by (meson not_le)
  then have "\<not> used r" if "r \<in> set (drop i rs)" for r
    using that n(3) first by (auto simp: in_set_conv_nth)
  moreover have "used r" if "r \<in> set (take i rs)" for r
    using that first by (auto simp: in_set_conv_nth)
  ultimately show ?thesis using Some first by simp
qed

text \<open>
  C16: \<^verbatim>\<open>clean_sort_range\<close> packs the used slots to the front, sorts them by start and returns
  their number; no used slot is lost or duplicated.
\<close>

theorem clean_sort_range_sorts:
  "case clean_sort_range rs of (rs', nr) \<Rightarrow>
     length rs' = length rs \<and> nr \<le> length rs \<and>
     mset (take nr rs') = filter_mset used (mset rs) \<and>
     sorted_wrt (\<lambda>a b. r_start a \<le> r_start b) (take nr rs') \<and>
     filter used (drop nr rs') = []"
proof (cases "rs = []")
  case True
  then show ?thesis
    by (simp add: clean_sort_range_def fill_from.simps sort_elems_def heapify_def)
next
  case False
  define fs where "fs = fill_from rs 0 (length rs - 1)"
  define nr where "nr = (case find_index (\<lambda>r. r_end r = 0) fs of None \<Rightarrow> length rs | Some i \<Rightarrow> i)"
  have fill: "length fs = length rs" "filter_mset used (mset fs) = filter_mset used (mset rs)" "packed fs"
    using fill_from_spec [of 0 rs "length rs - 1"] False by (simp_all add: fs_def)
  have nr: "nr \<le> length fs" "\<forall>r\<in>set (take nr fs). used r" "\<forall>r\<in>set (drop nr fs). \<not> used r"
    using find_first_free [OF fill(3)] fill(1) unfolding nr_def by (auto split: option.splits)
  have "filter used (take nr fs @ drop nr fs) = take nr fs"
    using nr(2,3) by (simp only: filter_append) (simp add: filter_id_conv filter_empty_conv)
  then have "filter used fs = take nr fs" by (simp only: append_take_drop_id)
  then have "mset (take nr fs) = filter_mset used (mset fs)" using mset_filter [of used fs] by simp
  then have mset: "mset (take nr fs) = filter_mset used (mset rs)" by (simp only: fill(2))
  note sorts = range_order.sort_elems_sorts [OF nr(1)]
  have "sorted_wrt (\<lambda>a b. r_start a \<le> r_start b) (take nr (sort_elems cmp_range fs nr))"
    using conjunct1 [OF sorts] by (simp only: cmp_range_le)
  moreover have "clean_sort_range rs = (sort_elems cmp_range fs nr, nr)"
    by (simp add: clean_sort_range_def Let_def fs_def nr_def)
  ultimately show ?thesis using sorts mset nr(1,3) fill(1) by (simp add: filter_empty_conv)
qed

end
