(* ===== verification/Kernel_String.thy ===== *)
theory Kernel_String
  imports Kernel_Sort "HOL-Library.Monad_Syntax" "HOL-Library.Sublist" "HOL-Library.List_Lexorder"
begin

text \<open>
  The string and memory routines of \<^verbatim>\<open>lib/string.c\<close> and the character classes of
  \<^verbatim>\<open>lib/ctype.c\<close>. A pointer into an object is the list of the bytes from there to the end of
  the object, so that \<^verbatim>\<open>s++\<close> is the tail of the list; a pointer that is returned is an offset
  from the argument. Reading or writing past the end of an object gives \<open>None\<close>: there the C
  code has no defined behaviour. Routines with two arguments take them in different objects,
  except \<^verbatim>\<open>memmove\<close>, which works on one. Lengths are natural numbers, since no object is
  as large as the address space.
\<close>

section \<open>Character classes\<close>

abbreviation (input) mU :: u8 where "mU \<equiv> 0x01"
abbreviation (input) mL :: u8 where "mL \<equiv> 0x02"
abbreviation (input) mD :: u8 where "mD \<equiv> 0x04"
abbreviation (input) mC :: u8 where "mC \<equiv> 0x08"
abbreviation (input) mP :: u8 where "mP \<equiv> 0x10"
abbreviation (input) mS :: u8 where "mS \<equiv> 0x20"
abbreviation (input) mX :: u8 where "mX \<equiv> 0x40"
abbreviation (input) mSP :: u8 where "mSP \<equiv> 0x80"

definition ctype :: "u8 list" where
  "ctype =
     [mC, mC, mC, mC, mC, mC, mC, mC,
      mC, mC OR mS, mC OR mS, mC OR mS, mC OR mS, mC OR mS, mC, mC,
      mC, mC, mC, mC, mC, mC, mC, mC,
      mC, mC, mC, mC, mC, mC, mC, mC,
      mS OR mSP, mP, mP, mP, mP, mP, mP, mP,
      mP, mP, mP, mP, mP, mP, mP, mP,
      mD, mD, mD, mD, mD, mD, mD, mD,
      mD, mD, mP, mP, mP, mP, mP, mP,
      mP, mU OR mX, mU OR mX, mU OR mX, mU OR mX, mU OR mX, mU OR mX, mU,
      mU, mU, mU, mU, mU, mU, mU, mU,
      mU, mU, mU, mU, mU, mU, mU, mU,
      mU, mU, mU, mP, mP, mP, mP, mP,
      mP, mL OR mX, mL OR mX, mL OR mX, mL OR mX, mL OR mX, mL OR mX, mL,
      mL, mL, mL, mL, mL, mL, mL, mL,
      mL, mL, mL, mL, mL, mL, mL, mL,
      mL, mL, mL, mP, mP, mP, mP, mC,
      0, 0, 0, 0, 0, 0, 0, 0, 0, 0, 0, 0, 0, 0, 0, 0,
      0, 0, 0, 0, 0, 0, 0, 0, 0, 0, 0, 0, 0, 0, 0, 0,
      mS OR mSP, mP, mP, mP, mP, mP, mP, mP, mP, mP, mP, mP, mP, mP, mP, mP,
      mP, mP, mP, mP, mP, mP, mP, mP, mP, mP, mP, mP, mP, mP, mP, mP,
      mU, mU, mU, mU, mU, mU, mU, mU, mU, mU, mU, mU, mU, mU, mU, mU,
      mU, mU, mU, mU, mU, mU, mU, mP, mU, mU, mU, mU, mU, mU, mU, mL,
      mL, mL, mL, mL, mL, mL, mL, mL, mL, mL, mL, mL, mL, mL, mL, mL,
      mL, mL, mL, mL, mL, mL, mL, mP, mL, mL, mL, mL, mL, mL, mL, mL]"

definition ismask :: "u8 \<Rightarrow> u8" where
  "ismask x = ctype ! unat x"

definition isspace :: "u8 \<Rightarrow> bool" where "isspace c \<longleftrightarrow> ismask c AND mS \<noteq> 0"
definition isupper :: "u8 \<Rightarrow> bool" where "isupper c \<longleftrightarrow> ismask c AND mU \<noteq> 0"
definition islower :: "u8 \<Rightarrow> bool" where "islower c \<longleftrightarrow> ismask c AND mL \<noteq> 0"
definition isxdigit :: "u8 \<Rightarrow> bool" where "isxdigit c \<longleftrightarrow> ismask c AND (mD OR mX) \<noteq> 0"
definition isalnum :: "u8 \<Rightarrow> bool" where "isalnum c \<longleftrightarrow> ismask c AND (mU OR mL OR mD) \<noteq> 0"

text \<open>\<^verbatim>\<open>isdigit\<close> takes an \<^verbatim>\<open>int\<close>, the value of a signed \<^verbatim>\<open>char\<close>.\<close>

definition isdigit :: "u8 \<Rightarrow> bool" where
  "isdigit c \<longleftrightarrow> 48 \<le> sint c \<and> sint c \<le> 57"

definition tolower :: "u8 \<Rightarrow> u8" where
  "tolower c = (if isupper c then c - (65 - 97) else c)"

definition toupper :: "u8 \<Rightarrow> u8" where
  "toupper c = (if islower c then c - (97 - 65) else c)"

lemma length_ctype: "length ctype = 256"
  by (simp add: ctype_def)

lemma isspace_0 [simp]: "\<not> isspace 0"
  by (simp add: isspace_def ismask_def ctype_def)

section \<open>Length and search\<close>

fun strlen :: "u8 list \<Rightarrow> nat option" where
  "strlen [] = None"
| "strlen (c # s) = (if c = 0 then Some 0 else map_option Suc (strlen s))"

fun strnlen :: "u8 list \<Rightarrow> nat \<Rightarrow> nat option" where
  "strnlen s 0 = Some 0"
| "strnlen [] (Suc n) = None"
| "strnlen (c # s) (Suc n) = (if c = 0 then Some 0 else map_option Suc (strnlen s n))"

text \<open>The inner result is the offset of the character, None for a null pointer.\<close>

fun strchr :: "u8 list \<Rightarrow> u8 \<Rightarrow> nat option option" where
  "strchr [] c = None"
| "strchr (x # s) c =
     (if x = c then Some (Some 0) else if x = 0 then Some None
      else map_option (map_option Suc) (strchr s c))"

fun strchrnul :: "u8 list \<Rightarrow> u8 \<Rightarrow> nat option" where
  "strchrnul [] c = None"
| "strchrnul (x # s) c = (if x \<noteq> 0 \<and> x \<noteq> c then map_option Suc (strchrnul s c) else Some 0)"

fun strrchr_from :: "u8 list \<Rightarrow> u8 \<Rightarrow> nat \<Rightarrow> nat option \<Rightarrow> nat option option" where
  "strrchr_from [] c pos lst = None"
| "strrchr_from (x # s) c pos lst =
     (let lst = (if x = c then Some pos else lst) in
      if x \<noteq> 0 then strrchr_from s c (Suc pos) lst else Some lst)"

definition strrchr :: "u8 list \<Rightarrow> u8 \<Rightarrow> nat option option" where
  "strrchr s c = strrchr_from s c 0 None"

fun strnchr :: "u8 list \<Rightarrow> nat \<Rightarrow> u8 \<Rightarrow> nat option option" where
  "strnchr s 0 c = Some None"
| "strnchr [] (Suc n) c = None"
| "strnchr (x # s) (Suc n) c =
     (if x = 0 then Some None else if x = c then Some (Some 0)
      else map_option (map_option Suc) (strnchr s n c))"

fun skip_spaces :: "u8 list \<Rightarrow> nat option" where
  "skip_spaces [] = None"
| "skip_spaces (x # s) = (if isspace x then map_option Suc (skip_spaces s) else Some 0)"

text \<open>The loop over a set of characters that the next three routines share.\<close>

fun in_cstr :: "u8 \<Rightarrow> u8 list \<Rightarrow> bool option" where
  "in_cstr c [] = None"
| "in_cstr c (a # acc) = (if a = 0 then Some False else if c = a then Some True else in_cstr c acc)"

fun strspn :: "u8 list \<Rightarrow> u8 list \<Rightarrow> nat option" where
  "strspn [] acc = None"
| "strspn (p # s) acc =
     (if p = 0 then Some 0
      else do {
        found \<leftarrow> in_cstr p acc;
        if found then map_option Suc (strspn s acc) else Some 0
      })"

fun strcspn :: "u8 list \<Rightarrow> u8 list \<Rightarrow> nat option" where
  "strcspn [] reject = None"
| "strcspn (p # s) reject =
     (if p = 0 then Some 0
      else do {
        found \<leftarrow> in_cstr p reject;
        if found then Some 0 else map_option Suc (strcspn s reject)
      })"

fun strpbrk :: "u8 list \<Rightarrow> u8 list \<Rightarrow> nat option option" where
  "strpbrk [] ct = None"
| "strpbrk (p # s) ct =
     (if p = 0 then Some None
      else do {
        found \<leftarrow> in_cstr p ct;
        if found then Some (Some 0) else map_option (map_option Suc) (strpbrk s ct)
      })"

section \<open>Comparison\<close>

fun strcmp :: "u8 list \<Rightarrow> u8 list \<Rightarrow> int option" where
  "strcmp (c1 # cs) (c2 # ct) =
     (if c1 \<noteq> c2 then Some (if c1 < c2 then - 1 else 1)
      else if c1 = 0 then Some 0 else strcmp cs ct)"
| "strcmp cs ct = None"

fun strncmp :: "u8 list \<Rightarrow> u8 list \<Rightarrow> nat \<Rightarrow> int option" where
  "strncmp cs ct 0 = Some 0"
| "strncmp (c1 # cs) (c2 # ct) (Suc n) =
     (if c1 \<noteq> c2 then Some (if c1 < c2 then - 1 else 1)
      else if c1 = 0 then Some 0 else strncmp cs ct n)"
| "strncmp cs ct (Suc n) = None"

text \<open>
  In the \<^verbatim>\<open>do ... while (--len)\<close> loop \<^verbatim>\<open>continue\<close> goes to the condition, so the last
  pair of characters is compared when the length is used up.
\<close>

fun strncasecmp :: "u8 list \<Rightarrow> u8 list \<Rightarrow> nat \<Rightarrow> int option" where
  "strncasecmp s1 s2 0 = Some 0"
| "strncasecmp (c1 # s1) (c2 # s2) (Suc n) =
     (if c1 = 0 \<or> c2 = 0 then Some (uint c1 - uint c2)
      else if c1 = c2 then (if n = 0 then Some (uint c1 - uint c2) else strncasecmp s1 s2 n)
      else if tolower c1 \<noteq> tolower c2 then Some (uint (tolower c1) - uint (tolower c2))
      else if n = 0 then Some (uint (tolower c1) - uint (tolower c2)) else strncasecmp s1 s2 n)"
| "strncasecmp s1 s2 (Suc n) = None"

fun strcasecmp :: "u8 list \<Rightarrow> u8 list \<Rightarrow> int option" where
  "strcasecmp (x # s1) (y # s2) =
     (let c1 = tolower x; c2 = tolower y in
      if c1 = c2 \<and> c1 \<noteq> 0 then strcasecmp s1 s2 else Some (uint c1 - uint c2))"
| "strcasecmp s1 s2 = None"

text \<open>The tests after the loop of \<^verbatim>\<open>sysfs_streq\<close>, which may read one character further.\<close>

definition sysfs_tail :: "u8 list \<Rightarrow> u8 list \<Rightarrow> bool option" where
  "sysfs_tail s1 s2 =
     (case (s1, s2) of
        (c1 # r1, c2 # r2) \<Rightarrow>
          if c1 = c2 then Some True
          else if c1 = 0 \<and> c2 = 10 then (case r2 of [] \<Rightarrow> None | x # _ \<Rightarrow> Some (x = 0))
          else if c1 = 10 \<and> c2 = 0 then (case r1 of [] \<Rightarrow> None | x # _ \<Rightarrow> Some (x = 0))
          else Some False
      | _ \<Rightarrow> None)"

fun sysfs_streq :: "u8 list \<Rightarrow> u8 list \<Rightarrow> bool option" where
  "sysfs_streq (c1 # s1) (c2 # s2) =
     (if c1 \<noteq> 0 \<and> c1 = c2 then sysfs_streq s1 s2 else sysfs_tail (c1 # s1) (c2 # s2))"
| "sysfs_streq s1 s2 = None"

text \<open>
  The array of strings has null pointers as None; a search past its end is undefined. The
  match function is \<^verbatim>\<open>strcmp\<close> in one routine and \<^verbatim>\<open>sysfs_streq\<close> in the other.
\<close>

fun match_from :: "(u8 list \<Rightarrow> bool option) \<Rightarrow> u8 list option list \<Rightarrow> nat \<Rightarrow> int \<Rightarrow> int option" where
  "match_from eq arr 0 index = Some (- EINVAL)"
| "match_from eq [] (Suc n) index = None"
| "match_from eq (item # arr) (Suc n) index =
     (case item of
        None \<Rightarrow> Some (- EINVAL)
      | Some str \<Rightarrow> do {
          hit \<leftarrow> eq str;
          if hit then Some index else match_from eq arr n (index + 1)
        })"

definition match_string :: "u8 list option list \<Rightarrow> nat \<Rightarrow> u8 list \<Rightarrow> int option" where
  "match_string arr n str = match_from (\<lambda>item. map_option (\<lambda>r. r = 0) (strcmp item str)) arr n 0"

definition sysfs_match_string :: "u8 list option list \<Rightarrow> nat \<Rightarrow> u8 list \<Rightarrow> int option" where
  "sysfs_match_string arr n str = match_from (\<lambda>item. sysfs_streq item str) arr n 0"

section \<open>Copying\<close>

definition store :: "'a list \<Rightarrow> nat \<Rightarrow> 'a \<Rightarrow> 'a list option" where
  "store xs i v = (if i < length xs then Some (xs[i := v]) else None)"

definition load :: "'a list \<Rightarrow> nat \<Rightarrow> 'a option" where
  "load xs i = (if i < length xs then Some (xs ! i) else None)"

fun memset :: "'a list \<Rightarrow> 'a \<Rightarrow> nat \<Rightarrow> 'a list option" where
  "memset xs c 0 = Some xs"
| "memset (x # xs) c (Suc n) = map_option ((#) c) (memset xs c n)"
| "memset [] c (Suc n) = None"

definition memzero_explicit :: "u8 list \<Rightarrow> nat \<Rightarrow> u8 list option" where
  "memzero_explicit s n = memset s 0 n"

definition memset16 :: "u16 list \<Rightarrow> u16 \<Rightarrow> nat \<Rightarrow> u16 list option" where
  "memset16 s v n = memset s v n"

definition memset32 :: "u32 list \<Rightarrow> u32 \<Rightarrow> nat \<Rightarrow> u32 list option" where
  "memset32 s v n = memset s v n"

definition memset64 :: "u64 list \<Rightarrow> u64 \<Rightarrow> nat \<Rightarrow> u64 list option" where
  "memset64 s v n = memset s v n"

fun memcpy :: "u8 list \<Rightarrow> u8 list \<Rightarrow> nat \<Rightarrow> u8 list option" where
  "memcpy dest src 0 = Some dest"
| "memcpy (d # dest) (c # src) (Suc n) = map_option ((#) c) (memcpy dest src n)"
| "memcpy dest src (Suc n) = None"

text \<open>
  \<^verbatim>\<open>memmove\<close> works on one memory in which the two areas, given by their offsets, may overlap.
\<close>

fun move_up :: "u8 list \<Rightarrow> nat \<Rightarrow> nat \<Rightarrow> nat \<Rightarrow> u8 list option" where
  "move_up m d s 0 = Some m"
| "move_up m d s (Suc n) = do {
     c \<leftarrow> load m s;
     m' \<leftarrow> store m d c;
     move_up m' (Suc d) (Suc s) n
   }"

fun move_down :: "u8 list \<Rightarrow> nat \<Rightarrow> nat \<Rightarrow> nat \<Rightarrow> u8 list option" where
  "move_down m d s 0 = Some m"
| "move_down m d s (Suc n) = do {
     c \<leftarrow> load m (s + n);
     m' \<leftarrow> store m (d + n) c;
     move_down m' d s n
   }"

definition memmove :: "u8 list \<Rightarrow> nat \<Rightarrow> nat \<Rightarrow> nat \<Rightarrow> u8 list option" where
  "memmove m dest src n = (if dest \<le> src then move_up m dest src n else move_down m dest src n)"

fun strcpy :: "u8 list \<Rightarrow> u8 list \<Rightarrow> u8 list option" where
  "strcpy (d # dest) (c # src) =
     (if c \<noteq> 0 then map_option ((#) c) (strcpy dest src) else Some (c # dest))"
| "strcpy dest src = None"

fun strncpy :: "u8 list \<Rightarrow> u8 list \<Rightarrow> nat \<Rightarrow> u8 list option" where
  "strncpy dest src 0 = Some dest"
| "strncpy (d # dest) (c # src) (Suc n) =
     map_option ((#) c) (strncpy dest (if c \<noteq> 0 then src else c # src) n)"
| "strncpy dest src (Suc n) = None"

definition strlcpy :: "u8 list \<Rightarrow> u8 list \<Rightarrow> nat \<Rightarrow> (u8 list \<times> nat) option" where
  "strlcpy dest src sz = do {
     ret \<leftarrow> strlen src;
     if sz \<noteq> 0 then do {
       let len = (if ret \<ge> sz then sz - 1 else ret);
       dest \<leftarrow> memcpy dest src len;
       dest \<leftarrow> store dest len 0;
       Some (dest, ret)
     } else Some (dest, ret)
   }"

fun strcat :: "u8 list \<Rightarrow> u8 list \<Rightarrow> u8 list option" where
  "strcat [] src = None"
| "strcat (d # dest) src =
     (if d \<noteq> 0 then map_option ((#) d) (strcat dest src) else strcpy (d # dest) src)"

fun ncat_copy :: "u8 list \<Rightarrow> u8 list \<Rightarrow> nat \<Rightarrow> u8 list option" where
  "ncat_copy (d # dest) (c # src) n =
     (if c \<noteq> 0 then
        if n - 1 = 0 then map_option ((#) c) (store dest 0 0)
        else map_option ((#) c) (ncat_copy dest src (n - 1))
      else Some (c # dest))"
| "ncat_copy dest src n = None"

fun ncat_skip :: "u8 list \<Rightarrow> u8 list \<Rightarrow> nat \<Rightarrow> u8 list option" where
  "ncat_skip [] src n = None"
| "ncat_skip (d # dest) src n =
     (if d \<noteq> 0 then map_option ((#) d) (ncat_skip dest src n) else ncat_copy (d # dest) src n)"

definition strncat :: "u8 list \<Rightarrow> u8 list \<Rightarrow> nat \<Rightarrow> u8 list option" where
  "strncat dest src n = (if n \<noteq> 0 then ncat_skip dest src n else Some dest)"

definition strlcat :: "u8 list \<Rightarrow> u8 list \<Rightarrow> nat \<Rightarrow> (u8 list \<times> nat) outcome option" where
  "strlcat dest src sz = do {
     dsize \<leftarrow> strlen dest;
     len \<leftarrow> strlen src;
     let res = dsize + len;
     if dsize \<ge> sz then Some Bug
     else do {
       let len = (if len \<ge> sz - dsize then sz - dsize - 1 else len);
       rest \<leftarrow> memcpy (drop dsize dest) src len;
       rest \<leftarrow> store rest len 0;
       Some (Ret (take dsize dest @ rest, res))
     }
   }"

fun strreplace :: "u8 list \<Rightarrow> u8 \<Rightarrow> u8 \<Rightarrow> (u8 list \<times> nat) option" where
  "strreplace [] old new = None"
| "strreplace (c # s) old new =
     (if c \<noteq> 0
      then map_option (\<lambda>(t, i). ((if c = old then new else c) # t, Suc i)) (strreplace s old new)
      else Some (c # s, 0))"

text \<open>One past the last character that is not a space, from the end of the string downwards.\<close>

fun trim_end :: "u8 list \<Rightarrow> nat \<Rightarrow> nat" where
  "trim_end s 0 = 0"
| "trim_end s (Suc i) = (if isspace (s ! i) then trim_end s i else Suc i)"

definition strim :: "u8 list \<Rightarrow> (u8 list \<times> nat) option" where
  "strim s = do {
     sz \<leftarrow> strlen s;
     if sz = 0 then Some (s, 0)
     else do {
       s \<leftarrow> store s (trim_end s sz) 0;
       start \<leftarrow> skip_spaces s;
       Some (s, start)
     }
   }"

text \<open>
  \<^verbatim>\<open>strsep\<close> is given the string from \<^verbatim>\<open>*s\<close> on (None for a null pointer) and returns the string
  with the delimiter overwritten and the offset of the new \<^verbatim>\<open>*s\<close>.
\<close>

definition strsep :: "u8 list option \<Rightarrow> u8 list \<Rightarrow> (u8 list \<times> nat option) option option" where
  "strsep s ct =
     (case s of
        None \<Rightarrow> Some None
      | Some sbegin \<Rightarrow> do {
          fin \<leftarrow> strpbrk sbegin ct;
          case fin of
            None \<Rightarrow> Some (Some (sbegin, None))
          | Some i \<Rightarrow> do {
              t \<leftarrow> store sbegin i 0;
              Some (Some (t, Some (i + 1)))
            }
        })"

section \<open>Memory areas\<close>

fun memcmp :: "u8 list \<Rightarrow> u8 list \<Rightarrow> nat \<Rightarrow> int option" where
  "memcmp cs ct 0 = Some 0"
| "memcmp (c # cs) (d # ct) (Suc n) =
     (let res = uint c - uint d in if res \<noteq> 0 then Some res else memcmp cs ct n)"
| "memcmp cs ct (Suc n) = None"

fun memscan :: "u8 list \<Rightarrow> int \<Rightarrow> nat \<Rightarrow> nat option" where
  "memscan p c 0 = Some 0"
| "memscan (x # p) c (Suc sz) = (if uint x = c then Some 0 else map_option Suc (memscan p c sz))"
| "memscan [] c (Suc sz) = None"

fun memchr :: "u8 list \<Rightarrow> int \<Rightarrow> nat \<Rightarrow> nat option option" where
  "memchr p c 0 = Some None"
| "memchr (x # p) c (Suc n) =
     (if word_of_int c = x then Some (Some 0) else map_option (map_option Suc) (memchr p c n))"
| "memchr [] c (Suc n) = None"

text \<open>The loop that \<^verbatim>\<open>strstr\<close> and \<^verbatim>\<open>strnstr\<close> share: \<open>len\<close> characters are left.\<close>

fun strstr_from :: "u8 list \<Rightarrow> u8 list \<Rightarrow> nat \<Rightarrow> nat \<Rightarrow> nat option option" where
  "strstr_from s1 s2 l2 0 = Some (if l2 = 0 then Some 0 else None)"
| "strstr_from s1 s2 l2 (Suc len) =
     (if Suc len \<ge> l2 then do {
        r \<leftarrow> memcmp s1 s2 l2;
        if r = 0 then Some (Some 0)
        else map_option (map_option Suc) (strstr_from (drop 1 s1) s2 l2 len)
      } else Some None)"

definition strstr :: "u8 list \<Rightarrow> u8 list \<Rightarrow> nat option option" where
  "strstr s1 s2 = do {
     l2 \<leftarrow> strlen s2;
     if l2 = 0 then Some (Some 0)
     else do { l1 \<leftarrow> strlen s1; strstr_from s1 s2 l2 l1 }
   }"

definition strnstr :: "u8 list \<Rightarrow> u8 list \<Rightarrow> nat \<Rightarrow> nat option option" where
  "strnstr s1 s2 len = do {
     l2 \<leftarrow> strlen s2;
     if l2 = 0 then Some (Some 0) else strstr_from s1 s2 l2 len
   }"

fun check_bytes8 :: "u8 list \<Rightarrow> u8 \<Rightarrow> nat \<Rightarrow> nat option option" where
  "check_bytes8 s value 0 = Some None"
| "check_bytes8 (x # s) value (Suc n) =
     (if x \<noteq> value then Some (Some 0) else map_option (map_option Suc) (check_bytes8 s value n))"
| "check_bytes8 [] value (Suc n) = None"

section \<open>Strings as values\<close>

text \<open>
  A string argument is a buffer that holds a NUL; its value is the characters before the first
  one. The lemmas below give each routine as a function of these values.
\<close>

definition is_cstr :: "u8 list \<Rightarrow> bool" where
  "is_cstr s \<longleftrightarrow> 0 \<in> set s"

definition cstr :: "u8 list \<Rightarrow> u8 list" where
  "cstr s = takeWhile (\<lambda>c. c \<noteq> 0) s"

lemma is_cstr_simps [simp]: "\<not> is_cstr []" "is_cstr (c # s) \<longleftrightarrow> c = 0 \<or> is_cstr s"
  by (auto simp: is_cstr_def)

lemma cstr_simps [simp]: "cstr [] = []" "cstr (c # s) = (if c = 0 then [] else c # cstr s)"
  by (auto simp: cstr_def)

lemma is_cstr_append: "is_cstr (s @ t) \<longleftrightarrow> is_cstr s \<or> is_cstr t"
  by (auto simp: is_cstr_def)

lemma cstr_no_nul [simp]: "0 \<notin> set (cstr s)"
  by (auto simp: cstr_def dest: set_takeWhileD)

lemma cstr_append_nul [simp]: "0 \<notin> set s \<Longrightarrow> cstr (s @ 0 # t) = s"
  by (induction s) auto

lemma cstr_split: "is_cstr s \<Longrightarrow> s = cstr s @ 0 # drop (Suc (length (cstr s))) s"
  by (induction s) auto

lemma length_cstr: "is_cstr s \<Longrightarrow> length (cstr s) < length s"
  by (induction s) auto

lemma take_cstr: "n \<le> length (cstr s) \<Longrightarrow> take n s = take n (cstr s)"
proof (induction s arbitrary: n)
  case (Cons c s)
  then show ?case by (cases n) (auto split: if_splits)
qed simp

lemma strlen_cstr [simp]: "is_cstr s \<Longrightarrow> strlen s = Some (length (cstr s))"
  by (induction s) auto

lemma strlen_eq_Some: "strlen s = Some n \<longleftrightarrow> is_cstr s \<and> n = length (cstr s)"
  by (induction s arbitrary: n) auto

lemma memcpy_append: "n \<le> length dest \<Longrightarrow> n \<le> length src \<Longrightarrow>
    memcpy dest src n = Some (take n src @ drop n dest)"
  by (induction dest src n rule: memcpy.induct) auto

lemma memset_append: "n \<le> length s \<Longrightarrow> memset s c n = Some (replicate n c @ drop n s)"
  by (induction s c n rule: memset.induct) auto

lemma strcpy_cstr: "is_cstr src \<Longrightarrow> length (cstr src) < length dest \<Longrightarrow>
    strcpy dest src = Some (cstr src @ 0 # drop (Suc (length (cstr src))) dest)"
  by (induction dest src rule: strcpy.induct) auto

lemma strcat_skip: "0 \<notin> set u \<Longrightarrow> strcat (u @ 0 # rest) src = map_option ((@) u) (strcpy (0 # rest) src)"
  by (induction u; cases "strcpy (0 # rest) src") auto

lemma strcat_cstr:
  assumes "is_cstr dest" "is_cstr src" "length (cstr dest) + length (cstr src) < length dest"
  shows "strcat dest src =
    Some (cstr dest @ cstr src @ 0 # drop (Suc (length (cstr dest) + length (cstr src))) dest)"
proof -
  obtain rest where d: "dest = cstr dest @ 0 # rest" using cstr_split [OF assms(1)] by blast
  have "strcat dest src = map_option ((@) (cstr dest)) (strcpy (0 # rest) src)"
    by (subst d) (rule strcat_skip, simp)
  moreover have "length (cstr src) < length (0 # rest)"
    using assms(3) arg_cong [OF d, of length] by simp
  moreover have "drop (Suc (length (cstr dest) + length (cstr src))) dest = drop (length (cstr src)) rest"
    by (subst (2) d) simp
  ultimately show ?thesis
    using strcpy_cstr [OF assms(2), of "0 # rest"] by simp
qed

lemma store_append: "store (u @ x # v) (length u) c = Some (u @ c # v)"
  by (simp add: store_def)

lemma strlcpy_cstr:
  assumes "is_cstr src" "0 < sz" "sz \<le> length dest"
  shows "strlcpy dest src sz =
    (let u = take (sz - 1) (cstr src)
     in Some (u @ 0 # drop (Suc (length u)) dest, length (cstr src)))"
proof -
  define n where "n = min (sz - 1) (length (cstr src))"
  have len: "(if length (cstr src) \<ge> sz then sz - 1 else length (cstr src)) = n"
    using assms(2) by (auto simp: n_def min_def)
  have n: "n < length dest" "n \<le> length src" "take n src = take (sz - 1) (cstr src)"
    using assms length_cstr [OF assms(1)] take_cstr [of n src] by (auto simp: n_def min_def)
  have "memcpy dest src n = Some (take n src @ dest ! n # drop (Suc n) dest)"
    using n by (simp add: memcpy_append Cons_nth_drop_Suc)
  moreover have "length (take (sz - 1) (cstr src)) = n" by (simp add: n_def min.commute)
  ultimately show ?thesis
    using assms(2) store_append [of "take (sz - 1) (cstr src)" "dest ! n" "drop (Suc n) dest" 0]
    by (simp add: strlcpy_def strlen_cstr [OF assms(1)] len [simplified] n(3) Let_def)
qed

lemma strlcat_cstr:
  assumes "is_cstr dest" "is_cstr src" "sz \<le> length dest"
  shows "strlcat dest src sz =
    (if sz \<le> length (cstr dest) then Some Bug
     else let u = take (sz - 1) (cstr dest @ cstr src)
          in Some (Ret (u @ 0 # drop (Suc (length u)) dest, length (cstr dest) + length (cstr src))))"
proof (cases "sz \<le> length (cstr dest)")
  case False
  define d n where "d = length (cstr dest)" and "n = min (sz - d - 1) (length (cstr src))"
  have len: "(if length (cstr src) \<ge> sz - d then sz - d - 1 else length (cstr src)) = n"
    using False by (auto simp: n_def d_def min_def)
  have n: "n < length (drop d dest)" "n \<le> length src" "take n src = take (sz - d - 1) (cstr src)"
    using False assms length_cstr [OF assms(2)] take_cstr [of n src]
    by (auto simp: n_def d_def min_def)
  have "memcpy (drop d dest) src n = Some (take n src @ drop d dest ! n # drop (Suc n) (drop d dest))"
    using n by (simp add: memcpy_append Cons_nth_drop_Suc del: drop_drop nth_drop)
  moreover have "length (take (sz - d - 1) (cstr src)) = n" by (simp add: n_def min.commute)
  moreover have "take d dest = cstr dest" using take_cstr [of d dest] by (simp add: d_def)
  moreover have "take (sz - 1) (cstr dest @ cstr src) = cstr dest @ take (sz - d - 1) (cstr src)"
    using False by (simp add: d_def)
  ultimately show ?thesis
    using False assms store_append [of "take (sz - d - 1) (cstr src)" "drop d dest ! n"
        "drop (Suc n) (drop d dest)" 0]
    by (simp add: strlcat_def len [unfolded d_def] n(3) [unfolded d_def] Let_def d_def add.commute)
qed (use assms in \<open>simp add: strlcat_def\<close>)

section \<open>Moving memory\<close>

lemma move_up_nth:
  assumes "d \<le> s" "s + n \<le> length m"
  shows "\<exists>m'. move_up m d s n = Some m' \<and> length m' = length m \<and>
    (\<forall>i < length m. m' ! i = (if d \<le> i \<and> i < d + n then m ! (s + (i - d)) else m ! i))"
  using assms
proof (induction n arbitrary: m d s)
  case (Suc n)
  let ?m = "m[d := m ! s]"
  obtain m' where m': "move_up ?m (Suc d) (Suc s) n = Some m'" "length m' = length m"
    "\<forall>i < length m. m' ! i = (if Suc d \<le> i \<and> i < Suc d + n then ?m ! (Suc s + (i - Suc d)) else ?m ! i)"
    using Suc.IH [of "Suc d" "Suc s" ?m] Suc.prems by auto
  have "m' ! i = (if d \<le> i \<and> i < d + Suc n then m ! (s + (i - d)) else m ! i)" if "i < length m" for i
  proof (cases "Suc d \<le> i \<and> i < Suc d + n")
    case True
    then have "Suc s + (i - Suc d) = s + (i - d)" "d \<noteq> s + (i - d)" using Suc.prems by auto
    then show ?thesis using m'(3) that True by auto
  next
    case False
    then show ?thesis using m'(3) that Suc.prems by (cases "i = d") auto
  qed
  then show ?case using m' Suc.prems by (auto simp: load_def store_def)
qed auto

lemma move_down_nth:
  assumes "s < d" "d + n \<le> length m"
  shows "\<exists>m'. move_down m d s n = Some m' \<and> length m' = length m \<and>
    (\<forall>i < length m. m' ! i = (if d \<le> i \<and> i < d + n then m ! (s + (i - d)) else m ! i))"
  using assms
proof (induction n arbitrary: m)
  case (Suc n)
  let ?m = "m[d + n := m ! (s + n)]"
  obtain m' where m': "move_down ?m d s n = Some m'" "length m' = length m"
    "\<forall>i < length m. m' ! i = (if d \<le> i \<and> i < d + n then ?m ! (s + (i - d)) else ?m ! i)"
    using Suc.IH [of ?m] Suc.prems by auto
  have "m' ! i = (if d \<le> i \<and> i < d + Suc n then m ! (s + (i - d)) else m ! i)" if "i < length m" for i
    using m'(3) that Suc.prems by (cases "i = d + n") (auto simp: nth_list_update)
  then show ?case using m' Suc.prems by (auto simp: load_def store_def)
qed auto

text \<open>
  C27: \<^verbatim>\<open>memmove\<close> copes with overlapping areas: after it the destination holds what the source
  area held before the call, and every other byte is unchanged.
\<close>

theorem memmove_overlap:
  assumes "src + n \<le> length m" "dest + n \<le> length m"
  shows "memmove m dest src n = Some (take dest m @ take n (drop src m) @ drop (dest + n) m)"
proof -
  obtain m' where m': "memmove m dest src n = Some m'" "length m' = length m"
    "\<forall>i < length m. m' ! i = (if dest \<le> i \<and> i < dest + n then m ! (src + (i - dest)) else m ! i)"
    using assms move_up_nth [of dest src n m] move_down_nth [of src dest n m]
    by (cases "dest \<le> src") (auto simp: memmove_def)
  have "m' = take dest m @ take n (drop src m) @ drop (dest + n) m"
    using assms m' by (intro nth_equalityI) (auto simp: nth_append)
  then show ?thesis using m'(1) by simp
qed

theorem memmove_overlap_witness:
  "memmove [1, 2, 3, 4, 5] 1 0 3 = Some [1, 1, 2, 3, 5]"
  using memmove_overlap [of 0 3 "[1, 2, 3, 4, 5]" 1] by (simp add: eval_nat_numeral)

section \<open>Substrings\<close>

lemma memcmp_zero: "n \<le> length s \<Longrightarrow> n \<le> length t \<Longrightarrow>
    \<exists>r. memcmp s t n = Some r \<and> (r = 0 \<longleftrightarrow> take n s = take n t)"
  by (induction s t n rule: memcmp.induct) (auto simp: Let_def word_uint_eq_iff)

lemma prefix_iff_take: "prefix xs ys \<longleftrightarrow> take (length xs) ys = xs"
  by (auto simp: prefix_def) (metis append_take_drop_id)

lemma sublist_iff_prefix_drop: "sublist xs ys \<longleftrightarrow> (\<exists>i \<le> length ys. prefix xs (drop i ys))"
proof
  assume "sublist xs ys"
  then obtain ps ss where "ys = ps @ xs @ ss" by (auto simp: sublist_def)
  then show "\<exists>i \<le> length ys. prefix xs (drop i ys)" by (intro exI [of _ "length ps"]) simp
next
  assume "\<exists>i \<le> length ys. prefix xs (drop i ys)"
  then obtain i zs where "drop i ys = xs @ zs" by (auto simp: prefix_def)
  then show "sublist xs ys" unfolding sublist_def by (metis append_take_drop_id)
qed

lemma cstr_match:
  assumes "cstr s2 \<noteq> []"
  shows "prefix (cstr s2) (drop i (cstr s1)) \<longleftrightarrow>
    i + length (cstr s2) \<le> length (cstr s1) \<and>
    take (length (cstr s2)) (drop i s1) = take (length (cstr s2)) s2"
proof (cases "i + length (cstr s2) \<le> length (cstr s1)")
  case True
  then show ?thesis
    using take_cstr [of "i + length (cstr s2)" s1] take_cstr [of "length (cstr s2)" s2]
    by (simp add: prefix_iff_take take_drop add.commute)
next
  case False
  moreover have "0 < length (cstr s2)" using assms by simp
  ultimately show ?thesis
    by (auto dest!: prefix_length_le simp flip: length_greater_0_conv)
qed

lemma strstr_from_first:
  assumes "0 < l2" "len \<le> length s1" "l2 \<le> length s2"
  shows "\<exists>r. strstr_from s1 s2 l2 len = Some r \<and>
    (case r of
       None \<Rightarrow> \<forall>i. i + l2 \<le> len \<longrightarrow> take l2 (drop i s1) \<noteq> take l2 s2
     | Some i \<Rightarrow> i + l2 \<le> len \<and> take l2 (drop i s1) = take l2 s2 \<and>
         (\<forall>j < i. take l2 (drop j s1) \<noteq> take l2 s2))"
  using assms
proof (induction len arbitrary: s1)
  case (Suc len)
  show ?case
  proof (cases "l2 \<le> Suc len")
    case le: True
    obtain r where r: "memcmp s1 s2 l2 = Some r" "r = 0 \<longleftrightarrow> take l2 s1 = take l2 s2"
      using memcmp_zero [of l2 s1 s2] le Suc.prems by auto
    show ?thesis
    proof (cases "r = 0")
      case False
      have len: "len \<le> length (drop 1 s1)" using Suc.prems(2) by simp
      obtain q where q: "strstr_from (drop 1 s1) s2 l2 len = Some q"
        and case_q: "case q of
            None \<Rightarrow> \<forall>i. i + l2 \<le> len \<longrightarrow> take l2 (drop i (drop 1 s1)) \<noteq> take l2 s2
          | Some i \<Rightarrow> i + l2 \<le> len \<and> take l2 (drop i (drop 1 s1)) = take l2 s2 \<and>
              (\<forall>j < i. take l2 (drop j (drop 1 s1)) \<noteq> take l2 s2)"
        using Suc.IH [of "drop 1 s1"] Suc.prems(1,3) len by blast
      have no: "take l2 (drop 0 s1) \<noteq> take l2 s2" using False r(2) by simp
      have eq: "strstr_from s1 s2 l2 (Suc len) = Some (map_option Suc q)"
        using le r False q by simp
      show ?thesis
      proof (cases q)
        case None
        have "take l2 (drop i s1) \<noteq> take l2 s2" if "i + l2 \<le> Suc len" for i
          using case_q None no that by (cases i) auto
        then show ?thesis using eq None by simp
      next
        case (Some i)
        have "take l2 (drop j s1) \<noteq> take l2 s2" if "j < Suc i" for j
          using case_q Some no that by (cases j) auto
        then show ?thesis using eq Some case_q by simp
      qed
    qed (use le r in simp)
  qed simp
qed simp

text \<open>
  C32: \<^verbatim>\<open>strstr\<close> finds the first occurrence of one string in another: it returns the least
  offset at which the second string starts in the first, and a null pointer exactly when there
  is none.
\<close>

theorem strstr_first_occurrence:
  assumes "is_cstr s1" "is_cstr s2"
  shows "\<exists>r. strstr s1 s2 = Some r \<and>
    (case r of
       None \<Rightarrow> \<not> sublist (cstr s2) (cstr s1)
     | Some i \<Rightarrow> i \<le> length (cstr s1) \<and> prefix (cstr s2) (drop i (cstr s1)) \<and>
         (\<forall>j < i. \<not> prefix (cstr s2) (drop j (cstr s1))))"
proof (cases "cstr s2 = []")
  case False
  let ?a = "cstr s1" and ?b = "cstr s2"
  obtain r where r: "strstr_from s1 s2 (length ?b) (length ?a) = Some r"
    and case_r: "case r of
       None \<Rightarrow> \<forall>i. i + length ?b \<le> length ?a \<longrightarrow> take (length ?b) (drop i s1) \<noteq> take (length ?b) s2
     | Some i \<Rightarrow> i + length ?b \<le> length ?a \<and> take (length ?b) (drop i s1) = take (length ?b) s2 \<and>
         (\<forall>j < i. take (length ?b) (drop j s1) \<noteq> take (length ?b) s2)"
    using strstr_from_first [of "length ?b" "length ?a" s1 s2] False assms
      length_cstr [of s1] length_cstr [of s2] by auto
  have "strstr s1 s2 = Some r" using r False assms by (simp add: strstr_def)
  then show ?thesis
    using case_r by (cases r) (auto simp: sublist_iff_prefix_drop cstr_match [OF False])
qed (use assms in \<open>simp add: strstr_def\<close>)

theorem strstr_first_occurrence_witness:
  "\<exists>r. strstr [97, 98, 97, 99, 0] [97, 99, 0] = Some r \<and>
    (case r of
       None \<Rightarrow> \<not> sublist (cstr [97, 99, 0]) (cstr [97, 98, 97, 99, 0])
     | Some i \<Rightarrow> i \<le> length (cstr [97, 98, 97, 99, 0]) \<and>
         prefix (cstr [97, 99, 0]) (drop i (cstr [97, 98, 97, 99, 0])) \<and>
         (\<forall>j < i. \<not> prefix (cstr [97, 99, 0]) (drop j (cstr [97, 98, 97, 99, 0]))))"
  by (rule strstr_first_occurrence) simp_all

section \<open>Order, bounded copies, trimming and tokens\<close>

text \<open>
  \<^verbatim>\<open>strcmp\<close> decides the lexicographic order of unsigned bytes on the values of its
  arguments, and its result is one of -1, 0 and 1.
\<close>

theorem strcmp_lexicographic:
  assumes "is_cstr s" "is_cstr t"
  shows "strcmp s t = Some (if cstr s = cstr t then 0 else if cstr s < cstr t then - 1 else 1)"
  using assms by (induction s t rule: strcmp.induct) (auto simp: word_gt_0)

theorem strcmp_lexicographic_witness:
  "strcmp [97, 98, 0, 7] [97, 200, 0] =
     Some (if cstr [97, 98, 0, 7] = cstr [97, 200, 0] then 0
           else if cstr [97, 98, 0, 7] < cstr [97, 200, 0] then - 1 else 1)"
  by (rule strcmp_lexicographic) simp_all

text \<open>
  C28: The bounded copies never write past the size they are given and always leave a
  terminated string. \<^verbatim>\<open>strlcpy\<close> leaves the longest prefix of the source that fits, \<^verbatim>\<open>strlcat\<close>
  the longest prefix of the concatenation that fits, both return the length of the untruncated
  result, and \<^verbatim>\<open>strlcat\<close> stops with a BUG exactly when the destination is not a string within
  its size.
\<close>

theorem strlcpy_strlcat_bounded:
  assumes "is_cstr src" "is_cstr dest" "0 < sz" "sz \<le> length dest"
  shows "(\<exists>d. strlcpy dest src sz = Some (d, length (cstr src)) \<and> length d = length dest \<and>
        cstr d = take (sz - 1) (cstr src) \<and> drop sz d = drop sz dest) \<and>
    (if sz \<le> length (cstr dest) then strlcat dest src sz = Some Bug
     else \<exists>d. strlcat dest src sz = Some (Ret (d, length (cstr dest @ cstr src))) \<and>
        length d = length dest \<and> cstr d = take (sz - 1) (cstr dest @ cstr src) \<and>
        drop sz d = drop sz dest)"
proof -
  let ?put = "\<lambda>u. u @ 0 # drop (Suc (length u)) dest"
  have put: "length (?put u) = length dest \<and> cstr (?put u) = u \<and> drop sz (?put u) = drop sz dest"
    if "u = take (sz - 1) v" "0 \<notin> set v" for u v
  proof -
    have "Suc (length u) \<le> sz" "0 \<notin> set u" using that assms(3) by (auto dest: in_set_takeD)
    moreover from this have "drop (sz - Suc (length u)) (drop (Suc (length u)) dest) = drop sz dest"
      by simp
    ultimately show ?thesis using assms(4) by (simp add: drop_Cons' )
  qed
  have "\<exists>d. strlcpy dest src sz = Some (d, length (cstr src)) \<and> length d = length dest \<and>
      cstr d = take (sz - 1) (cstr src) \<and> drop sz d = drop sz dest"
    using put [OF refl, of "cstr src"] strlcpy_cstr [OF assms(1,3,4)] by (auto simp: Let_def)
  moreover have "\<exists>d. strlcat dest src sz = Some (Ret (d, length (cstr dest @ cstr src))) \<and>
      length d = length dest \<and> cstr d = take (sz - 1) (cstr dest @ cstr src) \<and>
      drop sz d = drop sz dest" if "\<not> sz \<le> length (cstr dest)"
  proof -
    define u where "u = take (sz - 1) (cstr dest @ cstr src)"
    have "strlcat dest src sz = Some (Ret (?put u, length (cstr dest @ cstr src)))"
      using strlcat_cstr [OF assms(2,1,4)] that by (simp only: Let_def u_def if_False length_append)
    moreover have "length (?put u) = length dest \<and> cstr (?put u) = u \<and> drop sz (?put u) = drop sz dest"
      by (rule put [OF u_def]) simp
    ultimately show ?thesis unfolding u_def [symmetric] by blast
  qed
  moreover have "strlcat dest src sz = Some Bug" if "sz \<le> length (cstr dest)"
    using strlcat_cstr [OF assms(2,1,4)] that by simp
  ultimately show ?thesis by (simp only: split: if_split) blast
qed

theorem strlcpy_strlcat_bounded_witness:
  "(\<exists>d. strlcpy [120, 0, 9, 9] [97, 98, 99, 0] 3 = Some (d, length (cstr [97, 98, 99, 0])) \<and>
        length d = length [120, 0, 9, 9 :: u8] \<and> cstr d = take (3 - 1) (cstr [97, 98, 99, 0]) \<and>
        drop 3 d = drop 3 [120, 0, 9, 9]) \<and>
    (if 3 \<le> length (cstr [120, 0, 9, 9]) then strlcat [120, 0, 9, 9] [97, 98, 99, 0] 3 = Some Bug
     else \<exists>d. strlcat [120, 0, 9, 9] [97, 98, 99, 0] 3 =
          Some (Ret (d, length (cstr [120, 0, 9, 9] @ cstr [97, 98, 99, 0]))) \<and>
        length d = length [120, 0, 9, 9 :: u8] \<and>
        cstr d = take (3 - 1) (cstr [120, 0, 9, 9] @ cstr [97, 98, 99, 0]) \<and>
        drop 3 d = drop 3 [120, 0, 9, 9])"
  by (rule strlcpy_strlcat_bounded) simp_all

lemma trim_end_rev: "n \<le> length s \<Longrightarrow>
    trim_end s n \<le> n \<and> take (trim_end s n) s = rev (dropWhile isspace (rev (take n s)))"
  by (induction s n rule: trim_end.induct) (auto simp: take_Suc_conv_app_nth)

lemma skip_spaces_nul: "0 \<notin> set v \<Longrightarrow>
    skip_spaces (v @ 0 # t) = Some (length (takeWhile isspace v))"
  by (induction v) (auto simp: isspace_0)

text \<open>
  \<^verbatim>\<open>strim\<close> removes exactly the leading and the trailing white space: the string at the
  pointer it returns is the value of its argument with both ends stripped, also when the
  argument is empty or consists of white space only.
\<close>

theorem strim_strips:
  assumes "is_cstr s"
  shows "\<exists>t i. strim s = Some (t, i) \<and> length t = length s \<and>
    cstr (drop i t) = dropWhile isspace (rev (dropWhile isspace (rev (cstr s))))"
proof (cases "cstr s = []")
  case False
  define n v where "n = length (cstr s)" and "v = rev (dropWhile isspace (rev (cstr s)))"
  define k where "k = trim_end s n"
  have n: "n < length s" using length_cstr [OF assms] by (simp add: n_def)
  then have k: "k \<le> n" "take k s = v"
    using trim_end_rev [of n s] take_cstr [of n s] by (auto simp: k_def v_def n_def)
  have "set v \<subseteq> set (cstr s)" by (auto simp: v_def dest: set_dropWhileD)
  then have v: "0 \<notin> set v" using cstr_no_nul by blast
  have st: "store s k 0 = Some (v @ 0 # drop (Suc k) s)"
    using n k by (auto simp: store_def upd_conv_take_nth_drop)
  have "drop (length (takeWhile isspace v)) (v @ 0 # drop (Suc k) s) = dropWhile isspace v @ 0 # drop (Suc k) s"
    by (simp add: dropWhile_eq_drop length_takeWhile_le)
  moreover have "0 \<notin> set (dropWhile isspace v)" using v by (auto dest: set_dropWhileD)
  moreover have "length v = k" using k n by (auto simp flip: k(2))
  moreover have "n \<noteq> 0" using False by (simp add: n_def)
  ultimately show ?thesis
    using assms False st skip_spaces_nul [OF v, of "drop (Suc k) s"] n k(1)
    by (auto simp: strim_def n_def [symmetric] k_def [symmetric] v_def [symmetric])
qed (use assms in \<open>simp add: strim_def\<close>)

theorem strim_strips_witness:
  "\<exists>t i. strim [32, 97, 32, 98, 9, 0] = Some (t, i) \<and> length t = length [32, 97, 32, 98, 9, 0 :: u8] \<and>
    cstr (drop i t) = dropWhile isspace (rev (dropWhile isspace (rev (cstr [32, 97, 32, 98, 9, 0]))))"
  by (rule strim_strips) simp

lemma in_cstr_set: "is_cstr acc \<Longrightarrow> in_cstr c acc = Some (c \<in> set (cstr acc))"
  by (induction acc) auto

lemma strspn_takeWhile: "is_cstr s \<Longrightarrow> is_cstr acc \<Longrightarrow>
    strspn s acc = Some (length (takeWhile (\<lambda>c. c \<in> set (cstr acc)) (cstr s)))"
  by (induction s) (auto simp: in_cstr_set)

lemma strcspn_takeWhile: "is_cstr s \<Longrightarrow> is_cstr reject \<Longrightarrow>
    strcspn s reject = Some (length (takeWhile (\<lambda>c. c \<notin> set (cstr reject)) (cstr s)))"
  by (induction s) (auto simp: in_cstr_set)

lemma strpbrk_takeWhile: "is_cstr s \<Longrightarrow> is_cstr ct \<Longrightarrow>
    strpbrk s ct =
      Some (let k = length (takeWhile (\<lambda>c. c \<notin> set (cstr ct)) (cstr s))
            in if k < length (cstr s) then Some k else None)"
  by (induction s) (auto simp: in_cstr_set Let_def)

text \<open>
  C33: \<^verbatim>\<open>strsep\<close> cuts its string at the first delimiter. The token it returns holds no
  delimiter; with no delimiter left it is the whole string and the pointer becomes null;
  otherwise the token, one delimiter and the string at the new pointer make up the old string.
  A null pointer stays null.
\<close>

theorem strsep_splits:
  assumes "is_cstr s" "is_cstr ct"
  shows "strsep None ct = Some None \<and>
    (\<exists>t nxt. strsep (Some s) ct = Some (Some (t, nxt)) \<and>
       set (cstr t) \<inter> set (cstr ct) = {} \<and>
       (case nxt of
          None \<Rightarrow> t = s
        | Some i \<Rightarrow> \<exists>c \<in> set (cstr ct). is_cstr (drop i t) \<and> drop i t = drop i s \<and>
            cstr s = cstr t @ c # cstr (drop i t)))"
proof -
  let ?tok = "takeWhile (\<lambda>c. c \<notin> set (cstr ct)) (cstr s)"
  define k where "k = length ?tok"
  have tok: "set ?tok \<inter> set (cstr ct) = {}" "0 \<notin> set ?tok" "take k (cstr s) = ?tok"
    using cstr_no_nul [of s]
    by (auto dest: set_takeWhileD) (simp add: k_def takeWhile_eq_take [symmetric])
  show ?thesis
  proof (cases "k < length (cstr s)")
    case True
    define c where "c = cstr s ! k"
    have c: "c \<in> set (cstr ct)" using True nth_length_takeWhile unfolding c_def k_def by fastforce
    have s: "s = cstr s @ 0 # drop (Suc (length (cstr s))) s" using cstr_split [OF assms(1)] .
    have split: "cstr s = ?tok @ c # drop (Suc k) (cstr s)"
      using True id_take_nth_drop [of k "cstr s"] by (simp add: c_def tok(3))
    define r where "r = drop (Suc k) (cstr s) @ 0 # drop (Suc (length (cstr s))) s"
    have sr: "s = ?tok @ c # r" using s split unfolding r_def by (metis append.assoc append_Cons)
    have "0 \<notin> set (drop (Suc k) (cstr s))" using cstr_no_nul [of s] by (blast dest: in_set_dropD)
    then have r: "is_cstr r" "cstr r = drop (Suc k) (cstr s)"
      unfolding r_def by (simp_all add: is_cstr_append)
    have "store s k 0 = Some (?tok @ 0 # r)"
      using store_append [of ?tok c r 0] sr by (simp add: k_def)
    then have "strsep (Some s) ct = Some (Some (?tok @ 0 # r, Some (k + 1)))"
      using assms True by (simp add: strsep_def strpbrk_takeWhile k_def [symmetric])
    moreover have "drop (k + 1) (?tok @ 0 # r) = r" "drop (k + 1) s = r"
      by (simp add: k_def, subst sr, simp add: k_def)
    ultimately show ?thesis using tok(1,2) c r split by (auto simp: strsep_def)
  next
    case False
    then have "?tok = cstr s" unfolding k_def
      by (metis length_takeWhile_le le_neq_implies_less takeWhile_eq_take take_all_iff order_refl)
    then show ?thesis using assms tok(1) False
      by (auto simp: strsep_def strpbrk_takeWhile k_def [symmetric])
  qed
qed

theorem strsep_splits_witness:
  "strsep None [44, 0] = Some None \<and>
    (\<exists>t nxt. strsep (Some [97, 44, 98, 0]) [44, 0] = Some (Some (t, nxt)) \<and>
       set (cstr t) \<inter> set (cstr [44, 0]) = {} \<and>
       (case nxt of
          None \<Rightarrow> t = [97, 44, 98, 0]
        | Some i \<Rightarrow> \<exists>c \<in> set (cstr [44, 0]). is_cstr (drop i t) \<and> drop i t = drop i [97, 44, 98, 0] \<and>
            cstr [97, 44, 98, 0] = cstr t @ c # cstr (drop i t)))"
  by (rule strsep_splits) simp_all

end
