(* ===== verification/Kernel_String_Words.thy ===== *)
theory Kernel_String_Words
  imports Kernel_String
begin

text \<open>
  The routines of \<^verbatim>\<open>lib/string.c\<close> that read eight bytes at a time: \<^verbatim>\<open>strscpy\<close> with the bit
  tricks of \<^verbatim>\<open>arch/x86/include/asm/word-at-a-time.h\<close>, and \<^verbatim>\<open>memchr_inv\<close>. The lemmas show that
  the tricks find the first zero byte of a word, and that both routines agree with the
  byte-wise definitions.
\<close>

unbundle bit_operations_syntax

section \<open>Words in memory\<close>

text \<open>A little-endian load and store of an \<^verbatim>\<open>unsigned long\<close>; None is an access out of bounds.\<close>

fun le_word :: "u8 list \<Rightarrow> u64" where
  "le_word [] = 0"
| "le_word (b # bs) = ucast b OR push_bit 8 (le_word bs)"

fun le_bytes :: "nat \<Rightarrow> u64 \<Rightarrow> u8 list" where
  "le_bytes 0 w = []"
| "le_bytes (Suc n) w = ucast w # le_bytes n (drop_bit 8 w)"

definition load64 :: "u8 list \<Rightarrow> nat \<Rightarrow> u64 option" where
  "load64 m i = (if i + 8 \<le> length m then Some (le_word (take 8 (drop i m))) else None)"

definition store64 :: "u8 list \<Rightarrow> nat \<Rightarrow> u64 \<Rightarrow> u8 list option" where
  "store64 m i w =
     (if i + 8 \<le> length m then Some (take i m @ le_bytes 8 w @ drop (i + 8) m) else None)"

section \<open>Word at a time\<close>

definition one_bits :: u64 where "one_bits = 0x0101010101010101"
definition high_bits :: u64 where "high_bits = 0x8080808080808080"

definition count_masked_bytes :: "u64 \<Rightarrow> u64" where
  "count_masked_bytes zmask = drop_bit 56 (zmask * 0x0001020304050608)"

definition has_zero :: "u64 \<Rightarrow> u64" where
  "has_zero a = ((a - one_bits) AND NOT a) AND high_bits"

definition prep_zero_mask :: "u64 \<Rightarrow> u64 \<Rightarrow> u64" where
  "prep_zero_mask a bits = bits"

definition create_zero_mask :: "u64 \<Rightarrow> u64" where
  "create_zero_mask bits = (let bits = (bits - 1) AND NOT bits in drop_bit 7 bits)"

definition find_zero :: "u64 \<Rightarrow> u64" where
  "find_zero zmask = count_masked_bytes zmask"

section \<open>strscpy\<close>

abbreviation (input) E2BIG :: int where "E2BIG \<equiv> 7"

text \<open>
  The loop over words either returns (a length) or goes on with the loop over bytes, with the
  position and the count that are left.
\<close>

function scpy_words :: "u8 list \<Rightarrow> u8 list \<Rightarrow> nat \<Rightarrow> nat \<Rightarrow> nat \<Rightarrow> (u8 list \<times> (nat + nat \<times> nat)) option"
where
  "scpy_words dest src res cnt limit =
     (if limit \<ge> 8 then do {
        c \<leftarrow> load64 src res;
        let data = has_zero c;
        if data \<noteq> 0 then do {
          let data = prep_zero_mask c data;
          let data = create_zero_mask data;
          dest \<leftarrow> store64 dest res (c AND data);
          Some (dest, Inl (res + unat (find_zero data)))
        } else do {
          dest \<leftarrow> store64 dest res c;
          scpy_words dest src (res + 8) (cnt - 8) (limit - 8)
        }
      } else Some (dest, Inr (res, cnt)))"
  by auto
termination by (relation "measure (\<lambda>(_, _, _, _, m). m)") auto

declare scpy_words.simps [simp del]

fun scpy_bytes :: "u8 list \<Rightarrow> u8 list \<Rightarrow> nat \<Rightarrow> nat \<Rightarrow> (u8 list \<times> int) option" where
  "scpy_bytes dest src res 0 =
     (if res \<noteq> 0 then map_option (\<lambda>d. (d, - E2BIG)) (store dest (res - 1) 0)
      else Some (dest, - E2BIG))"
| "scpy_bytes dest src res (Suc n) = do {
     c \<leftarrow> load src res;
     dest \<leftarrow> store dest res c;
     if c = 0 then Some (dest, int res) else scpy_bytes dest src (res + 1) n
   }"

text \<open>\<open>addr\<close> is the address of \<open>src\<close>.\<close>

definition strscpy :: "u64 \<Rightarrow> u8 list \<Rightarrow> u8 list \<Rightarrow> nat \<Rightarrow> (u8 list \<times> int) option" where
  "strscpy addr dest src cnt =
     (if cnt = 0 then Some (dest, - E2BIG)
      else do {
        let limit = (if addr AND 7 \<noteq> 0 then min (4096 - unat (addr AND 4095)) cnt else cnt);
        (dest, r) \<leftarrow> scpy_words dest src 0 cnt limit;
        case r of
          Inl res \<Rightarrow> Some (dest, int res)
        | Inr (res, cnt) \<Rightarrow> scpy_bytes dest src res cnt
      })"

section \<open>memchr\_inv\<close>

text \<open>
  \<open>addr\<close> is the address of the area. The number of words is an \<^verbatim>\<open>unsigned int\<close>: it is the
  quotient reduced to 32 bits.
\<close>

fun inv_words :: "u8 list \<Rightarrow> u8 \<Rightarrow> u64 \<Rightarrow> nat \<Rightarrow> nat \<Rightarrow> nat \<Rightarrow> nat option option" where
  "inv_words m value value64 start 0 tail =
     map_option (map_option ((+) start)) (check_bytes8 (drop start m) value tail)"
| "inv_words m value value64 start (Suc words) tail = do {
     w \<leftarrow> load64 m start;
     if w \<noteq> value64 then map_option (map_option ((+) start)) (check_bytes8 (drop start m) value 8)
     else inv_words m value value64 (start + 8) words tail
   }"

definition memchr_inv :: "u64 \<Rightarrow> u8 list \<Rightarrow> int \<Rightarrow> nat \<Rightarrow> nat option option" where
  "memchr_inv addr m c bytes =
     (let value = word_of_int c in
      if bytes \<le> 16 then check_bytes8 m value bytes
      else
        let value64 = ucast value * 0x0101010101010101;
            pre = unat (addr mod 8) in
        if pre \<noteq> 0 then
          let pre = 8 - pre in
          do {
            r \<leftarrow> check_bytes8 m value pre;
            if r \<noteq> None then Some r
            else let bytes = bytes - pre in
              inv_words m value value64 pre (bytes div 8 mod 2 ^ 32) (bytes mod 8)
          }
        else inv_words m value value64 0 (bytes div 8 mod 2 ^ 32) (bytes mod 8))"

section \<open>Bytes of a word\<close>

lemma bit_le_word: "bit (le_word bs) k \<Longrightarrow> k < 8 * length bs"
proof (induction bs arbitrary: k)
  case (Cons b bs)
  then show ?case
    by (cases "k < 8") (auto simp: bit_simps dest!: Cons.IH dest: bit_imp_le_length)
qed simp

lemma le_bytes_word: "length bs \<le> 8 \<Longrightarrow> le_bytes (length bs) (le_word bs) = bs"
proof (induction bs)
  case (Cons b bs)
  have "ucast (ucast b OR push_bit 8 (le_word bs) :: u64) = b"
    by (rule bit_word_eqI) (auto simp: bit_simps)
  moreover have "drop_bit 8 (ucast b OR push_bit 8 (le_word bs) :: u64) = le_word bs"
    using Cons.prems bit_le_word [of bs] by (intro bit_word_eqI) (fastforce simp: bit_simps dest: bit_imp_le_length)
  ultimately show ?case using Cons by simp
qed simp

fun le_int :: "u8 list \<Rightarrow> int" where
  "le_int [] = 0"
| "le_int (b # bs) = uint b + 256 * le_int bs"

lemma le_word_int: "le_word bs = word_of_int (le_int bs)"
proof (induction bs)
  case (Cons b bs)
  have "ucast b OR push_bit 8 (le_word bs) = ucast b + push_bit 8 (le_word bs)"
    by (rule disjunctive_add [symmetric]) (auto simp: bit_simps dest: bit_imp_le_length)
  also have "\<dots> = word_of_int (uint b) + 256 * word_of_int (le_int bs)"
    using Cons by (simp add: push_bit_eq_mult mult.commute unsigned_ucast_eq)
  finally show ?case by simp
qed simp

section \<open>The first zero byte\<close>

text \<open>The computation of \<^verbatim>\<open>has_zero\<close> on unbounded integers, byte by byte.\<close>

lemma concat_and:
  fixes a b x y :: int
  assumes "0 \<le> a" "a < 2 ^ n" "0 \<le> b" "b < 2 ^ n"
  shows "(a + 2 ^ n * x) AND (b + 2 ^ n * y) = (a AND b) + 2 ^ n * (x AND y)"
proof -
  have c: "u + 2 ^ n * v = concat_bit n u v" if "0 \<le> u" "u < 2 ^ n" for u v :: int
    using that by (simp add: concat_bit_eq push_bit_eq_mult take_bit_int_eq_self)
  have "(a AND b) < 2 ^ n" "0 \<le> a AND b"
    using assms AND_upper1 [of a b] by auto
  then show ?thesis
    unfolding c [OF assms(1,2)] c [OF assms(3,4)] c [OF \<open>0 \<le> a AND b\<close> \<open>(a AND b) < 2 ^ n\<close>]
    by (intro bit_eqI) (auto simp: bit_concat_bit_iff bit_and_iff)
qed

lemma not_concat: "NOT (a + m * x) = (m - 1 - a) + m * (NOT x)" for a m x :: int
  by (simp add: not_int_def algebra_simps)

fun repeat_byte :: "nat \<Rightarrow> int \<Rightarrow> int" where
  "repeat_byte 0 b = 0"
| "repeat_byte (Suc n) b = b + 256 * repeat_byte n b"

definition zero_bits :: "nat \<Rightarrow> int \<Rightarrow> int" where
  "zero_bits n x = ((x - repeat_byte n 1) AND NOT x) AND repeat_byte n 128"

lemma and_128: "0 \<le> x \<Longrightarrow> x < 256 \<Longrightarrow> x AND 128 = (if 128 \<le> x then 128 else 0)" for x :: int
proof -
  assume x: "0 \<le> x" "x < 256"
  have "x AND 128 = ((x mod 128) + 2 ^ 7 * (x div 128)) AND (0 + 2 ^ 7 * 1)" by simp
  also have "\<dots> = 128 * (x div 128 AND 1)" by (subst concat_and) auto
  finally show ?thesis using x by (auto simp: and_one_eq div_eq_dividend_iff)
qed

lemma zero_bits_step:
  assumes "0 \<le> b" "b < 256"
  shows "\<exists>y. zero_bits (Suc n) (b + 256 * x) = (if b = 0 then 128 + 256 * y else 256 * zero_bits n x)"
proof (cases "b = 0")
  case True
  have "256 * x - repeat_byte (Suc n) 1 = 255 + 2 ^ 8 * (x - repeat_byte n 1 - 1)" by simp
  moreover have "NOT (256 * x) = 255 + 2 ^ 8 * NOT x" using not_concat [of 0 256 x] by simp
  moreover have "repeat_byte (Suc n) 128 = 128 + 2 ^ 8 * repeat_byte n 128" by simp
  ultimately have "zero_bits (Suc n) (256 * x) =
      (255 AND 255 AND 128) + 2 ^ 8 * ((x - repeat_byte n 1 - 1) AND NOT x AND repeat_byte n 128)"
    unfolding zero_bits_def and.assoc
    using concat_and [of 255 8 128 "NOT x" "repeat_byte n 128"]
      concat_and [of 255 8 128 "x - repeat_byte n 1 - 1" "NOT x AND repeat_byte n 128"]
    by (simp add: diff_diff_eq add.commute)
  then show ?thesis using True by auto
next
  case False
  have "(b + 256 * x) - repeat_byte (Suc n) 1 = (b - 1) + 2 ^ 8 * (x - repeat_byte n 1)" by simp
  moreover have "NOT (b + 256 * x) = (255 - b) + 2 ^ 8 * NOT x" using not_concat [of b 256 x] by simp
  moreover have "repeat_byte (Suc n) 128 = 128 + 2 ^ 8 * repeat_byte n 128" by simp
  ultimately have "zero_bits (Suc n) (b + 256 * x) =
      ((b - 1) + 2 ^ 8 * (x - repeat_byte n 1)) AND ((255 - b) + 2 ^ 8 * NOT x) AND (128 + 2 ^ 8 * repeat_byte n 128)"
    unfolding zero_bits_def and.assoc by (simp only:)
  also have "\<dots> = ((b - 1) + 2 ^ 8 * (x - repeat_byte n 1)) AND
      (((255 - b) AND 128) + 2 ^ 8 * (NOT x AND repeat_byte n 128))"
    using False assms by (subst concat_and) auto
  also have "\<dots> = ((b - 1) AND (255 - b) AND 128) + 2 ^ 8 * ((x - repeat_byte n 1) AND NOT x AND repeat_byte n 128)"
    using False assms by (subst concat_and) (auto simp: and_128)
  finally have "zero_bits (Suc n) (b + 256 * x) =
      ((b - 1) AND (255 - b) AND 128) + 2 ^ 8 * ((x - repeat_byte n 1) AND NOT x AND repeat_byte n 128)" .
  moreover have "(b - 1) AND (255 - b) AND 128 = 0"
    using False assms by (auto simp: and_128)
  ultimately show ?thesis using False by (simp add: zero_bits_def and.assoc)
qed

lemma uint_u8: "uint (b :: u8) < 256"
  using unsigned_less [of b] by simp

lemma zero_bits_none: "0 \<notin> set bs \<Longrightarrow> zero_bits (length bs) (le_int bs) = 0"
proof (induction bs)
  case (Cons b bs)
  then show ?case
    using zero_bits_step [of "uint b" "length bs" "le_int bs"] by (auto simp: uint_0_iff uint_u8)
qed (simp add: zero_bits_def)

lemma zero_bits_some: "0 \<notin> set u \<Longrightarrow>
    \<exists>y. zero_bits (length (u @ 0 # v)) (le_int (u @ 0 # v)) = 2 ^ (8 * length u + 7) * (2 * y + 1)"
proof (induction u)
  case Nil
  show ?case using zero_bits_step [of 0 "length v" "le_int v"] by (auto simp: algebra_simps)
next
  case (Cons b u)
  then obtain y where "zero_bits (length (u @ 0 # v)) (le_int (u @ 0 # v)) = 2 ^ (8 * length u + 7) * (2 * y + 1)"
    by auto
  then show ?case
    using Cons.prems zero_bits_step [of "uint b" "length (u @ 0 # v)" "le_int (u @ 0 # v)"]
    by (auto simp: uint_0_iff uint_u8 power_add mult.assoc)
qed

lemma lowest_bit_mask: "(2 ^ m * (2 * y + 1) - 1) AND NOT (2 ^ m * (2 * y + 1)) = 2 ^ m - 1" for y :: int
proof -
  have "2 ^ m * (2 * y + 1) - 1 = (2 ^ m - 1) + 2 ^ m * (2 * y)" by (simp add: algebra_simps)
  moreover have "NOT (2 ^ m * (2 * y + 1)) = (2 ^ m - 1) + 2 ^ m * (2 * NOT y)"
    using not_concat [of 0 "2 ^ m" "2 * y + 1"] not_concat [of 1 2 y] by (simp add: ac_simps)
  moreover have "2 * y AND 2 * NOT y = 0"
    using concat_and [of 0 1 0 y "NOT y"] by simp
  moreover have "((2 ^ m - 1) + 2 ^ m * (2 * y)) AND ((2 ^ m - 1) + 2 ^ m * (2 * NOT y)) =
      (2 ^ m - 1) + 2 ^ m * (2 * y AND 2 * NOT y)"
    by (subst concat_and) auto
  ultimately show ?thesis by (simp only: mult_zero_right add_0_right)
qed

lemma has_zero_int:
  assumes "length bs = 8"
  shows "has_zero (le_word bs) = word_of_int (zero_bits 8 (le_int bs))"
proof -
  have "one_bits = word_of_int (repeat_byte 8 1)" "high_bits = word_of_int (repeat_byte 8 128)"
    by (simp_all add: one_bits_def high_bits_def eval_nat_numeral)
  then show ?thesis
    unfolding has_zero_def zero_bits_def le_word_int
    by (simp add: of_int_and_eq of_int_not_eq)
qed

lemma take_bit_le_word: "take_bit (8 * length u) (le_word (u @ w)) = le_word u"
proof (induction u)
  case (Cons b u)
  show ?case
  proof (rule bit_word_eqI)
    fix k assume "k < LENGTH(64)"
    then show "bit (take_bit (8 * length (b # u)) (le_word ((b # u) @ w))) k = bit (le_word (b # u)) k"
      using arg_cong [OF Cons, of "\<lambda>x. bit x (k - 8)"]
      by (cases "k < 8") (auto simp: bit_simps dest: bit_imp_le_length)
  qed
qed simp

lemma le_word_zeros: "le_word (u @ replicate n 0) = le_word u"
proof -
  have "le_word (replicate n 0) = 0" by (induction n) auto
  then show ?thesis by (induction u) auto
qed

lemma count_masked_mask: "k < 8 \<Longrightarrow> unat (count_masked_bytes (mask (8 * k))) = k"
proof -
  assume "k < 8"
  then have "k \<in> {0, 1, 2, 3, 4, 5, 6, 7}" by auto
  then show ?thesis by (auto simp: count_masked_bytes_def mask_eq_exp_minus_1)
qed

text \<open>What the loop of \<^verbatim>\<open>strscpy\<close> uses of the bit tricks.\<close>

lemma has_zero_none: "length bs = 8 \<Longrightarrow> 0 \<notin> set bs \<Longrightarrow> has_zero (le_word bs) = 0"
  using zero_bits_none [of bs] by (simp add: has_zero_int)

lemma has_zero_some:
  assumes "length bs = 8" "bs = u @ 0 # v" "0 \<notin> set u"
  shows "has_zero (le_word bs) \<noteq> 0 \<and>
    create_zero_mask (has_zero (le_word bs)) = mask (8 * length u)"
proof -
  define m where "m = 8 * length u + 7"
  have m: "m < 64" using assms(1,2) by (simp add: m_def)
  obtain y where y: "has_zero (le_word bs) = word_of_int (2 ^ m * (2 * y + 1))"
    using zero_bits_some [OF assms(3), of v] assms by (auto simp: has_zero_int m_def)
  have "bit (2 ^ m * (2 * y + 1)) m"
    by (simp add: bit_push_bit_iff bit_0 flip: push_bit_eq_mult mult.commute [of "2 * y + 1"])
  then have "bit (has_zero (le_word bs)) m" using m unfolding y by (simp only: bit_word_of_int_iff) simp
  then have "has_zero (le_word bs) \<noteq> 0" by auto
  moreover have "create_zero_mask (word_of_int (2 ^ m * (2 * y + 1))) =
      drop_bit 7 (word_of_int ((2 ^ m * (2 * y + 1) - 1) AND NOT (2 ^ m * (2 * y + 1))))"
    by (simp add: create_zero_mask_def of_int_and_eq of_int_not_eq)
  moreover have "drop_bit 7 (word_of_int (2 ^ m - 1) :: u64) = mask (8 * length u)"
  proof -
    have "(word_of_int (2 ^ m - 1) :: u64) = mask m" by (simp add: mask_eq_exp_minus_1)
    then show ?thesis using m
      by (auto intro!: bit_word_eqI simp: bit_simps m_def)
  qed
  ultimately show ?thesis unfolding y lowest_bit_mask by metis
qed

lemma zero_word_bytes:
  assumes "length bs = 8" "bs = u @ 0 # v"
  shows "le_bytes 8 (le_word bs AND mask (8 * length u)) = u @ replicate (8 - length u) 0"
proof -
  have "le_word bs AND mask (8 * length u) = le_word (u @ replicate (8 - length u) 0)"
    using take_bit_le_word [of u "0 # v"] assms(2) by (simp add: le_word_zeros flip: take_bit_eq_mask)
  then show ?thesis
    using le_bytes_word [of "u @ replicate (8 - length u) 0"] assms by simp
qed

section \<open>strscpy agrees with the byte-wise copy\<close>

lemma cstr_append: "cstr (xs @ ys) = (if 0 \<in> set xs then cstr xs else xs @ cstr ys)"
  by (induction xs) auto

lemma cstr_drop: "n \<le> length (cstr s) \<Longrightarrow> cstr s = take n s @ cstr (drop n s)"
proof (induction s arbitrary: n)
  case (Cons c s)
  then show ?case by (cases n) (auto split: if_splits)
qed simp

lemma take_nonzero: "n \<le> length (cstr s) \<Longrightarrow> 0 \<notin> set (take n s)"
  using take_cstr [of n s] cstr_no_nul [of s] by (metis in_set_takeD)

text \<open>
  The copy up to position \<open>res\<close>: \<open>n\<close> is the length of the source, \<open>t\<close> the size of the
  destination.
\<close>

definition copied :: "u8 list \<Rightarrow> u8 list \<Rightarrow> u8 list \<Rightarrow> nat \<Rightarrow> nat \<Rightarrow> bool" where
  "copied d0 d src t res \<longleftrightarrow> length d = length d0 \<and> t \<le> length d0 \<and> drop t d = drop t d0 \<and>
     res \<le> t \<and> res \<le> length (cstr src) \<and> take res d = take res src"

definition copy_done :: "u8 list \<Rightarrow> u8 list \<Rightarrow> u8 list \<Rightarrow> nat \<Rightarrow> int \<Rightarrow> bool" where
  "copy_done d0 d src t r \<longleftrightarrow> length d = length d0 \<and> drop t d = drop t d0 \<and>
     (if length (cstr src) < t then r = int (length (cstr src)) \<and> is_cstr d \<and> cstr d = cstr src
      else r = - E2BIG \<and> is_cstr d \<and> cstr d = take (t - 1) (cstr src))"

lemma copied_here:
  assumes "copied d0 d src t res" "res < length src" "res < t"
  shows "d[res := c] = take res src @ c # drop (Suc res) d"
    and "cstr src = take res src @ (if src ! res = 0 then [] else src ! res # cstr (drop (Suc res) src))"
    and "is_cstr (take res src @ 0 # w)" and "cstr (take res src @ 0 # w) = take res src"
proof -
  show "d[res := c] = take res src @ c # drop (Suc res) d"
    using assms by (auto simp: copied_def upd_conv_take_nth_drop)
  have "drop res src = src ! res # drop (Suc res) src" using assms(2) by (simp add: Cons_nth_drop_Suc)
  then show "cstr src = take res src @ (if src ! res = 0 then [] else src ! res # cstr (drop (Suc res) src))"
    using cstr_drop [of res src] assms(1) by (simp add: copied_def)
  show "is_cstr (take res src @ 0 # w)" by (simp add: is_cstr_append)
  show "cstr (take res src @ 0 # w) = take res src"
    using assms(1) take_nonzero [of res src] by (simp add: copied_def)
qed

lemma copied_end:
  assumes "copied d0 d src res res" "0 < res"
  shows "copy_done d0 (d[res - 1 := 0]) src res (- E2BIG)"
proof -
  have "take (res - 1) d = take (res - 1) (take res d)" by simp
  also have "\<dots> = take (res - 1) (cstr src)"
    using assms take_cstr [of "res - 1" src] by (auto simp: copied_def)
  finally have "d[res - 1 := 0] = take (res - 1) (cstr src) @ 0 # drop res d"
    using assms by (auto simp: copied_def upd_conv_take_nth_drop)
  moreover have "0 \<notin> set (take (res - 1) (cstr src))" using cstr_no_nul [of src] by (blast dest: in_set_takeD)
  ultimately show ?thesis
    using assms by (auto simp: copied_def copy_done_def is_cstr_append)
qed

lemma scpy_bytes_done:
  assumes "copied d0 d src (res + cnt) res" "0 < res + cnt"
    "min (res + cnt) (length (cstr src) + 1) \<le> length src"
  shows "\<exists>d' r. scpy_bytes d src res cnt = Some (d', r) \<and> copy_done d0 d' src (res + cnt) r"
  using assms
proof (induction cnt arbitrary: d res)
  case 0
  then show ?case using copied_end [of d0 d src res] by (auto simp: copied_def store_def)
next
  case (Suc cnt)
  have res: "res < length src" "res < res + Suc cnt" using Suc.prems by (auto simp: copied_def)
  note here = copied_here [OF Suc.prems(1) res]
  define d1 where "d1 = d[res := src ! res]"
  have io: "load src res = Some (src ! res)" "store d res (src ! res) = Some d1"
    using Suc.prems res by (auto simp: copied_def load_def store_def d1_def)
  have frame: "length d1 = length d0" "drop (res + Suc cnt) d1 = drop (res + Suc cnt) d0"
    using Suc.prems(1) by (auto simp: copied_def d1_def)
  show ?case
  proof (cases "src ! res = 0")
    case True
    have "copy_done d0 d1 src (res + Suc cnt) (int res)"
      using frame here(2,3,4) True res(1) unfolding copy_done_def
      by (simp add: d1_def here(1) del: length_append drop_append length_list_update)
    then show ?thesis using io True by auto
  next
    case False
    have "Suc res \<le> length (cstr src)" using here(2) False res(1) by auto
    moreover have "take (Suc res) d1 = take (Suc res) src"
      using here(1) [of "src ! res"] res(1) by (simp add: d1_def take_Suc_conv_app_nth)
    ultimately have "copied d0 d1 src (Suc res + cnt) (Suc res)"
      using frame Suc.prems(1) by (simp add: copied_def)
    then show ?thesis using Suc.IH [of d1 "Suc res"] Suc.prems io False by auto
  qed
qed

lemma readable_word:
  assumes "res mod 8 = 0" "res \<le> n" "res + 8 \<le> t" "min t (8 * (n div 8 + 1)) \<le> len"
  shows "res + 8 \<le> (len :: nat)"
proof -
  obtain q where q: "res = 8 * q" using assms(1) by (metis mod_0_imp_dvd dvdE)
  then have "q \<le> n div 8" using assms(2) by (simp add: less_eq_div_iff_mult_less_eq)
  then have "res + 8 \<le> 8 * (n div 8 + 1)" using q by simp
  then show ?thesis using assms(3,4) by linarith
qed

lemma copied_word:
  assumes "copied d0 d src t res" "res + 8 \<le> t" "res + 8 \<le> length src"
    and "bs = take 8 (drop res src)"
  shows "length bs = 8" and "load64 src res = Some (le_word bs)"
    and "length w = 8 \<Longrightarrow> le_bytes 8 v = w \<Longrightarrow> store64 d res v = Some (take res src @ w @ drop (res + 8) d)"
    and "cstr src = take res src @ cstr (bs @ drop (res + 8) src)"
    and "length (take res src) = res"
proof -
  show "length bs = 8" "load64 src res = Some (le_word bs)" "length (take res src) = res"
    using assms by (auto simp: load64_def)
  show "store64 d res v = Some (take res src @ w @ drop (res + 8) d)" if "length w = 8" "le_bytes 8 v = w"
    using assms that by (auto simp: store64_def copied_def)
  have "drop res src = bs @ drop (res + 8) src"
    unfolding assms(4) by (metis append_take_drop_id drop_drop add.commute)
  then show "cstr src = take res src @ cstr (bs @ drop (res + 8) src)"
    using assms(1) cstr_drop [of res src] by (simp add: copied_def)
qed

lemma word_stored:
  assumes "copied d0 d src t res" "res + 8 \<le> t" "res + 8 \<le> length src" "length w = 8"
  shows "length (take res src @ w @ drop (res + 8) d) = length d0"
    and "drop t (take res src @ w @ drop (res + 8) d) = drop t d0"
proof -
  have "length (take res src @ w) = res + 8" using assms(3,4) by simp
  then show "length (take res src @ w @ drop (res + 8) d) = length d0"
    using assms by (simp add: copied_def)
  have "drop t (take res src @ w @ drop (res + 8) d) = drop t ((take res src @ w) @ drop (res + 8) d)"
    by simp
  also have "\<dots> = drop t d"
    using assms(2) \<open>length (take res src @ w) = res + 8\<close> by (simp only: drop_append) simp
  finally show "drop t (take res src @ w @ drop (res + 8) d) = drop t d0"
    using assms(1) by (simp add: copied_def)
qed

lemma scpy_words_copied:
  assumes "copied d0 d src (res + cnt) res" "limit \<le> cnt" "res mod 8 = 0"
    "min (res + cnt) (8 * (length (cstr src) div 8 + 1)) \<le> length src"
  shows "\<exists>d' r. scpy_words d src res cnt limit = Some (d', r) \<and>
    (case r of
       Inl k \<Rightarrow> copy_done d0 d' src (res + cnt) (int k)
     | Inr (res', cnt') \<Rightarrow> res' + cnt' = res + cnt \<and> copied d0 d' src (res + cnt) res')"
  using assms
proof (induction limit arbitrary: d res cnt rule: less_induct)
  case (less limit)
  show ?case
  proof (cases "8 \<le> limit")
    case True
    let ?bs = "take 8 (drop res src)"
    have t: "res + 8 \<le> res + cnt" using True less.prems(2) by simp
    have len: "res + 8 \<le> length src"
      using readable_word [OF less.prems(3) _ t less.prems(4)] less.prems(1) by (simp add: copied_def)
    note w = copied_word [OF less.prems(1) t len refl] and st = word_stored [OF less.prems(1) t len]
    show ?thesis
    proof (cases "0 \<in> set ?bs")
      case zero: True
      then obtain u v where bs: "?bs = u @ 0 # v" "0 \<notin> set u" by (metis split_list_first)
      let ?d = "take res src @ (u @ replicate (8 - length u) 0) @ drop (res + 8) d"
      note z = has_zero_some [OF w(1) bs] zero_word_bytes [OF w(1) bs(1)]
      have u: "length u < 8" using w(1) bs(1) by (metis length_append length_Cons less_add_Suc1 add_Suc_right)
      have src: "cstr src = take res src @ u"
        using w(4) bs by (simp add: cstr_append)
      have "scpy_words d src res cnt limit = Some (?d, Inl (res + length u))"
        using True z u w(2) count_masked_mask [OF u]
          w(3) [of "u @ replicate (8 - length u) 0" "le_word ?bs AND mask (8 * length u)"]
        by (subst scpy_words.simps) (simp add: prep_zero_mask_def find_zero_def)
      moreover have "is_cstr ?d" "cstr ?d = cstr src"
      proof -
        have eq: "?d = cstr src @ 0 # (replicate (7 - length u) 0 @ drop (res + 8) d)"
          using u by (simp add: src Suc_diff_le flip: replicate_Suc)
        show "is_cstr ?d" "cstr ?d = cstr src" unfolding eq by (simp_all add: is_cstr_append)
      qed
      ultimately show ?thesis
        using st [of "u @ replicate (8 - length u) 0"] u src w(5) t
        by (simp add: copy_done_def add.commute)
    next
      case False
      let ?d = "take res src @ ?bs @ drop (res + 8) d"
      have "scpy_words d src res cnt limit = scpy_words ?d src (res + 8) (cnt - 8) (limit - 8)"
        using True False w(1,2) has_zero_none [of ?bs] le_bytes_word [of ?bs]
          w(3) [of ?bs "le_word ?bs"]
        by (subst scpy_words.simps) simp
      moreover have "copied d0 ?d src (res + cnt) (res + 8)"
        using st [OF w(1)] t less.prems(1) w(1,4,5) False
        by (simp add: copied_def cstr_append take_add del: length_take)
      moreover have eq: "res + 8 + (cnt - 8) = res + cnt" and "limit - 8 \<le> cnt - 8"
        using t less.prems(2) by auto
      ultimately show ?thesis
        using less.IH [of "limit - 8" ?d "res + 8" "cnt - 8", unfolded eq] less.prems(3,4) True by simp
    qed
  next
    case False
    then show ?thesis using less.prems by (subst scpy_words.simps) simp
  qed
qed

text \<open>
  C11: \<^verbatim>\<open>strscpy\<close> copies the string, or as much of it as fits, and always leaves a terminated
  string in a destination of non-zero size; it returns the number of characters copied, or
  \<^verbatim>\<open>-E2BIG\<close> when the source does not fit, and writes nothing past the size it is given. The word
  loop with its bit tricks, the switch to single bytes before a page boundary and the byte
  loop give the same result for every alignment of the source. The hypothesis on the source is
  that memory is readable up to the end of the word that holds its terminator, or up to the
  count if that is less.
\<close>

theorem strscpy_copies:
  assumes "cnt \<le> length dest" "min cnt (8 * (length (cstr src) div 8 + 1)) \<le> length src" "0 < cnt"
  shows "\<exists>d r. strscpy addr dest src cnt = Some (d, r) \<and>
    length d = length dest \<and> drop cnt d = drop cnt dest \<and> is_cstr d \<and>
    (if length (cstr src) < cnt then r = int (length (cstr src)) \<and> cstr d = cstr src
     else r = - E2BIG \<and> cstr d = take (cnt - 1) (cstr src))"
proof -
  define limit where
    "limit = (if addr AND 7 \<noteq> 0 then min (4096 - unat (addr AND 4095)) cnt else cnt)"
  have start: "copied dest dest src (0 + cnt) 0" "limit \<le> cnt"
    using assms(1) by (auto simp: copied_def limit_def)
  obtain d r where w: "scpy_words dest src 0 cnt limit = Some (d, r)"
    "case r of
       Inl k \<Rightarrow> copy_done dest d src cnt (int k)
     | Inr (res', cnt') \<Rightarrow> res' + cnt' = cnt \<and> copied dest d src cnt res'"
    using scpy_words_copied [OF start] assms(2) by (simp only: add_0 mod_0) blast
  have "\<exists>d r. strscpy addr dest src cnt = Some (d, r) \<and> copy_done dest d src cnt r"
  proof (cases r)
    case (Inl k)
    then show ?thesis using w assms(3) by (auto simp: strscpy_def limit_def Let_def)
  next
    case (Inr p)
    obtain res' cnt' where p: "p = (res', cnt')" by (cases p)
    have "length (cstr src) + 1 \<le> 8 * (length (cstr src) div 8 + 1)"
      using dividend_less_div_times [of 8 "length (cstr src)"] by simp
    then have "min (res' + cnt') (length (cstr src) + 1) \<le> length src"
      using assms(2) w(2) Inr p by auto
    then obtain d' r' where "scpy_bytes d src res' cnt' = Some (d', r')" "copy_done dest d' src cnt r'"
      using scpy_bytes_done [of dest d src res' cnt'] w(2) Inr p assms(3) by auto
    then show ?thesis using w(1) Inr p assms(3) by (auto simp: strscpy_def limit_def Let_def)
  qed
  then show ?thesis by (auto simp: copy_done_def split: if_splits)
qed

theorem strscpy_copies_witness:
  "\<exists>d r. strscpy 0x1000 [1, 2, 3, 4] [97, 98, 0, 0, 0, 0, 0, 0] 4 = Some (d, r) \<and>
    length d = length [1, 2, 3, 4 :: u8] \<and> drop 4 d = drop 4 [1, 2, 3, 4] \<and> is_cstr d \<and>
    (if length (cstr [97, 98, 0, 0, 0, 0, 0, 0]) < 4
     then r = int (length (cstr [97, 98, 0, 0, 0, 0, 0, 0])) \<and> cstr d = cstr [97, 98, 0, 0, 0, 0, 0, 0]
     else r = - E2BIG \<and> cstr d = take (4 - 1) (cstr [97, 98, 0, 0, 0, 0, 0, 0]))"
  by (rule strscpy_copies) simp_all

section \<open>memchr\_inv agrees with the byte-wise search\<close>

lemma le_word_inject: "length bs = 8 \<Longrightarrow> length cs = 8 \<Longrightarrow> le_word bs = le_word cs \<longleftrightarrow> bs = cs"
  by (metis le_bytes_word order_refl)

lemma value64_replicate: "ucast v * 0x0101010101010101 = le_word (replicate 8 v)"
proof -
  have "le_int (replicate 8 v) = uint v * 0x0101010101010101" by (simp add: eval_nat_numeral)
  then show ?thesis by (simp add: le_word_int unsigned_ucast_eq)
qed

lemma plus_0_id: "(+) (0 :: nat) = id"
  by auto

lemma check_bytes8_add: "a \<le> length m \<Longrightarrow>
    check_bytes8 m v (a + b) =
      (if take a m = replicate a v then map_option (map_option ((+) a)) (check_bytes8 (drop a m) v b)
       else check_bytes8 m v a)"
proof (induction m v a rule: check_bytes8.induct)
  case (1 s v)
  show ?case by (simp add: plus_0_id option.map_id0)
next
  case (2 x s v n)
  then show ?case
    by (cases "check_bytes8 (drop n s) v b") (auto simp: option.map_comp comp_def)
qed simp

lemma check_bytes8_none: "n \<le> length m \<Longrightarrow>
    \<exists>r. check_bytes8 m v n = Some r \<and> (r = None \<longleftrightarrow> take n m = replicate n v)"
  by (induction m v n rule: check_bytes8.induct) auto

lemma inv_words_check:
  assumes "start + 8 * words + tail \<le> length m"
  shows "inv_words m v (le_word (replicate 8 v)) start words tail =
    map_option (map_option ((+) start)) (check_bytes8 (drop start m) v (8 * words + tail))"
  using assms
proof (induction words arbitrary: start)
  case (Suc words)
  let ?bs = "take 8 (drop start m)"
  have ld: "load64 m start = Some (le_word ?bs)" "length ?bs = 8"
    using Suc.prems by (auto simp: load64_def)
  have eq: "le_word ?bs = le_word (replicate 8 v) \<longleftrightarrow> ?bs = replicate 8 v"
    using ld(2) by (intro le_word_inject) auto
  have split: "check_bytes8 (drop start m) v (8 * Suc words + tail) =
      (if ?bs = replicate 8 v
       then map_option (map_option ((+) 8)) (check_bytes8 (drop (start + 8) m) v (8 * words + tail))
       else check_bytes8 (drop start m) v 8)"
    using check_bytes8_add [of 8 "drop start m" v "8 * words + tail"] Suc.prems
    by (simp add: add.commute [of 8 start] add.assoc)
  show ?case
    using Suc.IH [of "start + 8"] Suc.prems ld(1) eq split
    by (simp add: option.map_comp comp_def add.assoc)
qed simp

text \<open>
  C26: \<^verbatim>\<open>memchr_inv\<close>, which compares whole words once it has reached an aligned address, finds
  the same first differing byte as the byte-wise search, whatever the alignment of the area,
  for every area of less than 32 GiB.
\<close>

theorem memchr_inv_bytewise:
  assumes "bytes \<le> length m" "bytes < 2 ^ 35"
  shows "memchr_inv addr m c bytes = check_bytes8 m (word_of_int c) bytes"
proof (cases "bytes \<le> 16")
  case False
  define pre where "pre = (if addr mod 8 = 0 then 0 else 8 - unat (addr mod 8))"
  define n where "n = bytes - pre"
  define v w where "v = (word_of_int c :: u8)" and "w = le_word (replicate 8 v)"
  have pre: "pre \<le> 8" "pre + n = bytes" using False by (auto simp: pre_def n_def)
  have "n < 2 ^ 32 * 8" using assms(2) pre(2) by simp
  then have words: "n div 8 mod 2 ^ 32 = n div 8" "8 * (n div 8) + n mod 8 = n"
    by (simp_all only: less_mult_imp_div_less mod_less mult_div_mod_eq)
  have iw: "inv_words m v (w) pre (n div 8) (n mod 8) =
      map_option (map_option ((+) pre)) (check_bytes8 (drop pre m) v n)"
    using inv_words_check [of pre "n div 8" "n mod 8" m v, folded w_def] words(2) pre assms(1)
    by (simp add: add.assoc)
  have split: "check_bytes8 m v bytes =
      (if take pre m = replicate pre v then map_option (map_option ((+) pre)) (check_bytes8 (drop pre m) v n)
       else check_bytes8 m v pre)"
    using check_bytes8_add [of pre m v n] pre assms(1) False by simp
  have pres: "\<exists>r. check_bytes8 m v pre = Some r \<and> (r = None \<longleftrightarrow> take pre m = replicate pre v)"
    using pre assms(1) by (intro check_bytes8_none) auto
  show ?thesis 
  proof (cases "addr mod 8 = 0")
    case True
    then have z: "pre = 0" "n = bytes" by (auto simp: pre_def n_def)
    have "memchr_inv addr m c bytes =
        inv_words m v (w) 0 (bytes div 8 mod 2 ^ 32) (bytes mod 8)"
      using False True by (simp only: memchr_inv_def Let_def value64_replicate v_def [symmetric] w_def [symmetric] unat_0 if_not_P simp_thms if_False)
    also have "\<dots> = check_bytes8 m v bytes"
      using iw unfolding words(1) [unfolded z(2)] z by (simp add: plus_0_id option.map_id0)
    finally show ?thesis by (simp only: v_def)
  next
    case unaligned: False
    then have "unat (addr mod 8) \<noteq> 0" by (simp only: unsigned_eq_0_iff not_False_eq_True)
    then have "memchr_inv addr m c bytes = do {
        r \<leftarrow> check_bytes8 m v pre;
        if r \<noteq> None then Some r
        else inv_words m v (w) pre (n div 8 mod 2 ^ 32) (n mod 8)
      }"
      using False unaligned by (simp only: memchr_inv_def Let_def value64_replicate v_def [symmetric] w_def [symmetric] pre_def n_def
          if_not_P if_P simp_thms)
    also have "\<dots> = check_bytes8 m v bytes"
      using pres unfolding words(1) iw split by (cases "take pre m = replicate pre v") auto
    finally show ?thesis by (simp only: v_def)
  qed
qed (simp add: memchr_inv_def)

theorem memchr_inv_bytewise_witness:
  "memchr_inv 0x1003 (replicate 19 7 @ [9]) 7 20 = check_bytes8 (replicate 19 7 @ [9]) (word_of_int 7) 20"
  by (rule memchr_inv_bytewise) simp_all

text \<open>
  The bound is sharp: the number of words is computed in an \<^verbatim>\<open>unsigned int\<close>, and no byte of an
  aligned area of exactly 32 GiB is looked at.
\<close>

lemma memchr_inv_words_truncated: "memchr_inv 0x1000 m c (2 ^ 35) = Some None"
  by (simp add: memchr_inv_def Let_def)

end
