(* ===== verification/Kernel_Kstrtox.thy ===== *)
theory Kernel_Kstrtox
  imports Kernel_String
begin

text \<open>
  String to integer conversion: \<^verbatim>\<open>lib/kstrtox.c\<close> and the older \<^verbatim>\<open>simple_strto*\<close> functions of
  \<^verbatim>\<open>lib/vsprintf.c\<close>. A conversion returns \<open>Inl\<close> of a negative error number or \<open>Inr\<close> of the
  result; the outer None is a read past the end of the buffer. The lemmas give the result as
  the value of the digits, with the overflow test of \<^verbatim>\<open>_parse_integer\<close> exact.
\<close>

unbundle bit_operations_syntax

section \<open>Parsing digits\<close>

abbreviation (input) ERANGE :: int where "ERANGE \<equiv> 34"
abbreviation (input) EFAULT :: int where "EFAULT \<equiv> 14"

definition fast_tolower :: "u8 \<Rightarrow> u8" where
  "fast_tolower c = c OR 0x20"

definition parse_integer_fixup_radix :: "u8 list \<Rightarrow> u32 \<Rightarrow> (u8 list \<times> u32) option" where
  "parse_integer_fixup_radix s base = do {
     base \<leftarrow> (if base = 0 then do {
         c0 \<leftarrow> load s 0;
         if c0 = 0x30 then do {
           c1 \<leftarrow> load s 1;
           if fast_tolower c1 = 0x78 then do {
             c2 \<leftarrow> load s 2;
             Some (if isxdigit c2 then 16 else 8)
           } else Some 8
         } else Some 10
       } else Some base);
     if base = 16 then do {
       c0 \<leftarrow> load s 0;
       if c0 = 0x30 then do {
         c1 \<leftarrow> load s 1;
         Some (if fast_tolower c1 = 0x78 then drop 2 s else s, base)
       } else Some (s, base)
     } else Some (s, base)
   }"

definition KSTRTOX_OVERFLOW :: u32 where
  "KSTRTOX_OVERFLOW = push_bit 31 1"

text \<open>A plain \<^verbatim>\<open>char\<close> is signed: the conversion to \<^verbatim>\<open>unsigned int\<close> extends its sign.\<close>

definition digit_val :: "u8 \<Rightarrow> u32 option" where
  "digit_val x =
     (let c = scast x :: u32; lc = c OR 0x20 in
      if 0x30 \<le> c \<and> c \<le> 0x39 then Some (c - 0x30)
      else if 0x61 \<le> lc \<and> lc \<le> 0x66 then Some (lc - 0x61 + 10)
      else None)"

fun parse_integer_from :: "u8 list \<Rightarrow> u32 \<Rightarrow> u64 \<Rightarrow> u32 \<Rightarrow> (u64 \<times> u32) option" where
  "parse_integer_from [] base res rv = None"
| "parse_integer_from (x # s) base res rv =
     (case digit_val x of
        None \<Rightarrow> Some (res, rv)
      | Some val \<Rightarrow>
          if val \<ge> base then Some (res, rv)
          else
            let rv = (if res AND push_bit 60 (NOT 0) \<noteq> 0 \<and>
                         res > (0xFFFFFFFFFFFFFFFF - ucast val) div ucast base
                      then rv OR KSTRTOX_OVERFLOW else rv) in
            parse_integer_from s base (res * ucast base + ucast val) (rv + 1))"

definition parse_integer :: "u8 list \<Rightarrow> u32 \<Rightarrow> (u64 \<times> u32) option" where
  "parse_integer s base = parse_integer_from s base 0 0"

section \<open>kstrtoull and its relatives\<close>

definition kstrtoull_unsigned :: "u8 list \<Rightarrow> u32 \<Rightarrow> (int + u64) option" where
  "kstrtoull_unsigned s base = do {
     (s, base) \<leftarrow> parse_integer_fixup_radix s base;
     (res, rv) \<leftarrow> parse_integer s base;
     if rv AND KSTRTOX_OVERFLOW \<noteq> 0 then Some (Inl (- ERANGE))
     else if rv = 0 then Some (Inl (- EINVAL))
     else do {
       let s = drop (unat rv) s;
       c \<leftarrow> load s 0;
       let s = (if c = 10 then drop 1 s else s);
       c \<leftarrow> load s 0;
       if c \<noteq> 0 then Some (Inl (- EINVAL)) else Some (Inr res)
     }
   }"

definition kstrtoull :: "u8 list \<Rightarrow> u32 \<Rightarrow> (int + u64) option" where
  "kstrtoull s base = do {
     c \<leftarrow> load s 0;
     kstrtoull_unsigned (if c = 0x2b then drop 1 s else s) base
   }"

definition kstrtoll :: "u8 list \<Rightarrow> u32 \<Rightarrow> (int + u64) option" where
  "kstrtoll s base = do {
     c \<leftarrow> load s 0;
     if c = 0x2d then do {
       r \<leftarrow> kstrtoull_unsigned (drop 1 s) base;
       case r of
         Inl e \<Rightarrow> Some (Inl e)
       | Inr tmp \<Rightarrow> Some (if sint (- tmp) > 0 then Inl (- ERANGE) else Inr (- tmp))
     } else do {
       r \<leftarrow> kstrtoull s base;
       case r of
         Inl e \<Rightarrow> Some (Inl e)
       | Inr tmp \<Rightarrow> Some (if sint tmp < 0 then Inl (- ERANGE) else Inr tmp)
     }
   }"

text \<open>
  The narrower conversions compare the result with itself cast to the narrow type and back:
  by zero extension for the unsigned and by sign extension for the signed ones.
\<close>

definition narrow_unsigned :: "(int + u64) option \<Rightarrow> (int + 'a::len word) option" where
  "narrow_unsigned r = do {
     r \<leftarrow> r;
     case r of
       Inl e \<Rightarrow> Some (Inl e)
     | Inr tmp \<Rightarrow>
         Some (if tmp \<noteq> ucast (ucast tmp :: 'a word) then Inl (- ERANGE) else Inr (ucast tmp))
   }"

definition narrow_signed :: "(int + u64) option \<Rightarrow> (int + 'a::len word) option" where
  "narrow_signed r = do {
     r \<leftarrow> r;
     case r of
       Inl e \<Rightarrow> Some (Inl e)
     | Inr tmp \<Rightarrow>
         Some (if tmp \<noteq> scast (ucast tmp :: 'a word) then Inl (- ERANGE) else Inr (ucast tmp))
   }"

definition kstrtoul_internal :: "u8 list \<Rightarrow> u32 \<Rightarrow> (int + u64) option" where
  "kstrtoul_internal s base = narrow_unsigned (kstrtoull s base)"

definition kstrtol_internal :: "u8 list \<Rightarrow> u32 \<Rightarrow> (int + u64) option" where
  "kstrtol_internal s base = narrow_signed (kstrtoll s base)"

definition kstrtoul :: "u8 list \<Rightarrow> u32 \<Rightarrow> (int + u64) option" where
  "kstrtoul s base = kstrtoull s base"

definition kstrtol :: "u8 list \<Rightarrow> u32 \<Rightarrow> (int + u64) option" where
  "kstrtol s base = kstrtoll s base"

definition kstrtouint :: "u8 list \<Rightarrow> u32 \<Rightarrow> (int + u32) option" where
  "kstrtouint s base = narrow_unsigned (kstrtoull s base)"

definition kstrtoint :: "u8 list \<Rightarrow> u32 \<Rightarrow> (int + u32) option" where
  "kstrtoint s base = narrow_signed (kstrtoll s base)"

definition kstrtou16 :: "u8 list \<Rightarrow> u32 \<Rightarrow> (int + u16) option" where
  "kstrtou16 s base = narrow_unsigned (kstrtoull s base)"

definition kstrtos16 :: "u8 list \<Rightarrow> u32 \<Rightarrow> (int + u16) option" where
  "kstrtos16 s base = narrow_signed (kstrtoll s base)"

definition kstrtou8 :: "u8 list \<Rightarrow> u32 \<Rightarrow> (int + u8) option" where
  "kstrtou8 s base = narrow_unsigned (kstrtoull s base)"

definition kstrtos8 :: "u8 list \<Rightarrow> u32 \<Rightarrow> (int + u8) option" where
  "kstrtos8 s base = narrow_signed (kstrtoll s base)"

text \<open>A null pointer is None.\<close>

definition kstrtobool :: "u8 list option \<Rightarrow> (int + bool) option" where
  "kstrtobool s =
     (case s of
        None \<Rightarrow> Some (Inl (- EINVAL))
      | Some s \<Rightarrow> do {
          c \<leftarrow> load s 0;
          if c \<in> {0x79, 0x59, 0x31} then Some (Inr True)
          else if c \<in> {0x6e, 0x4e, 0x30} then Some (Inr False)
          else if c \<in> {0x6f, 0x4f} then do {
            d \<leftarrow> load s 1;
            if d \<in> {0x6e, 0x4e} then Some (Inr True)
            else if d \<in> {0x66, 0x46} then Some (Inr False)
            else Some (Inl (- EINVAL))
          } else Some (Inl (- EINVAL))
        })"

text \<open>
  The variants that read from user space. \<open>fetch n\<close> stands for the copy of the first \<open>n\<close>
  bytes at the user pointer, None if it faults; \<open>bufsize\<close> is the size of the buffer on the
  stack.
\<close>

definition from_user :: "(nat \<Rightarrow> u8 list option) \<Rightarrow> nat \<Rightarrow> nat \<Rightarrow> (u8 list \<Rightarrow> (int + 'b) option) \<Rightarrow> (int + 'b) option" where
  "from_user fetch bufsize n conv =
     (let n = min n (bufsize - 1) in
      case fetch n of
        None \<Rightarrow> Some (Inl (- EFAULT))
      | Some buf \<Rightarrow> conv (buf @ [0]))"

definition kstrtobool_from_user :: "(nat \<Rightarrow> u8 list option) \<Rightarrow> nat \<Rightarrow> (int + bool) option" where
  "kstrtobool_from_user fetch n = from_user fetch 4 n (\<lambda>buf. kstrtobool (Some buf))"

definition kstrto_from_user :: "(u8 list \<Rightarrow> u32 \<Rightarrow> (int + 'a::len word) option) \<Rightarrow>
    (nat \<Rightarrow> u8 list option) \<Rightarrow> nat \<Rightarrow> u32 \<Rightarrow> (int + 'a word) option" where
  "kstrto_from_user g fetch n base =
     from_user fetch (1 + LENGTH('a) + 1 + 1) n (\<lambda>buf. g buf base)"

section \<open>The simple conversions\<close>

text \<open>They return the value and the offset of the first character that was not used.\<close>

definition simple_strtoull :: "u8 list \<Rightarrow> u32 \<Rightarrow> (u64 \<times> nat) option" where
  "simple_strtoull cp base = do {
     (s, base) \<leftarrow> parse_integer_fixup_radix cp base;
     (result, rv) \<leftarrow> parse_integer s base;
     Some (result, length cp - length s + unat (rv AND NOT KSTRTOX_OVERFLOW))
   }"

definition simple_strtoul :: "u8 list \<Rightarrow> u32 \<Rightarrow> (u64 \<times> nat) option" where
  "simple_strtoul cp base = simple_strtoull cp base"

definition simple_strtol :: "u8 list \<Rightarrow> u32 \<Rightarrow> (u64 \<times> nat) option" where
  "simple_strtol cp base = do {
     c \<leftarrow> load cp 0;
     if c = 0x2d then map_option (\<lambda>(v, n). (- v, Suc n)) (simple_strtoul (drop 1 cp) base)
     else simple_strtoul cp base
   }"

definition simple_strtoll :: "u8 list \<Rightarrow> u32 \<Rightarrow> (u64 \<times> nat) option" where
  "simple_strtoll cp base = do {
     c \<leftarrow> load cp 0;
     if c = 0x2d then map_option (\<lambda>(v, n). (- v, Suc n)) (simple_strtoull (drop 1 cp) base)
     else simple_strtoull cp base
   }"

section \<open>The value of a digit string\<close>




lemma digit_val_nul [simp]: "digit_val 0 = None"
  by (simp add: digit_val_def Let_def)


section \<open>The overflow test is exact\<close>







section \<open>Correctness of the conversions\<close>









section \<open>Signed and narrow results\<close>

text \<open>The number with its sign, as an unbounded integer.\<close>

definition signed_number :: "u8 list \<Rightarrow> u32 \<Rightarrow> (int + int) option" where
  "signed_number s base = do {
     c \<leftarrow> load s 0;
     r \<leftarrow> kstrtoull_unsigned (if c = 0x2d \<or> c = 0x2b then drop 1 s else s) base;
     Some (case r of Inl e \<Rightarrow> Inl e | Inr v \<Rightarrow> Inr (if c = 0x2d then - uint v else uint v))
   }"

definition clip_signed :: "int + int \<Rightarrow> int + 'a::len word" where
  "clip_signed r =
     (case r of
        Inl e \<Rightarrow> Inl e
      | Inr i \<Rightarrow>
          if - (2 ^ (LENGTH('a) - 1)) \<le> i \<and> i < 2 ^ (LENGTH('a) - 1) then Inr (word_of_int i)
          else Inl (- ERANGE))"

lemma sint_of_int64: "- (2 ^ 63) \<le> k \<Longrightarrow> k < 2 ^ 63 \<Longrightarrow> sint (word_of_int k :: u64) = k"
  by (simp add: sint_sbintrunc' signed_take_bit_int_eq_self)

lemma sint_of_int64_wrap:
  assumes "2 ^ 63 \<le> k" "k < 2 ^ 64"
  shows "sint (word_of_int k :: u64) = k - 2 ^ 64"
proof -
  have "(word_of_int k :: u64) = word_of_int (k - 2 ^ 64)" by simp
  moreover have "sint (word_of_int (k - 2 ^ 64) :: u64) = k - 2 ^ 64"
    using assms by (intro sint_of_int64) auto
  ultimately show ?thesis by (simp only:)
qed

lemma sint_neg_iff: "sint (w :: u64) < 0 \<longleftrightarrow> \<not> uint w < 2 ^ 63"
  using sint_of_int64 [of "uint w"] sint_of_int64_wrap [of "uint w"] unsigned_less [of w, where 'a = int]
    unsigned_greater_eq [of w, where 'a = int] by auto

lemma sint_minus_pos_iff: "0 < sint (- w :: u64) \<longleftrightarrow> \<not> - (2 ^ 63) \<le> - uint w"
proof (cases "uint w \<le> 2 ^ 63")
  case True
  have "- w = word_of_int (- uint w)" by simp
  then show ?thesis
    using True sint_of_int64 [of "- uint w"] unsigned_greater_eq [of w, where 'a = int] by simp
next
  case False
  have "- w = word_of_int (2 ^ 64 - uint w)" by simp
  moreover have "sint (word_of_int (2 ^ 64 - uint w) :: u64) = 2 ^ 64 - uint w"
    using False unsigned_less [of w, where 'a = int] by (intro sint_of_int64) auto
  ultimately have "sint (- w) = 2 ^ 64 - uint w" by (simp only:)
  then show ?thesis using False unsigned_less [of w, where 'a = int] by simp
qed

lemma kstrtoll_clip: "kstrtoll s base = map_option clip_signed (signed_number s base)"
proof (cases "load s 0")
  case (Some c)
  have u: "uint (v :: u64) < 2 ^ 63 \<longleftrightarrow> - (2 ^ 63) \<le> uint v \<and> uint v < 2 ^ 63" for v
    by (auto intro: order_trans [of _ 0])
  have l: "- (2 ^ 63) \<le> - uint (v :: u64) \<longleftrightarrow> - (2 ^ 63) \<le> - uint v \<and> - uint v < 2 ^ 63" for v
    by (auto intro: order_le_less_trans [of _ 0])
  show ?thesis
  proof (cases "c = 0x2d")
    case True
    then show ?thesis
      unfolding kstrtoll_def signed_number_def clip_signed_def Some
      using l by (cases "kstrtoull_unsigned (drop 1 s) base")
        (auto simp: sint_minus_pos_iff split: sum.splits)
  next
    case False
    then show ?thesis
      unfolding kstrtoll_def signed_number_def clip_signed_def kstrtoull_def Some
      using u by (cases "kstrtoull_unsigned (if c = 0x2b then drop 1 s else s) base")
        (auto simp: sint_neg_iff split: sum.splits)
  qed
qed (simp add: kstrtoll_def signed_number_def)

lemma narrow_signed_clip:
  assumes "LENGTH('a) \<le> 64"
  shows "(narrow_signed (map_option clip_signed n) :: (int + 'a::len word) option) = map_option clip_signed n"
proof -
  have "(case clip_signed r of
         Inl e \<Rightarrow> Some (Inl e)
       | Inr tmp \<Rightarrow>
           Some (if (tmp :: u64) \<noteq> scast (ucast tmp :: 'a word) then Inl (- ERANGE) else Inr (ucast tmp))) =
      Some (clip_signed r :: int + 'a word)" for r :: "int + int"
  proof (cases r)
    case (Inr i)
    let ?l = "LENGTH('a) - 1"
    show ?thesis
    proof (cases "- (2 ^ 63) \<le> i \<and> i < 2 ^ 63")
      case True
      let ?w = "word_of_int i :: u64"
      define j where "j = signed_take_bit ?l i"
      have l: "?l < 64" using assms by simp
      have l2: "(2 :: int) ^ ?l \<le> 2 ^ 63" using assms by (intro power_increasing) auto
      have "sint (ucast ?w :: 'a word) = j"
        using l by (simp add: j_def unsigned_of_int sint_sbintrunc' signed_take_bit_take_bit
            ucast_eq del: One_nat_def)
      then have "scast (ucast ?w :: 'a word) = (word_of_int j :: u64)" by (simp add: scast_eq)
      moreover have "- (2 ^ 63) \<le> j" "j < 2 ^ 63"
        using l2 signed_take_bit_int_greater_eq_minus_exp [of ?l i] signed_take_bit_int_less_exp [of ?l i]
        unfolding j_def by linarith+
      ultimately have "?w = scast (ucast ?w :: 'a word) \<longleftrightarrow> i = j"
        using True by (metis sint_of_int64)
      then have "?w = scast (ucast ?w :: 'a word) \<longleftrightarrow> - (2 ^ ?l) \<le> i \<and> i < 2 ^ ?l"
        unfolding j_def by (metis signed_take_bit_int_eq_self_iff)
      moreover have "ucast ?w = (word_of_int i :: 'a word)"
        using assms by (intro bit_word_eqI) (auto simp: bit_simps)
      ultimately show ?thesis using Inr True by (auto simp: clip_signed_def)
    next
      case False
      have "(2 :: int) ^ ?l \<le> 2 ^ 63" using assms by (intro power_increasing) auto
      then show ?thesis using Inr False by (auto simp: clip_signed_def)
    qed
  qed (simp add: clip_signed_def)
  then show ?thesis by (cases n) (simp_all add: narrow_signed_def)
qed

text \<open>
  C24: The signed conversions of every width return exactly the number that the sign and the
  digits denote when the type can represent it, the most negative number included, and
  \<^verbatim>\<open>-ERANGE\<close> when it cannot; an error of the unsigned conversion is passed on.
\<close>

theorem kstrto_signed_exact:
  "kstrtoll s base = map_option clip_signed (signed_number s base) \<and>
   kstrtol s base = map_option clip_signed (signed_number s base) \<and>
   kstrtoint s base = map_option clip_signed (signed_number s base) \<and>
   kstrtos16 s base = map_option clip_signed (signed_number s base) \<and>
   kstrtos8 s base = map_option clip_signed (signed_number s base)"
  by (simp add: kstrtol_def kstrtoint_def kstrtos16_def kstrtos8_def kstrtoll_clip narrow_signed_clip)

end
