(* ===== verification/Kernel_Cmdline.thy ===== *)
theory Kernel_Cmdline
  imports Kernel_Kstrtox
begin

text \<open>
  Option strings: the helpers for the kernel command line of \<^verbatim>\<open>lib/cmdline.c\<close> and the parser
  for mount options of \<^verbatim>\<open>lib/parser.c\<close>. Pointers into a string are the list of bytes from the
  pointer on or an offset into it; the outer None is an access out of bounds. An \<^verbatim>\<open>int\<close> is a
  32-bit word read with \<open>sint\<close>.
\<close>

unbundle bit_operations_syntax

section \<open>Integer lists\<close>










section \<open>Sizes and flags\<close>

text \<open>How many of the cases of the \<^verbatim>\<open>switch\<close> the suffix falls through.\<close>

definition suffix_rank :: "u8 \<Rightarrow> nat" where
  "suffix_rank c =
     (if c = 0x45 \<or> c = 0x65 then 6 else if c = 0x50 \<or> c = 0x70 then 5
      else if c = 0x54 \<or> c = 0x74 then 4 else if c = 0x47 \<or> c = 0x67 then 3
      else if c = 0x4d \<or> c = 0x6d then 2 else if c = 0x4b \<or> c = 0x6b then 1 else 0)"

definition memparse :: "u8 list \<Rightarrow> (u64 \<times> nat) option" where
  "memparse ptr = do {
     (ret, endptr) \<leftarrow> simple_strtoull ptr 0;
     c \<leftarrow> load ptr endptr;
     Some ((push_bit 10 ^^ suffix_rank c) ret, if suffix_rank c = 0 then endptr else endptr + 1)
   }"

fun skip_to_comma :: "u8 list \<Rightarrow> u8 list option" where
  "skip_to_comma [] = None"
| "skip_to_comma (c # s) = (if c \<noteq> 0 \<and> c \<noteq> 0x2c then skip_to_comma s else Some (c # s))"

lemma skip_to_comma_length: "skip_to_comma s = Some t \<Longrightarrow> length t \<le> length s"
  by (induction s) (auto split: if_splits)

text \<open>The rest of the loop body, after the test: on to the next option.\<close>

definition next_option :: "u8 list \<Rightarrow> u8 list option" where
  "next_option str = do {
     str \<leftarrow> skip_to_comma str;
     c \<leftarrow> load str 0;
     Some (if c = 0x2c then drop 1 str else str)
   }"

lemma next_option_shorter: "next_option (c # s) = Some t \<Longrightarrow> c \<noteq> 0 \<Longrightarrow> length t \<le> length s"
  by (auto simp: next_option_def load_def split: if_splits Option.bind_splits dest: skip_to_comma_length)

lemma next_option_drop:
  "next_option (drop n (c # s)) = Some t \<Longrightarrow> c \<noteq> 0 \<Longrightarrow> length t \<le> length s"
proof (cases n)
  case (Suc k)
  assume "next_option (drop n (c # s)) = Some t"
  then have "length t \<le> length (drop k s)" using Suc
    by (auto simp: next_option_def load_def split: if_splits Option.bind_splits dest!: skip_to_comma_length)
  then show ?thesis by simp
qed (simp add: next_option_shorter)

function parse_option_str :: "u8 list \<Rightarrow> u8 list \<Rightarrow> bool option" where
  "parse_option_str [] opt = None"
| "parse_option_str (x # str) opt =
     (if x = 0 then Some False
      else do {
        n \<leftarrow> strlen opt;
        r \<leftarrow> strncmp (x # str) opt n;
        if r = 0 then do {
          c \<leftarrow> load (drop n (x # str)) 0;
          if c = 0 \<or> c = 0x2c then Some True
          else do { t \<leftarrow> next_option (drop n (x # str)); parse_option_str t opt }
        } else do { t \<leftarrow> next_option (x # str); parse_option_str t opt }
      })"
  by pat_completeness auto

termination
  by (relation "measure (\<lambda>(str, _). length str)")
    (auto simp: less_Suc_eq_le dest: next_option_drop next_option_shorter)

declare parse_option_str.simps [simp del]

section \<open>Parameters and their values\<close>

text \<open>The loop over the characters of an argument: its length and the position of the equals sign.\<close>

fun arg_scan :: "u8 list \<Rightarrow> nat \<Rightarrow> nat \<Rightarrow> bool \<Rightarrow> (nat \<times> nat) option" where
  "arg_scan [] i equals in_quote = None"
| "arg_scan (c # args) i equals in_quote =
     (if c = 0 \<or> (isspace c \<and> \<not> in_quote) then Some (i, equals)
      else arg_scan args (Suc i) (if equals = 0 \<and> c = 0x3d then i else equals)
             (if c = 0x22 then \<not> in_quote else in_quote))"

text \<open>Reading \<^verbatim>\<open>args[i-1]\<close> with an \<^verbatim>\<open>unsigned int\<close> index, which wraps around at zero.\<close>

definition prev_index :: "nat \<Rightarrow> nat" where
  "prev_index i = (if i = 0 then 2 ^ 32 - 1 else i - 1)"

definition chop_quote :: "u8 list \<Rightarrow> nat \<Rightarrow> u8 list option" where
  "chop_quote args i = do {
     c \<leftarrow> load args (prev_index i);
     if c = 0x22 then store args (prev_index i) 0 else Some args
   }"

text \<open>The part of \<^verbatim>\<open>next_arg\<close> after the scan, on the string behind an opening quote.\<close>

definition arg_finish :: "u8 list \<Rightarrow> bool \<Rightarrow> nat \<Rightarrow> nat \<Rightarrow> (u8 list \<times> nat option \<times> nat) option" where
  "arg_finish args quoted i equals = do {
     (args, val) \<leftarrow> (if equals = 0 then Some (args, None)
       else do {
         args \<leftarrow> store args equals 0;
         c \<leftarrow> load args (equals + 1);
         if c = 0x22 then do {
           args \<leftarrow> chop_quote args i;
           Some (args, Some (equals + 2))
         } else Some (args, Some (equals + 1))
       });
     args \<leftarrow> (if quoted then chop_quote args i else Some args);
     c \<leftarrow> load args i;
     (args, next) \<leftarrow> (if c \<noteq> 0 then map_option (\<lambda>a. (a, i + 1)) (store args i 0) else Some (args, i));
     n \<leftarrow> skip_spaces (drop next args);
     Some (args, val, next + n)
   }"

text \<open>
  The result is the modified string, the offsets of the parameter name and of the value (None
  for a null pointer), and the offset of the next argument.
\<close>

definition next_arg :: "u8 list \<Rightarrow> (u8 list \<times> nat \<times> nat option \<times> nat) option" where
  "next_arg args0 = do {
     c \<leftarrow> load args0 0;
     let off = (if c = 0x22 then 1 else 0);
     (i, equals) \<leftarrow> arg_scan (drop off args0) 0 0 (c = 0x22);
     (args, val, n) \<leftarrow> arg_finish (drop off args0) (c = 0x22) i equals;
     Some (take off args0 @ args, off, map_option ((+) off) val, off + n)
   }"

section \<open>Pattern matching of options\<close>

record substring =
  sub_from :: nat
  sub_to :: nat

definition MAX_OPT_ARGS :: nat where
  "MAX_OPT_ARGS = 3"

text \<open>
  Scanning one argument at offset \<open>i\<close> of the string: the end of the argument if the code stores
  one, and whether the argument matches. \<open>len\<close> is the maximal length, an \<^verbatim>\<open>int\<close> that the
  comparison with the length of the string converts to \<^verbatim>\<open>size_t\<close>.
\<close>

definition number_end :: "nat \<Rightarrow> (u64 \<times> nat) option \<Rightarrow> (nat option \<times> bool) option" where
  "number_end i r = map_option (\<lambda>(_, n). (Some (i + n), n \<noteq> 0)) r"

definition match_arg :: "u8 list \<Rightarrow> nat \<Rightarrow> u32 \<Rightarrow> u8 \<Rightarrow> (nat option \<times> bool) option" where
  "match_arg s i len c =
     (let t = drop i s in
      if c = 0x73 then do {
        str_len \<leftarrow> strlen t;
        if str_len = 0 then Some (None, False)
        else let l = (if len = - 1 \<or> unat (scast len :: u64) > str_len then str_len else unat len)
          in Some (Some (i + l), True)
      }
      else if c = 0x64 then number_end i (simple_strtol t 0)
      else if c = 0x75 then number_end i (simple_strtoul t 0)
      else if c = 0x6f then number_end i (simple_strtoul t 8)
      else if c = 0x78 then number_end i (simple_strtoul t 16)
      else Some (None, False))"

lemma strchr_less: "strchr p c = Some (Some m) \<Longrightarrow> m < length p"
  by (induction p arbitrary: m) (auto split: if_splits)

text \<open>
  The loop of \<^verbatim>\<open>match_one\<close>: \<open>i\<close> is the position in the string, \<open>p\<close> the rest of the pattern.
\<close>

function match_one_from :: "u8 list \<Rightarrow> nat \<Rightarrow> u8 list \<Rightarrow> nat \<Rightarrow> substring list \<Rightarrow> (bool \<times> substring list) option"
where
  "match_one_from s i p argc args = do {
     meta \<leftarrow> strchr p 0x25;
     case meta of
       None \<Rightarrow> map_option (\<lambda>r. (r = 0, args)) (strcmp p (drop i s))
     | Some m \<Rightarrow> do {
         r \<leftarrow> strncmp p (drop i s) m;
         if r \<noteq> 0 then Some (False, args)
         else do {
           let i = i + m;
           let q = drop (m + 1) p;
           c \<leftarrow> load q 0;
           (len, k) \<leftarrow> (if isdigit c then map_option (\<lambda>(v, n). (ucast v, n)) (simple_strtoul q 10)
             else Some (- 1, 0));
           if \<not> isdigit c \<and> c = 0x25 then do {
             x \<leftarrow> load s i;
             if x \<noteq> 0x25 then Some (False, args)
             else match_one_from s (i + 1) (drop (m + 2) p) argc args
           }
           else if argc \<ge> MAX_OPT_ARGS then Some (False, args)
           else do {
             a \<leftarrow> load args argc;
             d \<leftarrow> load q k;
             (e, hit) \<leftarrow> match_arg s i len d;
             let to = (case e of None \<Rightarrow> sub_to a | Some e \<Rightarrow> e);
             let args = args[argc := \<lparr>sub_from = i, sub_to = to\<rparr>];
             if \<not> hit then Some (False, args)
             else match_one_from s to (drop (m + k + 2) p) (argc + 1) args
           }
         }
       }
   }"
  by auto
termination
  by (relation "measure (\<lambda>(_, _, p, _). length p)") (auto dest: strchr_less)

declare match_one_from.simps [simp del]

definition match_one :: "u8 list \<Rightarrow> u8 list option \<Rightarrow> substring list \<Rightarrow> (bool \<times> substring list) option" where
  "match_one s p args =
     (case p of None \<Rightarrow> Some (True, args) | Some p \<Rightarrow> match_one_from s 0 p 0 args)"

record match_entry =
  me_token :: int
  me_pattern :: "u8 list option"

text \<open>The end of the table without an entry that matches is an access out of bounds.\<close>

fun match_token :: "u8 list \<Rightarrow> match_entry list \<Rightarrow> substring list \<Rightarrow> (int \<times> substring list) option" where
  "match_token s [] args = None"
| "match_token s (e # table) args = do {
     (hit, args) \<leftarrow> match_one s (me_pattern e) args;
     if hit then Some (me_token e, args) else match_token s table args
   }"

text \<open>
  The number scanners allocate a buffer for a copy of the substring; \<open>alloc\<close> says whether the
  allocation succeeds.
\<close>

definition sub_copy :: "u8 list \<Rightarrow> substring \<Rightarrow> u8 list option" where
  "sub_copy s r =
     (if sub_from r \<le> sub_to r \<and> sub_to r \<le> length s
      then Some (take (sub_to r - sub_from r) (drop (sub_from r) s) @ [0]) else None)"

definition match_number :: "bool \<Rightarrow> u8 list \<Rightarrow> substring \<Rightarrow> u32 \<Rightarrow> (int + int) option" where
  "match_number alloc s r base =
     (if \<not> alloc then Some (Inl (- ENOMEM))
      else do {
        buf \<leftarrow> sub_copy s r;
        (val, n) \<leftarrow> simple_strtol buf base;
        Some (if n = 0 then Inl (- EINVAL)
              else if sint val < - (2 ^ 31) \<or> sint val > 2 ^ 31 - 1 then Inl (- ERANGE)
              else Inr (sint val))
      })"

definition match_u64int :: "bool \<Rightarrow> u8 list \<Rightarrow> substring \<Rightarrow> u32 \<Rightarrow> (int + u64) option" where
  "match_u64int alloc s r base =
     (if \<not> alloc then Some (Inl (- ENOMEM))
      else do { buf \<leftarrow> sub_copy s r; kstrtoull buf base })"

definition match_int :: "bool \<Rightarrow> u8 list \<Rightarrow> substring \<Rightarrow> (int + int) option" where
  "match_int alloc s r = match_number alloc s r 0"

definition match_u64 :: "bool \<Rightarrow> u8 list \<Rightarrow> substring \<Rightarrow> (int + u64) option" where
  "match_u64 alloc s r = match_u64int alloc s r 0"

definition match_octal :: "bool \<Rightarrow> u8 list \<Rightarrow> substring \<Rightarrow> (int + int) option" where
  "match_octal alloc s r = match_number alloc s r 8"

definition match_hex :: "bool \<Rightarrow> u8 list \<Rightarrow> substring \<Rightarrow> (int + int) option" where
  "match_hex alloc s r = match_number alloc s r 16"

definition match_strlcpy :: "u8 list \<Rightarrow> u8 list \<Rightarrow> substring \<Rightarrow> nat \<Rightarrow> (u8 list \<times> nat) option" where
  "match_strlcpy dest s r sz = do {
     let ret = sub_to r - sub_from r;
     if sz \<noteq> 0 then do {
       let len = (if ret \<ge> sz then sz - 1 else ret);
       dest \<leftarrow> memcpy dest (drop (sub_from r) s) len;
       dest \<leftarrow> store dest len 0;
       Some (dest, ret)
     } else Some (dest, ret)
   }"

text \<open>\<open>buf\<close> is the memory that \<^verbatim>\<open>kmalloc\<close> returns for a size, None if it fails.\<close>

definition match_strdup :: "(nat \<Rightarrow> u8 list option) \<Rightarrow> u8 list \<Rightarrow> substring \<Rightarrow> u8 list option option" where
  "match_strdup kmalloc s r =
     (let sz = sub_to r - sub_from r + 1 in
      case kmalloc sz of
        None \<Rightarrow> Some None
      | Some p \<Rightarrow> map_option (\<lambda>(d, _). Some d) (match_strlcpy p s r sz))"

text \<open>
  The position in the string is \<open>str\<close> plus \<open>so\<close>, the position in the pattern is \<open>pattern\<close> plus
  \<open>po\<close>: \<open>str\<close> and \<open>pattern\<close> are where the matching goes back to after a mismatch.
\<close>

function match_wildcard_from :: "u8 list \<Rightarrow> u8 list \<Rightarrow> bool \<Rightarrow> nat \<Rightarrow> nat \<Rightarrow> bool option" where
  "match_wildcard_from pattern str star po so = do {
     s \<leftarrow> load str so;
     p \<leftarrow> load pattern po;
     if s \<noteq> 0 then
       if p = 0x3f then match_wildcard_from pattern str star (po + 1) (so + 1)
       else if p = 0x2a then do {
         q \<leftarrow> load pattern (po + 1);
         if q = 0 then Some True
         else match_wildcard_from (drop (po + 1) pattern) (drop so str) True 0 0
       }
       else if s = p then match_wildcard_from pattern str star (po + 1) (so + 1)
       else if \<not> star then Some False
       else match_wildcard_from pattern (drop 1 str) star 0 0
     else if p = 0x2a then map_option (\<lambda>q. q = 0) (load pattern (po + 1))
     else Some (p = 0)
   }"
  by auto
termination
  by (relation "measures [\<lambda>(pat, _). length pat, \<lambda>(_, str, _). length str, \<lambda>(_, str, _, _, so). length str - so]")
    (auto simp: load_def split: if_splits)

declare match_wildcard_from.simps [simp del]

definition match_wildcard :: "u8 list \<Rightarrow> u8 list \<Rightarrow> bool option" where
  "match_wildcard pattern str = match_wildcard_from pattern str False 0 0"

section \<open>Wildcards\<close>

text \<open>What a wildcard pattern means: a star stands for any string, a question mark for one character.\<close>

fun wild :: "u8 list \<Rightarrow> u8 list \<Rightarrow> bool" where
  "wild [] s = (s = [])"
| "wild (p # ps) [] = (p = 0x2a \<and> wild ps [])"
| "wild (p # ps) (c # s) =
     (if p = 0x2a then wild ps (c # s) \<or> wild (p # ps) s else (p = 0x3f \<or> p = c) \<and> wild ps s)"

fun no_double_star :: "u8 list \<Rightarrow> bool" where
  "no_double_star (p # q # ps) = (\<not> (p = 0x2a \<and> q = 0x2a) \<and> no_double_star (q # ps))"
| "no_double_star ps = True"

text \<open>A piece of the pattern without a star against a piece of the string of the same length.\<close>

abbreviation (input) seg_match :: "u8 list \<Rightarrow> u8 list \<Rightarrow> bool" where
  "seg_match \<equiv> list_all2 (\<lambda>p c. p \<noteq> 0x2a \<and> (p = 0x3f \<or> p = c))"

lemma wild_star: "wild (0x2a # ps) s \<longleftrightarrow> (\<exists>i \<le> length s. wild ps (drop i s))"
proof (induction s)
  case (Cons c s)
  show ?case
  proof
    assume "wild (0x2a # ps) (c # s)"
    then show "\<exists>i \<le> length (c # s). wild ps (drop i (c # s))"
      using Cons.IH by (auto intro: exI [of _ 0] exI [of _ "Suc i" for i])
  next
    assume "\<exists>i \<le> length (c # s). wild ps (drop i (c # s))"
    then obtain i where "i \<le> length (c # s)" "wild ps (drop i (c # s))" by blast
    then show "wild (0x2a # ps) (c # s)" using Cons.IH by (cases i) auto
  qed
qed simp

lemma wild_seg: "seg_match q u \<Longrightarrow> wild (q @ ps) (u @ s) \<longleftrightarrow> wild ps s"
  by (induction q u rule: list_all2_induct) auto

lemma wild_seg_split: "0x2a \<notin> set q \<Longrightarrow> wild (q @ ps) t \<Longrightarrow>
    \<exists>u s. t = u @ s \<and> length u = length q \<and> wild ps s"
proof (induction q arbitrary: t)
  case (Cons p q)
  then obtain c t' where "t = c # t'" "wild (q @ ps) t'" by (cases t) auto
  then obtain u s where "t' = u @ s" "length u = length q" "wild ps s"
    using Cons.IH [of t'] Cons.prems(1) by auto
  then show ?case using \<open>t = c # t'\<close> by (intro exI [of _ "c # u"] exI [of _ s]) auto
qed simp

lemma wild_length: "wild ps s \<Longrightarrow> length (filter (\<lambda>p. p \<noteq> 0x2a) ps) \<le> length s"
  by (induction ps s rule: wild.induct) (auto split: if_splits)

lemma wild_all: "wild [0x2a] s"
  by (auto simp: wild_star intro: exI [of _ "length s"])

lemma seg_match_facts: "seg_match q u \<Longrightarrow> length q = length u \<and> filter (\<lambda>p. p \<noteq> 0x2a) q = q \<and> 0x2a \<notin> set q"
  by (induction q u rule: list_all2_induct) auto

text \<open>What the state of the loop stands for.\<close>

definition wild_goal :: "bool \<Rightarrow> u8 list \<Rightarrow> u8 list \<Rightarrow> bool" where
  "wild_goal star ps t = wild (if star then 0x2a # ps else ps) t"

lemma wild_goal_star_step:
  assumes "seg_match q u"
  shows "wild_goal star (q @ 0x2a # ps) (u @ s) \<longleftrightarrow> wild_goal True ps s"
proof (cases star)
  case True
  note q = seg_match_facts [OF assms]
  have "wild (0x2a # ps) s" if w: "wild (q @ 0x2a # ps) (drop i (u @ s))" for i
  proof -
    obtain v r where v: "drop i (u @ s) = v @ r" "length v = length u" "wild (0x2a # ps) r"
      using wild_seg_split [of q "0x2a # ps", OF _ w] q by auto
    then have "r = drop (i + length u) (u @ s)" by (metis append_eq_conv_conj drop_drop add.commute)
    then have "r = drop i s" by simp
    then show ?thesis using v(3) unfolding wild_star by (metis drop_drop drop_all le_cases)
  qed
  then show ?thesis using True wild_seg [OF assms, of "0x2a # ps" s] wild_star [of "q @ 0x2a # ps" "u @ s"]
    by (auto simp: wild_goal_def intro: exI [of _ 0])
qed (simp add: wild_goal_def wild_seg [OF assms])

lemma wild_goal_short:
  assumes "seg_match q u" "p \<noteq> 0x2a"
  shows "\<not> wild_goal star (q @ p # ps) u" "\<not> wild_goal star (q @ 0x2a # p # ps) u"
  using assms(2) seg_match_facts [OF assms(1)] wild_length [of "q @ p # ps" u]
    wild_length [of "0x2a # q @ p # ps" u] wild_length [of "q @ 0x2a # p # ps" u]
    wild_length [of "0x2a # q @ 0x2a # p # ps" u]
  by (auto simp: wild_goal_def)

lemma wild_goal_mismatch:
  assumes "seg_match q u" "ps = [] \<or> (\<exists>p ps'. ps = p # ps' \<and> p \<noteq> 0x2a \<and> p \<noteq> 0x3f \<and> p \<noteq> c)"
  shows "\<not> wild_goal False (q @ ps) (u @ c # s)"
    and "wild_goal True (q @ ps) (u @ c # s) \<longleftrightarrow> wild_goal True (q @ ps) (tl (u @ c # s))"
proof -
  show no: "\<not> wild_goal False (q @ ps) (u @ c # s)"
    using assms(2) wild_seg [OF assms(1), of ps "c # s"] by (auto simp: wild_goal_def)
  then show "wild_goal True (q @ ps) (u @ c # s) \<longleftrightarrow> wild_goal True (q @ ps) (tl (u @ c # s))"
    by (cases "u @ c # s") (auto simp: wild_goal_def)
qed

lemma nth_cstr:
  assumes "is_cstr s" "i \<le> length (cstr s)"
  shows "load s i = Some (if i < length (cstr s) then cstr s ! i else 0)" and "i < length (cstr s) \<Longrightarrow> cstr s ! i \<noteq> 0"
proof -
  have s: "s = cstr s @ 0 # drop (Suc (length (cstr s))) s" using cstr_split [OF assms(1)] .
  have "s ! i = (if i < length (cstr s) then cstr s ! i else 0)"
    using assms(2) by (subst (1) s) (auto simp: nth_append)
  then show "load s i = Some (if i < length (cstr s) then cstr s ! i else 0)"
    using length_cstr [OF assms(1)] assms(2) by (simp add: load_def)
  show "cstr s ! i \<noteq> 0" if "i < length (cstr s)"
    using nth_mem [OF that] cstr_no_nul [of s] by metis
qed

lemma cstr_drop_eq: "n \<le> length (cstr s) \<Longrightarrow> cstr (drop n s) = drop n (cstr s)"
proof (induction s arbitrary: n)
  case (Cons c s)
  then show ?case by (cases n) (auto split: if_splits)
qed simp

lemma is_cstr_drop: "is_cstr s \<Longrightarrow> n \<le> length (cstr s) \<Longrightarrow> is_cstr (drop n s)"
proof (induction s arbitrary: n)
  case (Cons c s)
  then show ?case by (cases n) (auto split: if_splits)
qed simp

lemma no_double_star_drop: "no_double_star ps \<Longrightarrow> no_double_star (drop n ps)"
proof (induction n arbitrary: ps)
  case (Suc n)
  have "no_double_star (tl ps)" using Suc.prems by (cases ps rule: no_double_star.cases) auto
  then show ?case using Suc.IH by (simp add: drop_Suc)
qed simp

lemma seg_match_snoc: "seg_match (take n p) (take n t) \<Longrightarrow> n < length p \<Longrightarrow> n < length t \<Longrightarrow>
    p ! n \<noteq> 0x2a \<Longrightarrow> p ! n = 0x3f \<or> p ! n = t ! n \<Longrightarrow> seg_match (take (Suc n) p) (take (Suc n) t)"
  by (simp add: take_Suc_conv_app_nth list_all2_append)

lemma wild_goal_end:
  assumes "seg_match (take n ps) t" "length t = n" "n \<le> length ps" "no_double_star ps"
  shows "wild_goal star ps t \<longleftrightarrow> drop n ps = [] \<or> drop n ps = [0x2a]"
proof -
  have ps: "ps = take n ps @ drop n ps" by simp
  have nds: "no_double_star (drop n ps)" by (rule no_double_star_drop [OF assms(4)])
  consider (nil) "drop n ps = []" | (star) "drop n ps = [0x2a]"
    | (two) q r where "drop n ps = 0x2a # q # r" "q \<noteq> 0x2a" | (other) q r where "drop n ps = q # r" "q \<noteq> 0x2a"
    using nds by (cases "drop n ps" rule: no_double_star.cases) auto
  then show ?thesis
  proof cases
    case nil
    then show ?thesis using wild_seg [OF assms(1), of "[]" "[]"] wild_star [of ps t] assms(3)
      by (auto simp: wild_goal_def intro: exI [of _ 0])
  next
    case star
    then have "take n ps @ [0x2a] = ps" using ps by simp
    moreover have "wild_goal star (take n ps @ [0x2a]) t"
      using wild_goal_star_step [OF assms(1), of star "[]" "[]"] by (simp add: wild_goal_def wild_all)
    ultimately show ?thesis using star by (simp only: simp_thms)
  next
    case two
    then show ?thesis using wild_goal_short(2) [OF assms(1) two(2), of star r] ps by simp
  next
    case other
    then show ?thesis using wild_goal_short(1) [OF assms(1) other(2), of star r] ps by simp
  qed
qed

text \<open>The loop behind the end of the string.\<close>

lemma match_wildcard_from_end:
  assumes "is_cstr pat" "is_cstr str" "so \<le> length (cstr pat)" "so = length (cstr str)"
    "no_double_star (cstr pat)" "seg_match (take so (cstr pat)) (take so (cstr str))"
  shows "match_wildcard_from pat str star so so = Some (wild_goal star (cstr pat) (cstr str))"
proof -
  let ?P = "cstr pat" and ?T = "cstr str"
  define p where "p = (if so < length ?P then ?P ! so else 0)"
  have ld: "load str so = Some 0" "load pat so = Some p"
    using nth_cstr(1) [OF assms(2), of so] nth_cstr(1) [OF assms(1,3)] assms(4) by (simp_all add: p_def)
  have "take so ?T = ?T" using assms(4) by simp
  then have seg: "seg_match (take so ?P) ?T" using assms(6) by (simp only:)
  have "wild_goal star ?P ?T \<longleftrightarrow> drop so ?P = [] \<or> drop so ?P = [0x2a]"
    by (rule wild_goal_end [OF seg assms(4) [symmetric] assms(3,5)])
  moreover have "match_wildcard_from pat str star so so =
      (if p = 0x2a then map_option (\<lambda>q. q = 0) (load pat (so + 1)) else Some (p = 0))"
    using ld by (subst match_wildcard_from.simps) simp
  moreover have "drop so ?P = (if so < length ?P then p # drop (Suc so) ?P else [])"
    using assms(3) by (simp add: p_def Cons_nth_drop_Suc)
  moreover have "so < length ?P \<Longrightarrow> p \<noteq> 0" using nth_cstr(2) [OF assms(1,3)] by (simp add: p_def)
  moreover have "so < length ?P \<Longrightarrow> load pat (so + 1) = Some q \<Longrightarrow> q = 0 \<longleftrightarrow> drop (Suc so) ?P = []" for q
    using nth_cstr [OF assms(1), of "so + 1"] by (auto split: if_splits)
  moreover have "so < length ?P \<Longrightarrow> \<exists>q. load pat (so + 1) = Some q"
    using nth_cstr(1) [OF assms(1), of "so + 1"] by simp
  ultimately show ?thesis using assms(3) by (cases "so < length ?P") (auto simp: p_def)
qed

text \<open>The loop at a star of the pattern.\<close>

lemma match_wildcard_from_star:
  assumes "is_cstr pat" "so < length (cstr pat)" "cstr pat ! so = 0x2a" "load str so = Some s" "s \<noteq> 0"
    "seg_match (take so (cstr pat)) (take so (cstr str))"
    and rest: "\<And>q. load pat (so + 1) = Some q \<Longrightarrow> q \<noteq> 0 \<Longrightarrow>
      match_wildcard_from (drop (so + 1) pat) (drop so str) True 0 0 =
        Some (wild_goal True (drop (Suc so) (cstr pat)) (drop so (cstr str)))"
  shows "match_wildcard_from pat str star so so = Some (wild_goal star (cstr pat) (cstr str))"
proof -
  let ?P = "cstr pat" and ?T = "cstr str"
  have ld: "load pat so = Some 0x2a" using nth_cstr(1) [OF assms(1), of so] assms(2,3) by simp
  have Pc: "drop so ?P = 0x2a # drop (Suc so) ?P" using assms(2,3) Cons_nth_drop_Suc [of so ?P] by simp
  have step: "wild_goal star ?P ?T \<longleftrightarrow> wild_goal True (drop (Suc so) ?P) (drop so ?T)"
    using wild_goal_star_step [OF assms(6), of star "drop (Suc so) ?P" "drop so ?T"]
    unfolding Pc [symmetric] append_take_drop_id .
  obtain q where q: "load pat (so + 1) = Some q" "q = (if so + 1 < length ?P then ?P ! (so + 1) else 0)"
    using nth_cstr(1) [OF assms(1), of "so + 1"] assms(2) by simp
  show ?thesis
  proof (cases "q = 0")
    case True
    then have "drop (Suc so) ?P = []"
      using q(2) nth_cstr(2) [OF assms(1), of "so + 1"] by (auto split: if_splits)
    then show ?thesis
      using ld assms(4,5) q(1) True step
      by (subst match_wildcard_from.simps) (simp add: wild_goal_def wild_all)
  next
    case False
    then show ?thesis
      using ld assms(4,5) q(1) step rest [OF q(1)] by (subst match_wildcard_from.simps) simp
  qed
qed

lemma match_wildcard_from_goal:
  assumes "is_cstr pat" "is_cstr str" "po = so" "so \<le> length (cstr pat)" "so \<le> length (cstr str)"
    "no_double_star (cstr pat)" "seg_match (take so (cstr pat)) (take so (cstr str))"
  shows "match_wildcard_from pat str star po so = Some (wild_goal star (cstr pat) (cstr str))"
  using assms
proof (induction pat str star po so rule: match_wildcard_from.induct)
  case (1 pat str star po so)
  let ?P = "cstr pat" and ?T = "cstr str"
  define s p where "s = (if so < length ?T then ?T ! so else 0)" and "p = (if po < length ?P then ?P ! po else 0)"
  have ld: "load str so = Some s" "load pat po = Some p"
    using nth_cstr(1) [OF "1.prems"(2,5)] nth_cstr(1) [OF "1.prems"(1), of po] "1.prems"(3,4)
    by (simp_all add: s_def p_def)
  show ?case
  proof (cases "so < length ?T")
    case True
    then have s: "s = ?T ! so" "s \<noteq> 0" using nth_cstr(2) [OF "1.prems"(2,5)] by (auto simp: s_def)
    have Tc: "drop so ?T = s # drop (Suc so) ?T" using True s(1) by (simp add: Cons_nth_drop_Suc)
    consider (one) "p \<noteq> 0x2a" "p = 0x3f \<or> s = p" | (star) "p = 0x2a"
      | (mis) "p \<noteq> 0x2a" "p \<noteq> 0x3f" "s \<noteq> p" by blast
    then show ?thesis
    proof cases
      case one
      then have po: "po < length ?P" using s(2) by (auto simp: p_def split: if_splits)
      then have seg: "seg_match (take (so + 1) ?P) (take (so + 1) ?T)"
        using seg_match_snoc [OF "1.prems"(7)] True one s(1) "1.prems"(3) by (auto simp: p_def)
      have "match_wildcard_from pat str star po so = match_wildcard_from pat str star (po + 1) (so + 1)"
        using ld s(2) one by (subst match_wildcard_from.simps) auto
      then show ?thesis
        using "1.IH"(1,3) [OF ld s(2)] "1.prems" seg po True one by (cases "p = 0x3f") simp_all
    next
      case star
      then have po: "so < length ?P" "?P ! so = 0x2a" using "1.prems"(3) by (auto simp: p_def split: if_splits)
      show ?thesis unfolding "1.prems"(3)
      proof (rule match_wildcard_from_star [OF "1.prems"(1) po ld(1) s(2) "1.prems"(7)])
        fix q
        assume "load pat (so + 1) = Some q" "q \<noteq> 0"
        then show "match_wildcard_from (drop (so + 1) pat) (drop so str) True 0 0 =
            Some (wild_goal True (drop (Suc so) ?P) (drop so ?T))"
          using "1.IH"(2) [OF ld s(2) _ star, of q] "1.prems" po star
            is_cstr_drop [OF "1.prems"(1), of "so + 1"] is_cstr_drop [OF "1.prems"(2,5)]
            no_double_star_drop [OF "1.prems"(6), of "so + 1"]
          by (simp add: cstr_drop_eq)
      qed
    next
      case mis
      have ps: "drop so ?P = [] \<or> (\<exists>q r. drop so ?P = q # r \<and> q \<noteq> 0x2a \<and> q \<noteq> 0x3f \<and> q \<noteq> s)"
        using mis "1.prems"(3) by (cases "po < length ?P") (auto simp: p_def Cons_nth_drop_Suc [symmetric])
      note no = wild_goal_mismatch [OF "1.prems"(7) ps, of "drop (Suc so) ?T",
          folded Tc, unfolded append_take_drop_id]
      show ?thesis
      proof (cases star)
        case False
        then show ?thesis using ld s(2) mis no(1) by (subst match_wildcard_from.simps) simp
      next
        case star: True
        have "match_wildcard_from pat str star po so = match_wildcard_from pat (drop 1 str) star 0 0"
          using ld s(2) mis star by (subst match_wildcard_from.simps) simp
        also have "\<dots> = Some (wild_goal star ?P (cstr (drop 1 str)))"
          using "1.IH"(4) [OF ld s(2) mis(2,1) mis(3)] "1.prems" star
            is_cstr_drop [OF "1.prems"(2), of 1] True by simp
        also have "cstr (drop 1 str) = tl ?T" using cstr_drop_eq [of 1 str] True by (simp add: drop_Suc)
        finally show ?thesis using no(2) star by simp
      qed
    qed
  next
    case False
    then show ?thesis
      using match_wildcard_from_end [OF "1.prems"(1,2,4) _ "1.prems"(6,7)] "1.prems"(3,5) by simp
  qed
qed

text \<open>
  C10: \<^verbatim>\<open>match_wildcard\<close>, which only ever goes back to the last star it has seen, decides the
  meaning of the pattern for every string and every pattern that has no two stars in a row.
\<close>

theorem match_wildcard_meaning:
  assumes "is_cstr pattern" "is_cstr str" "no_double_star (cstr pattern)"
  shows "match_wildcard pattern str = Some (wild (cstr pattern) (cstr str))"
  using match_wildcard_from_goal [OF assms(1,2), of 0 0 False] assms(3)
  by (simp add: match_wildcard_def wild_goal_def)

theorem match_wildcard_meaning_witness:
  "match_wildcard [0x2a, 0x61, 0x62, 0x2a, 0x3f, 0] [0x61, 0x61, 0x62, 0x61, 0x62, 0x63, 0] =
    Some (wild (cstr [0x2a, 0x61, 0x62, 0x2a, 0x3f, 0]) (cstr [0x61, 0x61, 0x62, 0x61, 0x62, 0x63, 0]))"
  by (rule match_wildcard_meaning) simp_all

text \<open>
  The restriction is needed: behind the end of the string only one star is skipped, and a
  pattern that ends with two stars does not match although a star stands for no characters.
\<close>

lemma match_wildcard_two_stars:
  "match_wildcard [0x61, 0x2a, 0x2a, 0] [0x61, 0] = Some False \<and> wild [0x61, 0x2a, 0x2a] [0x61]"
  by (simp add: match_wildcard_def match_wildcard_from.simps load_def)

section \<open>Options of an option string\<close>

text \<open>The strings between the commas.\<close>

fun tokens :: "u8 list \<Rightarrow> u8 list list" where
  "tokens [] = [[]]"
| "tokens (c # s) = (if c = 0x2c then [] # tokens s else (c # hd (tokens s)) # tl (tokens s))"

lemma tokens_ne [simp]: "tokens s \<noteq> []"
  by (induction s) auto

lemma in_tokens: "x \<in> set (tokens s) \<longleftrightarrow> x = hd (tokens s) \<or> x \<in> set (tl (tokens s))"
  by (cases "tokens s") auto

lemma hd_tokens: "hd (tokens s) = takeWhile (\<lambda>c. c \<noteq> 0x2c) s"
  by (induction s) auto

lemma tl_tokens_append: "0x2c \<notin> set u \<Longrightarrow> tl (tokens (u @ s)) = tl (tokens s)"
  by (induction u) auto

lemma next_option_tokens: "is_cstr s \<Longrightarrow> \<exists>t. next_option s = Some t \<and> is_cstr t \<and>
    set (tl (tokens (cstr s))) - {[]} = set (tokens (cstr t)) - {[]}"
proof (induction s)
  case (Cons c s)
  show ?case
  proof (cases "c = 0 \<or> c = 0x2c")
    case True
    then show ?thesis using Cons.prems by (auto simp: next_option_def load_def)
  next
    case False
    then have "next_option (c # s) = next_option s" by (simp add: next_option_def)
    then show ?thesis using False Cons by auto
  qed
qed simp

lemma strncmp_cstr: "is_cstr s \<Longrightarrow> is_cstr t \<Longrightarrow>
    \<exists>r. strncmp s t n = Some r \<and> (r = 0 \<longleftrightarrow> take n (cstr s) = take n (cstr t))"
  by (induction s t n rule: strncmp.induct) auto

lemma parse_option_str_step:
  assumes "is_cstr (x # str)" "is_cstr opt" "x \<noteq> 0" "cstr opt \<noteq> []" "0x2c \<notin> set (cstr opt)"
    and IH: "\<And>t n. next_option (drop n (x # str)) = Some t \<Longrightarrow> is_cstr t \<Longrightarrow>
      parse_option_str t opt = Some (cstr opt \<in> set (tokens (cstr t)))"
  shows "parse_option_str (x # str) opt = Some (cstr opt \<in> set (tokens (cstr (x # str))))"
proof -
  let ?s = "x # str" and ?o = "cstr opt"
  have rest: "\<exists>t. next_option (drop n ?s) = Some t \<and>
      parse_option_str t opt = Some (?o \<in> set (tl (tokens (cstr (drop n ?s)))))" if "is_cstr (drop n ?s)" for n
    using next_option_tokens [OF that] IH assms(4) by (fastforce simp: set_eq_iff)
  have step: "parse_option_str ?s opt = do {
        r \<leftarrow> strncmp ?s opt (length ?o);
        if r = 0 then do {
          c \<leftarrow> load (drop (length ?o) ?s) 0;
          if c = 0 \<or> c = 0x2c then Some True
          else do { t \<leftarrow> next_option (drop (length ?o) ?s); parse_option_str t opt }
        } else do { t \<leftarrow> next_option ?s; parse_option_str t opt }
      }"
    using assms(2,3) by (subst parse_option_str.simps) simp
  obtain r where r: "strncmp ?s opt (length ?o) = Some r" "r = 0 \<longleftrightarrow> take (length ?o) (cstr ?s) = ?o"
    using strncmp_cstr [OF assms(1,2), of "length ?o"] by auto
  show ?thesis
  proof (cases "r = 0")
    case True
    then have s: "cstr ?s = ?o @ drop (length ?o) (cstr ?s)" "length ?o \<le> length (cstr ?s)"
      using r(2) append_take_drop_id [of "length ?o" "cstr ?s"] by (auto dest: arg_cong [of _ _ length])
    define v where "v = drop (length ?o) (cstr ?s)"
    have d: "is_cstr (drop (length ?o) ?s)" "cstr (drop (length ?o) ?s) = v"
      using is_cstr_drop [OF assms(1) s(2)] cstr_drop_eq [OF s(2)] by (auto simp: v_def)
    have c: "load (drop (length ?o) ?s) 0 = Some (if v = [] then 0 else hd v)"
      using nth_cstr(1) [OF d(1), of 0] d(2) by (simp add: hd_conv_nth)
    have cs: "cstr ?s = ?o @ v" using s(1) by (simp only: v_def)
    have "\<And>c. c \<in> set ?o \<Longrightarrow> c \<noteq> 0x2c" using assms(5) by auto
    then have hd: "hd (tokens (cstr ?s)) = ?o @ takeWhile (\<lambda>c. c \<noteq> 0x2c) v"
      unfolding cs hd_tokens by (rule takeWhile_append2)
    have tl: "tl (tokens (cstr ?s)) = tl (tokens v)"
      unfolding cs by (rule tl_tokens_append [OF assms(5)])
    have v0: "v \<noteq> [] \<Longrightarrow> hd v \<noteq> 0" using cstr_no_nul [of "drop (length ?o) ?s"] d(2) by (metis hd_in_set)
    show ?thesis
    proof (cases "v = [] \<or> hd v = 0x2c")
      case end_here: True
      then have "hd (tokens (cstr ?s)) = ?o" using hd by (cases v) auto
      then show ?thesis
        using step r(1) True c end_here in_tokens [of ?o "cstr ?s"] by (auto simp del: tokens.simps cstr_simps)
    next
      case longer: False
      then have "hd (tokens (cstr ?s)) \<noteq> ?o" using hd by (cases v) auto
      moreover obtain t where "next_option (drop (length ?o) ?s) = Some t"
        "parse_option_str t opt = Some (?o \<in> set (tl (tokens v)))"
        using rest [OF d(1)] d(2) by auto
      ultimately show ?thesis
        using step r(1) True c longer v0 tl in_tokens [of ?o "cstr ?s"]
        by (simp del: tokens.simps cstr_simps)
    qed
  next
    case False
    then have "hd (tokens (cstr ?s)) \<noteq> ?o" using r(2) hd_tokens [of "cstr ?s"]
      by (metis takeWhile_eq_take)
    moreover obtain t where "next_option ?s = Some t" "parse_option_str t opt = Some (?o \<in> set (tl (tokens (cstr ?s))))"
      using rest [of 0] assms(1) by auto
    ultimately show ?thesis
      using step r(1) False in_tokens [of ?o "cstr ?s"] by (simp del: tokens.simps cstr_simps)
  qed
qed

text \<open>
  C35: \<^verbatim>\<open>parse_option_str\<close> is true exactly when the option is one of the strings between the commas,
  not when it is merely a prefix or a part of one of them.
\<close>

theorem parse_option_str_member:
  assumes "is_cstr str" "is_cstr opt" "cstr opt \<noteq> []" "0x2c \<notin> set (cstr opt)"
  shows "parse_option_str str opt = Some (cstr opt \<in> set (tokens (cstr str)))"
  using assms(1)
proof (induction "length str" arbitrary: str rule: less_induct)
  case less
  then obtain x s where str: "str = x # s" by (cases str) auto
  show ?case
  proof (cases "x = 0")
    case True
    then show ?thesis using str assms(3) by (simp add: parse_option_str.simps)
  next
    case False
    show ?thesis unfolding str
    proof (rule parse_option_str_step)
      fix t n
      assume t: "next_option (drop n (x # s)) = Some t" "is_cstr t"
      have "length t < length str" using next_option_drop [OF t(1) False] str by simp
      then show "parse_option_str t opt = Some (cstr opt \<in> set (tokens (cstr t)))"
        using less.hyps t(2) by blast
    qed (use less.prems str False assms in auto)
  qed
qed

theorem parse_option_str_member_witness:
  "parse_option_str [0x61, 0x62, 0x2c, 0x61, 0] [0x61, 0] =
     Some (cstr [0x61, 0] \<in> set (tokens (cstr [0x61, 0x62, 0x2c, 0x61, 0])))"
  by (rule parse_option_str_member) simp_all

section \<open>Out-of-bounds accesses\<close>


text \<open>The loop over an argument stays within the string.\<close>

lemma arg_scan_bounds: "is_cstr a \<Longrightarrow> \<exists>j e. arg_scan a i eq q = Some (i + j, e) \<and>
    j \<le> length (cstr a) \<and> (e = eq \<or> i \<le> e \<and> e < i + j) \<and> (q \<longrightarrow> j = 0 \<longrightarrow> cstr a = [])"
proof (induction a arbitrary: i eq q)
  case (Cons c a)
  show ?case
  proof (cases "c = 0 \<or> (isspace c \<and> \<not> q)")
    case False
    then obtain j e where "arg_scan a (Suc i) (if eq = 0 \<and> c = 0x3d then i else eq) (if c = 0x22 then \<not> q else q) =
        Some (Suc i + j, e)" "j \<le> length (cstr a)"
      "e = (if eq = 0 \<and> c = 0x3d then i else eq) \<or> Suc i \<le> e \<and> e < Suc i + j"
      using Cons.IH [of "Suc i" "if eq = 0 \<and> c = 0x3d then i else eq" "if c = 0x22 then \<not> q else q"] Cons.prems
      by auto
    then show ?thesis using False
      by (intro exI [of _ "Suc j"] exI [of _ e]) (auto split: if_splits)
  qed auto
qed simp

lemma skip_spaces_found: "k < length s \<Longrightarrow> s ! k = 0 \<Longrightarrow> \<exists>n. skip_spaces s = Some n"
proof (induction s arbitrary: k)
  case (Cons c s)
  then show ?case by (cases k) (auto simp: isspace_0)
qed simp

text \<open>What the stores of \<^verbatim>\<open>next_arg\<close> keep: the length and every NUL.\<close>

definition nul_kept :: "u8 list \<Rightarrow> u8 list \<Rightarrow> bool" where
  "nul_kept a b \<longleftrightarrow> length b = length a \<and> (\<forall>k < length a. a ! k = 0 \<longrightarrow> b ! k = 0)"

lemma nul_kept_store: "nul_kept a b \<Longrightarrow> i < length a \<Longrightarrow> \<exists>d. store b i 0 = Some d \<and> nul_kept a d"
  by (auto simp: nul_kept_def store_def nth_list_update)

lemma nul_kept_chop: "nul_kept a b \<Longrightarrow> 0 < i \<Longrightarrow> i \<le> length a \<Longrightarrow> \<exists>d. chop_quote b i = Some d \<and> nul_kept a d"
  using nul_kept_store [of a b "i - 1"]
  by (auto simp: chop_quote_def prev_index_def load_def nul_kept_def)

lemma arg_finish_safe:
  assumes "is_cstr a" "i \<le> length (cstr a)" "equals = 0 \<or> equals < i" "quoted \<Longrightarrow> 0 < i"
  shows "\<exists>r. arg_finish a quoted i equals = Some r"
proof -
  have len: "i < length a" "length (cstr a) < length a" "a ! length (cstr a) = 0"
    using length_cstr [OF assms(1)] assms(2) nth_cstr(1) [OF assms(1), of "length (cstr a)"]
    by (auto simp: load_def)
  have a: "nul_kept a a" by (simp add: nul_kept_def)
  obtain b val where b: "(if equals = 0 then Some (a, None)
       else do {
         args \<leftarrow> store a equals 0;
         c \<leftarrow> load args (equals + 1);
         if c = 0x22 then do {
           args \<leftarrow> chop_quote args i;
           Some (args, Some (equals + 2))
         } else Some (args, Some (equals + 1))
       }) = Some (b, val)" "nul_kept a b"
  proof (cases "equals = 0")
    case False
    then obtain d where d: "store a equals 0 = Some d" "nul_kept a d"
      using nul_kept_store [OF a, of equals] assms(3) len by auto
    moreover have "equals + 1 < length d" using d(2) assms(3) False len by (auto simp: nul_kept_def)
    moreover obtain e where "chop_quote d i = Some e" "nul_kept a e"
      using nul_kept_chop [OF d(2), of i] assms(3) False len by auto
    ultimately show ?thesis using that False
      by (cases "d ! (equals + 1) = 0x22") (auto simp: load_def)
  qed (use that a in auto)
  obtain c where c: "(if quoted then chop_quote b i else Some b) = Some c" "nul_kept a c"
    using nul_kept_chop [OF b(2), of i] b(2) assms(4) len by (cases quoted) auto
  have ci: "load c i = Some (c ! i)" using c(2) len by (simp add: load_def nul_kept_def)
  obtain d nx where d: "(if c ! i \<noteq> 0 then map_option (\<lambda>a. (a, i + 1)) (store c i 0) else Some (c, i)) = Some (d, nx)"
    "nul_kept a d" "nx \<le> length (cstr a)"
  proof (cases "c ! i = 0")
    case False
    then have "i \<noteq> length (cstr a)" using c(2) len by (auto simp: nul_kept_def)
    then show ?thesis using that False nul_kept_store [OF c(2) len(1)] assms(2) by auto
  qed (use that c assms(2) in auto)
  have "\<exists>n. skip_spaces (drop nx d) = Some n"
    using d(2,3) len by (intro skip_spaces_found [of "length (cstr a) - nx"]) (auto simp: nul_kept_def)
  then show ?thesis
    unfolding arg_finish_def using b(1) c(1) ci d(1) by auto
qed

text \<open>
  C22: \<^verbatim>\<open>next_arg\<close> stays within its string for every argument string except one: a lone quote
  at the end of the command line, for which the index \<^verbatim>\<open>i-1\<close> wraps around to \<^verbatim>\<open>UINT_MAX\<close>.
\<close>

theorem next_arg_in_bounds:
  assumes "is_cstr args" "length args < 2 ^ 32"
  shows "next_arg args = None \<longleftrightarrow> cstr args = [0x22]"
proof (cases "cstr args = [0x22]")
  case True
  then obtain r where "args = 0x22 # 0 # r" using cstr_split [OF assms(1)] by auto
  then show ?thesis
    using True assms(2) by (simp add: next_arg_def arg_finish_def load_def chop_quote_def prev_index_def)
next
  case False
  obtain c s where args: "args = c # s" using assms(1) by (cases args) auto
  let ?a = "drop (if c = 0x22 then 1 else 0) args"
  have a: "is_cstr ?a" using assms(1) args by auto
  obtain j e where j: "arg_scan ?a 0 0 (c = 0x22) = Some (j, e)" "j \<le> length (cstr ?a)" "e = 0 \<or> e < j"
    "c = 0x22 \<longrightarrow> j = 0 \<longrightarrow> cstr ?a = []"
    using arg_scan_bounds [OF a, of 0 0 "c = 0x22"] by auto
  then have "c = 0x22 \<Longrightarrow> 0 < j" using False args by (cases j) auto
  then have "\<exists>r. arg_finish ?a (c = 0x22) j e = Some r" using j by (intro arg_finish_safe [OF a]) auto
  then show ?thesis using False args j(1) unfolding next_arg_def by (auto simp: load_def)
qed

theorem next_arg_in_bounds_witness:
  "next_arg [0x61, 0x3d, 0x22, 0x62, 0x22, 0x20, 0] = None \<longleftrightarrow>
     cstr [0x61, 0x3d, 0x22, 0x62, 0x22, 0x20, 0] = [0x22]"
  by (rule next_arg_in_bounds) simp_all

end
