(* ===== verification/Kernel_Bitmap.thy ===== *)
theory Kernel_Bitmap
  imports Kernel_String
begin

text \<open>
  Bitmaps: \<^verbatim>\<open>lib/find_bit.c\<close> and the operations of \<^verbatim>\<open>lib/bitmap.c\<close> on arrays of 64-bit words,
  with the word masks of \<^verbatim>\<open>include/linux/bitmap.h\<close>. A bitmap is the list of its words, None is an
  access out of bounds; positions and sizes are natural numbers below \<^verbatim>\<open>INT_MAX\<close>. Free
  areas, regions and mappings are in \<^verbatim>\<open>Kernel_Bitmap_Areas\<close>, the parsers of bitmap strings in
  \<^verbatim>\<open>Kernel_Bitmap_Parse\<close>.
\<close>

unbundle bit_operations_syntax

section \<open>Words\<close>

definition BITS_TO_LONGS :: "nat \<Rightarrow> nat" where
  "BITS_TO_LONGS nr = (nr + 63) div 64"

definition first_word_mask :: "nat \<Rightarrow> u64" where
  "first_word_mask start = push_bit (start mod 64) (NOT 0)"

definition last_word_mask :: "nat \<Rightarrow> u64" where
  "last_word_mask nbits = drop_bit ((64 - nbits mod 64) mod 64) (NOT 0)"

text \<open>The instructions \<^verbatim>\<open>bsf\<close> and \<^verbatim>\<open>bsr\<close>, on words that are not zero.\<close>

definition ffs :: "u64 \<Rightarrow> nat" where
  "ffs w = length (takeWhile (\<lambda>k. \<not> bit w k) [0..<64])"

definition ffz :: "u64 \<Rightarrow> nat" where
  "ffz w = ffs (NOT w)"

definition fls :: "u64 \<Rightarrow> nat" where
  "fls w = 63 - length (takeWhile (\<lambda>k. \<not> bit w k) (rev [0..<64]))"

definition hweight_long :: "u64 \<Rightarrow> nat" where
  "hweight_long w = length (filter (bit w) [0..<64])"

definition test_bit :: "nat \<Rightarrow> u64 list \<Rightarrow> bool option" where
  "test_bit nr m = map_option (\<lambda>w. bit w (nr mod 64)) (load m (nr div 64))"

definition set_bit_op :: "nat \<Rightarrow> u64 list \<Rightarrow> u64 list option" where
  "set_bit_op nr m = do {
     w \<leftarrow> load m (nr div 64);
     store m (nr div 64) (w OR push_bit (nr mod 64) 1)
   }"

definition bitmap_zero :: "u64 list \<Rightarrow> nat \<Rightarrow> u64 list option" where
  "bitmap_zero dst nbits = memset dst 0 (BITS_TO_LONGS nbits)"

section \<open>Searching for bits\<close>

function find_next_from :: "u64 list \<Rightarrow> nat \<Rightarrow> nat \<Rightarrow> u64 \<Rightarrow> u64 \<Rightarrow> nat option" where
  "find_next_from m nbits start invert tmp =
     (if tmp = 0 then
        if start + 64 \<ge> nbits then Some nbits
        else do {
          w \<leftarrow> load m ((start + 64) div 64);
          find_next_from m nbits (start + 64) invert (w XOR invert)
        }
      else Some (min (start + ffs tmp) nbits))"
  by auto
termination by (relation "measure (\<lambda>(_, nbits, start, _). nbits - start)") auto

declare find_next_from.simps [simp del]

definition find_next_bit_inv :: "u64 list \<Rightarrow> nat \<Rightarrow> nat \<Rightarrow> u64 \<Rightarrow> nat option" where
  "find_next_bit_inv m nbits start invert =
     (if start \<ge> nbits then Some nbits
      else do {
        w \<leftarrow> load m (start div 64);
        let tmp = (w XOR invert) AND first_word_mask start;
        find_next_from m nbits (start - start mod 64) invert tmp
      })"

definition find_next_bit :: "u64 list \<Rightarrow> nat \<Rightarrow> nat \<Rightarrow> nat option" where
  "find_next_bit m sz offset = find_next_bit_inv m sz offset 0"

definition find_next_zero_bit :: "u64 list \<Rightarrow> nat \<Rightarrow> nat \<Rightarrow> nat option" where
  "find_next_zero_bit m sz offset = find_next_bit_inv m sz offset (NOT 0)"

function find_first_from :: "u64 list \<Rightarrow> nat \<Rightarrow> nat \<Rightarrow> nat option" where
  "find_first_from m sz idx =
     (if idx * 64 < sz then do {
        w \<leftarrow> load m idx;
        if w \<noteq> 0 then Some (min (idx * 64 + ffs w) sz) else find_first_from m sz (Suc idx)
      } else Some sz)"
  by auto
termination by (relation "measure (\<lambda>(_, sz, idx). sz - idx * 64)") auto

definition find_first_bit :: "u64 list \<Rightarrow> nat \<Rightarrow> nat option" where
  "find_first_bit m sz = find_first_from m sz 0"

function find_first_zero_from :: "u64 list \<Rightarrow> nat \<Rightarrow> nat \<Rightarrow> nat option" where
  "find_first_zero_from m sz idx =
     (if idx * 64 < sz then do {
        w \<leftarrow> load m idx;
        if w \<noteq> NOT 0 then Some (min (idx * 64 + ffz w) sz) else find_first_zero_from m sz (Suc idx)
      } else Some sz)"
  by auto
termination by (relation "measure (\<lambda>(_, sz, idx). sz - idx * 64)") auto

definition find_first_zero_bit :: "u64 list \<Rightarrow> nat \<Rightarrow> nat option" where
  "find_first_zero_bit m sz = find_first_zero_from m sz 0"

declare find_first_from.simps [simp del] find_first_zero_from.simps [simp del]

fun find_last_from :: "u64 list \<Rightarrow> nat \<Rightarrow> u64 \<Rightarrow> nat \<Rightarrow> nat option" where
  "find_last_from m sz val idx = do {
     w \<leftarrow> load m idx;
     let val = val AND w;
     if val \<noteq> 0 then Some (idx * 64 + fls val)
     else case idx of 0 \<Rightarrow> Some sz | Suc idx' \<Rightarrow> find_last_from m sz (NOT 0) idx'
   }"

definition find_last_bit :: "u64 list \<Rightarrow> nat \<Rightarrow> nat option" where
  "find_last_bit m sz =
     (if sz \<noteq> 0 then find_last_from m sz (last_word_mask sz) ((sz - 1) div 64) else Some sz)"

section \<open>Operations on whole bitmaps\<close>

text \<open>The loops over the full words.\<close>

fun words_op :: "(u64 \<Rightarrow> u64 \<Rightarrow> u64) \<Rightarrow> u64 list \<Rightarrow> u64 list \<Rightarrow> u64 list \<Rightarrow> nat \<Rightarrow> u64 list option" where
  "words_op f dst m1 m2 0 = Some dst"
| "words_op f (d # dst) (x # m1) (y # m2) (Suc n) = map_option ((#) (f x y)) (words_op f dst m1 m2 n)"
| "words_op f dst m1 m2 (Suc n) = None"

fun words_any :: "(u64 \<Rightarrow> u64 \<Rightarrow> u64) \<Rightarrow> u64 list \<Rightarrow> u64 list \<Rightarrow> nat \<Rightarrow> bool option" where
  "words_any f m1 m2 0 = Some False"
| "words_any f (x # m1) (y # m2) (Suc n) = (if f x y \<noteq> 0 then Some True else words_any f m1 m2 n)"
| "words_any f m1 m2 (Suc n) = None"

text \<open>A test on all valid bits: the full words, then the valid part of the last word.\<close>

definition masked_any :: "(u64 \<Rightarrow> u64 \<Rightarrow> u64) \<Rightarrow> u64 list \<Rightarrow> u64 list \<Rightarrow> nat \<Rightarrow> bool option" where
  "masked_any f m1 m2 bits = do {
     r \<leftarrow> words_any f m1 m2 (bits div 64);
     if r then Some True
     else if bits mod 64 \<noteq> 0 then do {
       x \<leftarrow> load m1 (bits div 64);
       y \<leftarrow> load m2 (bits div 64);
       Some (f x y AND last_word_mask bits \<noteq> 0)
     } else Some False
   }"

definition bitmap_equal :: "u64 list \<Rightarrow> u64 list \<Rightarrow> nat \<Rightarrow> bool option" where
  "bitmap_equal m1 m2 bits = map_option Not (masked_any (XOR) m1 m2 bits)"

definition bitmap_intersects :: "u64 list \<Rightarrow> u64 list \<Rightarrow> nat \<Rightarrow> bool option" where
  "bitmap_intersects m1 m2 bits = masked_any (AND) m1 m2 bits"

definition bitmap_subset :: "u64 list \<Rightarrow> u64 list \<Rightarrow> nat \<Rightarrow> bool option" where
  "bitmap_subset m1 m2 bits = map_option Not (masked_any (\<lambda>x y. x AND NOT y) m1 m2 bits)"

definition bitmap_complement :: "u64 list \<Rightarrow> u64 list \<Rightarrow> nat \<Rightarrow> u64 list option" where
  "bitmap_complement dst src bits = do {
     dst \<leftarrow> words_op (\<lambda>x _. NOT x) dst src src (bits div 64);
     if bits mod 64 \<noteq> 0 then do {
       x \<leftarrow> load src (bits div 64);
       store dst (bits div 64) (NOT x)
     } else Some dst
   }"

text \<open>The operations that mask the last word and report whether the result has a bit set.\<close>

definition masked_op :: "(u64 \<Rightarrow> u64 \<Rightarrow> u64) \<Rightarrow> u64 list \<Rightarrow> u64 list \<Rightarrow> u64 list \<Rightarrow> nat \<Rightarrow> (u64 list \<times> bool) option" where
  "masked_op f dst m1 m2 bits = do {
     let lim = bits div 64;
     dst \<leftarrow> words_op f dst m1 m2 lim;
     let result = foldr (OR) (take lim dst) 0;
     if bits mod 64 \<noteq> 0 then do {
       x \<leftarrow> load m1 lim;
       y \<leftarrow> load m2 lim;
       let w = f x y AND last_word_mask bits;
       dst \<leftarrow> store dst lim w;
       Some (dst, result OR w \<noteq> 0)
     } else Some (dst, result \<noteq> 0)
   }"

definition bitmap_and :: "u64 list \<Rightarrow> u64 list \<Rightarrow> u64 list \<Rightarrow> nat \<Rightarrow> (u64 list \<times> bool) option" where
  "bitmap_and dst m1 m2 bits = masked_op (AND) dst m1 m2 bits"

definition bitmap_andnot :: "u64 list \<Rightarrow> u64 list \<Rightarrow> u64 list \<Rightarrow> nat \<Rightarrow> (u64 list \<times> bool) option" where
  "bitmap_andnot dst m1 m2 bits = masked_op (\<lambda>x y. x AND NOT y) dst m1 m2 bits"

definition bitmap_or :: "u64 list \<Rightarrow> u64 list \<Rightarrow> u64 list \<Rightarrow> nat \<Rightarrow> u64 list option" where
  "bitmap_or dst m1 m2 bits = words_op (OR) dst m1 m2 (BITS_TO_LONGS bits)"

definition bitmap_xor :: "u64 list \<Rightarrow> u64 list \<Rightarrow> u64 list \<Rightarrow> nat \<Rightarrow> u64 list option" where
  "bitmap_xor dst m1 m2 bits = words_op (XOR) dst m1 m2 (BITS_TO_LONGS bits)"

fun words_weight :: "u64 list \<Rightarrow> nat \<Rightarrow> nat option" where
  "words_weight m 0 = Some 0"
| "words_weight (w # m) (Suc n) = map_option ((+) (hweight_long w)) (words_weight m n)"
| "words_weight [] (Suc n) = None"

definition bitmap_weight :: "u64 list \<Rightarrow> nat \<Rightarrow> nat option" where
  "bitmap_weight m bits = do {
     w \<leftarrow> words_weight m (bits div 64);
     if bits mod 64 \<noteq> 0 then do {
       x \<leftarrow> load m (bits div 64);
       Some (w + hweight_long (x AND last_word_mask bits))
     } else Some w
   }"

section \<open>Shifts\<close>

text \<open>
  Source and destination may be the same array, for which the source is None; the loops go in
  the direction that reads a word before it is overwritten.
\<close>

definition source :: "u64 list option \<Rightarrow> u64 list \<Rightarrow> u64 list" where
  "source src dst = (case src of None \<Rightarrow> dst | Some s \<Rightarrow> s)"

definition shift_right_word :: "u64 list \<Rightarrow> nat \<Rightarrow> nat \<Rightarrow> nat \<Rightarrow> u64 \<Rightarrow> nat \<Rightarrow> u64 option" where
  "shift_right_word src lim off rem msk k = do {
     upper \<leftarrow> (if rem = 0 \<or> off + k + 1 \<ge> lim then Some 0
       else do {
         u \<leftarrow> load src (off + k + 1);
         Some (push_bit (64 - rem) (if off + k + 1 = lim - 1 then u AND msk else u))
       });
     l \<leftarrow> load src (off + k);
     let lower = drop_bit rem (if off + k = lim - 1 then l AND msk else l);
     Some (lower OR upper)
   }"

function shift_right_from :: "u64 list option \<Rightarrow> u64 list \<Rightarrow> nat \<Rightarrow> nat \<Rightarrow> nat \<Rightarrow> u64 \<Rightarrow> nat \<Rightarrow> u64 list option" where
  "shift_right_from src dst lim off rem msk k =
     (if off + k < lim then do {
        w \<leftarrow> shift_right_word (source src dst) lim off rem msk k;
        dst \<leftarrow> store dst k w;
        shift_right_from src dst lim off rem msk (Suc k)
      } else Some dst)"
  by auto
termination by (relation "measure (\<lambda>(_, _, lim, off, _, _, k). lim - (off + k))") auto

declare shift_right_from.simps [simp del]

text \<open>\<^verbatim>\<open>lim - off\<close> is an \<^verbatim>\<open>unsigned\<close> difference: when it wraps around, the store is out of bounds.\<close>

definition bitmap_shift_right :: "u64 list \<Rightarrow> u64 list option \<Rightarrow> nat \<Rightarrow> nat \<Rightarrow> u64 list option" where
  "bitmap_shift_right dst src shift nbits = do {
     let lim = BITS_TO_LONGS nbits;
     let off = shift div 64;
     dst \<leftarrow> shift_right_from src dst lim off (shift mod 64) (last_word_mask nbits) 0;
     if off \<noteq> 0 then
       if off \<le> lim then map_option ((@) (take (lim - off) dst)) (memset (drop (lim - off) dst) 0 off)
       else None
     else Some dst
   }"

fun shift_left_from :: "u64 list option \<Rightarrow> u64 list \<Rightarrow> nat \<Rightarrow> nat \<Rightarrow> nat \<Rightarrow> u64 list option" where
  "shift_left_from src dst off rem 0 = Some dst"
| "shift_left_from src dst off rem (Suc k) = do {
     lower \<leftarrow> (if rem \<noteq> 0 \<and> k > 0 then map_option (drop_bit (64 - rem)) (load (source src dst) (k - 1)) else Some 0);
     u \<leftarrow> load (source src dst) k;
     dst \<leftarrow> store dst (k + off) (lower OR push_bit rem u);
     shift_left_from src dst off rem k
   }"

definition bitmap_shift_left :: "u64 list \<Rightarrow> u64 list option \<Rightarrow> nat \<Rightarrow> nat \<Rightarrow> u64 list option" where
  "bitmap_shift_left dst src shift nbits = do {
     let lim = BITS_TO_LONGS nbits;
     let off = shift div 64;
     dst \<leftarrow> shift_left_from src dst off (shift mod 64) (lim - off);
     if off \<noteq> 0 then memset dst 0 off else Some dst
   }"

section \<open>Setting and clearing ranges\<close>

function set_from :: "(u64 \<Rightarrow> u64 \<Rightarrow> u64) \<Rightarrow> u64 list \<Rightarrow> nat \<Rightarrow> nat \<Rightarrow> nat \<Rightarrow> u64 \<Rightarrow> nat \<Rightarrow> u64 list option" where
  "set_from f m p len todo msk sz =
     (if len \<ge> todo \<and> todo > 0 then do {
        w \<leftarrow> load m p;
        m \<leftarrow> store m p (f w msk);
        set_from f m (Suc p) (len - todo) 64 (NOT 0) sz
      }
      else if len \<noteq> 0 then do {
        w \<leftarrow> load m p;
        store m p (f w (msk AND last_word_mask sz))
      } else Some m)"
  by auto
termination by (relation "measure (\<lambda>(_, _, _, len, _). len)") auto

declare set_from.simps [simp del]

definition bitmap_set :: "u64 list \<Rightarrow> nat \<Rightarrow> nat \<Rightarrow> u64 list option" where
  "bitmap_set m start len =
     set_from (OR) m (start div 64) len (64 - start mod 64) (first_word_mask start) (start + len)"

definition bitmap_clear :: "u64 list \<Rightarrow> nat \<Rightarrow> nat \<Rightarrow> u64 list option" where
  "bitmap_clear m start len =
     set_from (\<lambda>w k. w AND NOT k) m (start div 64) len (64 - start mod 64) (first_word_mask start) (start + len)"

section \<open>The bits of a bitmap\<close>

text \<open>A bit of a bitmap, and a bit of a bitmap whose words are inverted by a mask.\<close>

definition bit_at :: "u64 list \<Rightarrow> nat \<Rightarrow> bool" where
  "bit_at m i = bit (m ! (i div 64)) (i mod 64)"

definition bit_inv :: "u64 \<Rightarrow> u64 list \<Rightarrow> nat \<Rightarrow> bool" where
  "bit_inv invert m i = bit (m ! (i div 64) XOR invert) (i mod 64)"

lemma bit_inv_simps [simp]: "bit_inv 0 m i = bit_at m i" "bit_inv (NOT 0) m i = (\<not> bit_at m i)"
  by (simp_all add: bit_inv_def bit_at_def bit_simps)

text \<open>The result of a search for the first position with a property.\<close>

definition first_in :: "(nat \<Rightarrow> bool) \<Rightarrow> nat \<Rightarrow> nat \<Rightarrow> nat \<Rightarrow> bool" where
  "first_in P lo n i \<longleftrightarrow> lo \<le> i \<and> i \<le> n \<and> (i < n \<longrightarrow> P i) \<and> (\<forall>j. lo \<le> j \<and> j < i \<longrightarrow> \<not> P j)"

lemma bit_first_word_mask: "bit (first_word_mask start) k \<longleftrightarrow> k < 64 \<and> start mod 64 \<le> k"
  by (auto simp: first_word_mask_def bit_simps)

lemma bit_last_word_mask: "bit (last_word_mask n) k \<longleftrightarrow> k < (if n mod 64 = 0 then 64 else n mod 64)"
  by (auto simp: last_word_mask_def bit_simps)

lemma ffs_spec:
  assumes "w \<noteq> 0"
  shows "ffs w < 64" and "bit w (ffs w)" and "k < ffs w \<Longrightarrow> \<not> bit w k"
proof -
  have "\<exists>j < 64. bit w j"
  proof (rule ccontr)
    assume "\<not> (\<exists>j < 64. bit w j)"
    then have "w = 0" by (intro bit_word_eqI) auto
    then show False using assms by simp
  qed
  then obtain j where j: "j < 64" "bit w j" by blast
  let ?P = "\<lambda>k. \<not> bit w k"
  have "takeWhile ?P [0..<64] \<noteq> [0..<64]" using j by (simp only: takeWhile_eq_all_conv) auto
  then have "length (takeWhile ?P [0..<64]) \<noteq> 64"
    using takeWhile_eq_take [of ?P "[0..<64]"] by (metis diff_zero length_upt take_all order_refl)
  then show l: "ffs w < 64" using length_takeWhile_le [of ?P "[0..<64]"] by (simp add: ffs_def)
  show "bit w (ffs w)" using nth_length_takeWhile [of ?P "[0..<64]"] l by (simp add: ffs_def)
  show "\<not> bit w k" if "k < ffs w"
  proof -
    have "takeWhile ?P [0..<64] ! k = k" using that l by (subst takeWhile_nth) (auto simp: ffs_def)
    then have "k \<in> set (takeWhile ?P [0..<64])" using that nth_mem by (metis ffs_def)
    then show ?thesis by (auto dest: set_takeWhileD)
  qed
qed

lemma block_div: "k < 64 \<Longrightarrow> s mod 64 = 0 \<Longrightarrow> (s + k) div 64 = s div 64 \<and> (s + k) mod 64 = (k :: nat)"
proof -
  assume "k < 64" "s mod 64 = 0"
  then obtain q where "s = 64 * q" by (metis mod_0_imp_dvd dvdE)
  then show ?thesis using \<open>k < 64\<close> by simp
qed

lemma find_next_from_first:
  assumes "start mod 64 = 0" "nbits \<le> 64 * length m" "start < nbits" "lo < start + 64"
    and "\<And>k. k < 64 \<Longrightarrow> bit tmp k \<longleftrightarrow> lo \<le> start + k \<and> bit_inv invert m (start + k)"
    and "\<And>j. lo \<le> j \<Longrightarrow> j < start \<Longrightarrow> \<not> bit_inv invert m j" "lo < nbits"
  shows "\<exists>i. find_next_from m nbits start invert tmp = Some i \<and> first_in (bit_inv invert m) lo nbits i"
  using assms
proof (induction m nbits start invert tmp rule: find_next_from.induct)
  case (1 m nbits start invert tmp)
  show ?case
  proof (cases "tmp = 0")
    case True
    then have no: "\<not> bit_inv invert m j" if "lo \<le> j" "j < start + 64" for j
      using that "1.prems"(5) [of "j - start"] "1.prems"(6) [of j] by (cases "j < start") auto
    show ?thesis
    proof (cases "nbits \<le> start + 64")
      case end_here: True
      then have "first_in (bit_inv invert m) lo nbits nbits"
        using no "1.prems"(7) by (auto simp: first_in_def)
      then show ?thesis using True end_here by (subst find_next_from.simps) simp
    next
      case False
      let ?w = "m ! ((start + 64) div 64)"
      have ld: "load m ((start + 64) div 64) = Some ?w"
        using False "1.prems"(2) by (simp add: load_def)
      have bits: "bit (?w XOR invert) k \<longleftrightarrow> lo \<le> start + 64 + k \<and> bit_inv invert m (start + 64 + k)" if "k < 64" for k
        using that "1.prems"(1,4) block_div [of k "start + 64"] by (simp add: bit_inv_def)
      have "\<exists>i. find_next_from m nbits (start + 64) invert (?w XOR invert) = Some i \<and>
          first_in (bit_inv invert m) lo nbits i"
        using "1.IH" [OF True _ ld] False "1.prems"(1,2,4,7) bits no by simp
      then show ?thesis using True False ld by (subst find_next_from.simps) simp
    qed
  next
    case False
    note f = ffs_spec [OF False]
    have hit: "lo \<le> start + ffs tmp" "bit_inv invert m (start + ffs tmp)" using "1.prems"(5) f(1,2) by auto
    have "\<not> bit_inv invert m j" if "lo \<le> j" "j < start + ffs tmp" for j
      using that "1.prems"(5) [of "j - start"] "1.prems"(6) [of j] f(1) f(3) [of "j - start"]
      by (cases "j < start") auto
    then have "first_in (bit_inv invert m) lo nbits (min (start + ffs tmp) nbits)"
      using hit "1.prems"(7) by (auto simp: first_in_def min_def)
    then show ?thesis using False by (subst find_next_from.simps) simp
  qed
qed

lemma find_next_bit_inv_first:
  assumes "nbits \<le> 64 * length m"
  shows "\<exists>i. find_next_bit_inv m nbits start invert = Some i \<and>
    (if start < nbits then first_in (bit_inv invert m) start nbits i else i = nbits)"
proof (cases "start < nbits")
  case True
  let ?s = "start - start mod 64"
  let ?w = "m ! (start div 64)"
  have s: "?s mod 64 = 0" "?s div 64 = start div 64" "?s \<le> start" "start < ?s + 64" "start = ?s + start mod 64"
    by (simp_all add: minus_mod_eq_mult_div)
  have ld: "load m (start div 64) = Some ?w" using True assms by (simp add: load_def)
  have "bit ((?w XOR invert) AND first_word_mask start) k \<longleftrightarrow> start \<le> ?s + k \<and> bit_inv invert m (?s + k)" if "k < 64" for k
  proof -
    have "start \<le> ?s + k \<longleftrightarrow> start mod 64 \<le> k" using s(5) by linarith
    then show ?thesis using that block_div [OF that s(1)] s(2) by (auto simp: bit_inv_def bit_and_iff bit_first_word_mask)
  qed
  then have "\<exists>i. find_next_from m nbits ?s invert ((?w XOR invert) AND first_word_mask start) = Some i \<and>
      first_in (bit_inv invert m) start nbits i"
    using s True assms by (intro find_next_from_first) auto
  then show ?thesis using True ld by (simp add: find_next_bit_inv_def Let_def)
qed (simp add: find_next_bit_inv_def)

lemma find_next_bit_first:
  assumes "sz \<le> 64 * length m"
  shows "\<exists>i. find_next_bit m sz off = Some i \<and> (if off < sz then first_in (bit_at m) off sz i else i = sz)"
    and "\<exists>i. find_next_zero_bit m sz off = Some i \<and>
      (if off < sz then first_in (\<lambda>k. \<not> bit_at m k) off sz i else i = sz)"
proof -
  have "bit_inv 0 m = bit_at m" "bit_inv (NOT 0) m = (\<lambda>k. \<not> bit_at m k)" by (rule ext, rule bit_inv_simps)+
  then show "\<exists>i. find_next_bit m sz off = Some i \<and> (if off < sz then first_in (bit_at m) off sz i else i = sz)"
    and "\<exists>i. find_next_zero_bit m sz off = Some i \<and>
      (if off < sz then first_in (\<lambda>k. \<not> bit_at m k) off sz i else i = sz)"
    using find_next_bit_inv_first [OF assms, of off 0] find_next_bit_inv_first [OF assms, of off "NOT 0"]
    unfolding find_next_bit_def find_next_zero_bit_def by auto
qed

lemma find_next_from_ge:
  "find_next_from m nbits start invert tmp = Some i \<Longrightarrow> lo < start + 64 \<Longrightarrow>
    (\<And>k. bit tmp k \<Longrightarrow> lo \<le> start + k) \<Longrightarrow> min lo nbits \<le> i"
proof (induction m nbits start invert tmp rule: find_next_from.induct)
  case (1 m nbits start invert tmp)
  show ?case
  proof (cases "tmp = 0 \<and> \<not> nbits \<le> start + 64")
    case True
    then obtain w where "load m ((start + 64) div 64) = Some w"
      "find_next_from m nbits (start + 64) invert (w XOR invert) = Some i"
      using "1.prems"(1) by (subst (asm) find_next_from.simps) (auto split: Option.bind_splits)
    then show ?thesis using "1.IH" True "1.prems"(2) by auto
  next
    case False
    then show ?thesis using "1.prems" ffs_spec(2) [of tmp]
      by (subst (asm) find_next_from.simps) (fastforce split: if_splits)
  qed
qed

lemma find_next_bit_inv_ge:
  assumes "find_next_bit_inv m nbits start invert = Some i"
  shows "min start nbits \<le> i"
proof (cases "start < nbits")
  case True
  then obtain w where w: "find_next_from m nbits (start - start mod 64) invert ((w XOR invert) AND first_word_mask start) = Some i"
    using assms by (auto simp: find_next_bit_inv_def Let_def split: Option.bind_splits)
  have "start = (start - start mod 64) + start mod 64" "start mod 64 < 64" by simp_all
  then show ?thesis
    by (intro find_next_from_ge [OF w]) (auto simp: bit_and_iff bit_first_word_mask)
qed (use assms in \<open>simp add: find_next_bit_inv_def\<close>)

section \<open>What the operations do to the bits\<close>

lemma bit_at_update:
  "p < length m \<Longrightarrow> bit_at (m[p := w]) i = (if i div 64 = p then bit w (i mod 64) else bit_at m i)"
  by (simp add: bit_at_def)

text \<open>An update of a word that writes one value to the positions of a mask.\<close>

definition writes :: "bool \<Rightarrow> (u64 \<Rightarrow> u64 \<Rightarrow> u64) \<Rightarrow> bool" where
  "writes v f \<longleftrightarrow> (\<forall>w k i. i < 64 \<longrightarrow> bit (f w k) i = (if bit k i then v else bit w i))"

lemma writes_simps [simp]: "writes True (OR)" "writes False (\<lambda>w k. w AND NOT k)"
  by (auto simp: writes_def bit_simps)

lemma block_cases:
  fixes i s :: nat
  assumes "i div 64 = s div 64"
  shows "i < 64 * (s div 64) + 64" "s \<le> i \<longleftrightarrow> s mod 64 \<le> i mod 64" "i = 64 * (s div 64) + i mod 64"
proof -
  have "i = 64 * (s div 64) + i mod 64" using assms by (metis mult_div_mod_eq)
  then show "i = 64 * (s div 64) + i mod 64" .
  moreover have "s = 64 * (s div 64) + s mod 64" "i mod 64 < 64" by simp_all
  ultimately show "i < 64 * (s div 64) + 64" "s \<le> i \<longleftrightarrow> s mod 64 \<le> i mod 64" by linarith+
qed

lemma block_other:
  fixes i s :: nat
  assumes "i div 64 \<noteq> s div 64"
  shows "s \<le> i \<longleftrightarrow> 64 * (s div 64) + 64 \<le> i"
proof -
  have "s < 64 * (s div 64) + 64" by simp
  moreover have "s div 64 < i div 64 \<longleftrightarrow> 64 * (s div 64) + 64 \<le> i"
    by (simp add: Suc_le_eq [symmetric] less_eq_div_iff_mult_less_eq algebra_simps)
  moreover have "s \<le> i \<Longrightarrow> s div 64 < i div 64" using assms div_le_mono [of s i 64] by simp
  ultimately show ?thesis by linarith
qed

lemma set_from_bits:
  assumes "writes v f" "s + len \<le> 64 * length m"
  shows "\<exists>m'. set_from f m (s div 64) len (64 - s mod 64) (first_word_mask s) (s + len) = Some m' \<and>
    length m' = length m \<and>
    (\<forall>i < 64 * length m. bit_at m' i = (if s \<le> i \<and> i < s + len then v else bit_at m i))"
  using assms(2)
proof (induction len arbitrary: s m rule: less_induct)
  case (less len)
  let ?todo = "64 - s mod 64"
  let ?p = "s div 64"
  let ?w = "m ! ?p"
  have s: "s = 64 * ?p + s mod 64" "s mod 64 < 64" by simp_all
  have w: "bit (f ?w k) j = (if bit k j then v else bit ?w j)" if "j < 64" for k j
    using assms(1) that by (simp add: writes_def)
  show ?case
  proof (cases "?todo \<le> len")
    case True
    let ?m = "m[?p := f ?w (first_word_mask s)]"
    have p: "?p < length m" using True less.prems s by linarith
    have nxt: "s + ?todo = 64 * ?p + 64" using s by linarith
    have lt: "len - ?todo < len" using True s(2) by linarith
    have fw: "first_word_mask (64 * ?p + 64) = NOT 0" by (simp add: first_word_mask_def)
    obtain m' where m': "set_from f ?m (Suc ?p) (len - ?todo) 64 (NOT 0) (s + len) = Some m'"
      "length m' = length m"
      "\<forall>i < 64 * length m. bit_at m' i = (if s + ?todo \<le> i \<and> i < s + len then v else bit_at ?m i)"
      using less.IH [OF lt, of "s + ?todo" ?m] True less.prems unfolding nxt by (auto simp: fw)
    have "bit_at m' i = (if s \<le> i \<and> i < s + len then v else bit_at m i)" if "i < 64 * length m" for i
    proof (cases "i div 64 = ?p")
      case blk: True
      have "i < s + ?todo" using block_cases(1) [OF blk] nxt by simp
      moreover have "bit_at ?m i = (if s \<le> i then v else bit_at m i)"
        using blk p block_cases(2) [OF blk] w by (simp add: bit_at_update bit_first_word_mask bit_at_def)
      ultimately show ?thesis using m'(3) that True by auto
    next
      case False
      then show ?thesis using m'(3) that block_other [OF False] p nxt by (simp add: bit_at_update)
    qed
    then show ?thesis using m'(1,2) True s(2) p
      by (subst set_from.simps) (simp add: load_def store_def)
  next
    case False
    show ?thesis
    proof (cases "len = 0")
      case nz: False
      let ?m = "m[?p := f ?w (first_word_mask s AND last_word_mask (s + len))]"
      have p: "?p < length m" using nz less.prems s by linarith
      have last: "(s + len) mod 64 = s mod 64 + len"
        using block_div [of "s mod 64 + len" "64 * ?p"] False s by simp
      have "bit_at ?m i = (if s \<le> i \<and> i < s + len then v else bit_at m i)" if "i < 64 * length m" for i
      proof (cases "i div 64 = ?p")
        case blk: True
        have "i < s + len \<longleftrightarrow> i mod 64 < s mod 64 + len" using block_cases(3) [OF blk] s by linarith
        then show ?thesis
          using blk p block_cases(2) [OF blk] w nz last
          by (simp add: bit_at_update bit_and_iff bit_first_word_mask bit_last_word_mask bit_at_def)
      next
        case blk: False
        then have "\<not> (s \<le> i \<and> i < s + len)" using block_other [OF blk] False s by linarith
        then show ?thesis using blk p by (auto simp: bit_at_update)
      qed
      then show ?thesis using nz False p
        by (subst set_from.simps) (simp add: load_def store_def)
    qed (use False in \<open>subst set_from.simps; auto\<close>)
  qed
qed

text \<open>
  C17: \<^verbatim>\<open>find_next_bit\<close> and \<^verbatim>\<open>find_next_zero_bit\<close> stay inside the bitmap and return the first set
  (clear) bit at or after the offset, or the size of the bitmap when there is none; an offset
  past the end gives the size. The loop over words ends on every input.
\<close>

theorem find_next_bit_is_first:
  assumes "sz \<le> 64 * length m"
  shows "\<exists>i j. find_next_bit m sz off = Some i \<and> find_next_zero_bit m sz off = Some j \<and>
    (if off < sz then first_in (bit_at m) off sz i \<and> first_in (\<lambda>k. \<not> bit_at m k) off sz j
     else i = sz \<and> j = sz)"
  using find_next_bit_first [OF assms, of off] by (auto split: if_splits)

theorem find_next_bit_is_first_witness:
  "100 \<le> 64 * length [6, 8 :: u64] \<and> find_next_bit [6, 8] 100 3 = Some 67 \<and>
   (\<exists>i j. find_next_bit [6, 8] 100 3 = Some i \<and> find_next_zero_bit [6, 8] 100 3 = Some j \<and>
    first_in (bit_at [6, 8]) 3 100 i \<and> first_in (\<lambda>k. \<not> bit_at [6, 8] k) 3 100 j)"
proof -
  have "find_next_bit [6, 8] 100 3 = Some 67" by code_simp
  then show ?thesis using find_next_bit_is_first [of 100 "[6, 8]" 3] by simp
qed

text \<open>
  C19: \<^verbatim>\<open>bitmap_set\<close> and \<^verbatim>\<open>bitmap_clear\<close> on a range inside the bitmap succeed and change exactly the
  bits of the range: those become set (clear) and every other bit keeps its value, whatever the
  position of the range relative to word boundaries.
\<close>

theorem bitmap_set_clear_range:
  assumes "start + len \<le> 64 * length m"
  shows "\<exists>m1 m2. bitmap_set m start len = Some m1 \<and> bitmap_clear m start len = Some m2 \<and>
    length m1 = length m \<and> length m2 = length m \<and>
    (\<forall>i. i < 64 * length m \<longrightarrow>
       bit_at m1 i = (start \<le> i \<and> i < start + len \<or> bit_at m i) \<and>
       bit_at m2 i = (bit_at m i \<and> \<not> (start \<le> i \<and> i < start + len)))"
  using set_from_bits [OF writes_simps(1) assms] set_from_bits [OF writes_simps(2) assms]
  unfolding bitmap_set_def bitmap_clear_def by fastforce

theorem bitmap_set_clear_range_witness:
  "60 + 10 \<le> 64 * length [0, 3 :: u64] \<and> bitmap_set [0, 3] 60 10 = Some [0xf000000000000000, 0x3f] \<and>
   (\<exists>m1. bitmap_set [0, 3] 60 10 = Some m1 \<and> length m1 = 2 \<and> bit_at m1 69)"
proof -
  have "bitmap_set [0, 3] 60 10 = Some [0xf000000000000000, 0x3f]" by code_simp
  then show ?thesis using bitmap_set_clear_range [of 60 10 "[0, 3]"] by (auto dest: spec [of _ 69])
qed

end
