(* ===== verification/Kernel_Bitmap_Areas.thy ===== *)
theory Kernel_Bitmap_Areas
  imports Kernel_Bitmap
begin

text \<open>
  The rest of \<^verbatim>\<open>lib/bitmap.c\<close>: the search for an aligned free area, the mappings between ordinals and
  positions and the bitmap operations built on them (\<^verbatim>\<open>bitmap_remap\<close>, \<^verbatim>\<open>bitmap_onto\<close>, \<^verbatim>\<open>bitmap_fold\<close>),
  the allocator of power-of-two regions and the conversion from and to arrays of 32-bit words. A
  position plus the length and alignment asked for is taken to be below \<^verbatim>\<open>ULONG_MAX\<close>, so that the
  sums of the source do not wrap around.
\<close>

unbundle bit_operations_syntax

section \<open>Free areas\<close>






section \<open>Mapping bitmaps\<close>

definition bitmap_pos_to_ord :: "u64 list \<Rightarrow> nat \<Rightarrow> nat \<Rightarrow> int option" where
  "bitmap_pos_to_ord buf pos nbits =
     (if pos \<ge> nbits then Some (- 1)
      else do {
        b \<leftarrow> test_bit pos buf;
        if \<not> b then Some (- 1) else map_option int (bitmap_weight buf pos)
      })"

fun ord_to_pos_from :: "u64 list \<Rightarrow> nat \<Rightarrow> nat \<Rightarrow> nat \<Rightarrow> nat option" where
  "ord_to_pos_from buf 0 nbits pos = Some pos"
| "ord_to_pos_from buf (Suc ord) nbits pos =
     (if pos < nbits then do {
        pos \<leftarrow> find_next_bit buf nbits (pos + 1);
        ord_to_pos_from buf ord nbits pos
      } else Some pos)"

definition bitmap_ord_to_pos :: "u64 list \<Rightarrow> nat \<Rightarrow> nat \<Rightarrow> nat option" where
  "bitmap_ord_to_pos buf ord nbits = do {
     pos \<leftarrow> find_first_bit buf nbits;
     ord_to_pos_from buf ord nbits pos
   }"

text \<open>
  The loop \<^verbatim>\<open>for_each_set_bit\<close> from a position on, with a body that updates a state.
\<close>

function for_each_set_bit_from :: "(nat \<Rightarrow> 's \<Rightarrow> 's option) \<Rightarrow> u64 list \<Rightarrow> nat \<Rightarrow> nat \<Rightarrow> 's \<Rightarrow> 's option" where
  "for_each_set_bit_from body m sz i s =
     (if i < sz then do {
        s \<leftarrow> body i s;
        j \<leftarrow> find_next_bit m sz (i + 1);
        for_each_set_bit_from body m sz j s
      } else Some s)"
  by auto
termination
proof (relation "measure (\<lambda>(_, _, sz, i, _). sz - i)", goal_cases)
  case (2 body m sz i s s' j)
  have "min (i + 1) sz \<le> j" using find_next_bit_inv_ge 2(3) by (simp add: find_next_bit_def)
  then show ?case using 2(1) by auto
qed simp

declare for_each_set_bit_from.simps [simp del]

definition for_each_set_bit :: "(nat \<Rightarrow> 's \<Rightarrow> 's option) \<Rightarrow> u64 list \<Rightarrow> nat \<Rightarrow> 's \<Rightarrow> 's option" where
  "for_each_set_bit body m sz s = do {
     i \<leftarrow> find_first_bit m sz;
     for_each_set_bit_from body m sz i s
   }"

text \<open>For the next three, a source of None is the destination itself, which is left alone.\<close>

definition bitmap_remap :: "u64 list \<Rightarrow> u64 list option \<Rightarrow> u64 list \<Rightarrow> u64 list \<Rightarrow> nat \<Rightarrow> u64 list option" where
  "bitmap_remap dst src old new nbits =
     (case src of
        None \<Rightarrow> Some dst
      | Some src \<Rightarrow> do {
          dst \<leftarrow> bitmap_zero dst nbits;
          w \<leftarrow> bitmap_weight new nbits;
          for_each_set_bit (\<lambda>oldbit dst. do {
            n \<leftarrow> bitmap_pos_to_ord old oldbit nbits;
            if n < 0 \<or> w = 0 then set_bit_op oldbit dst
            else do { p \<leftarrow> bitmap_ord_to_pos new (nat n mod w) nbits; set_bit_op p dst }
          }) src nbits dst
        })"

definition bitmap_bitremap :: "nat \<Rightarrow> u64 list \<Rightarrow> u64 list \<Rightarrow> nat \<Rightarrow> nat option" where
  "bitmap_bitremap oldbit old new bits = do {
     w \<leftarrow> bitmap_weight new bits;
     n \<leftarrow> bitmap_pos_to_ord old oldbit bits;
     if n < 0 \<or> w = 0 then Some oldbit else bitmap_ord_to_pos new (nat n mod w) bits
   }"

definition bitmap_onto :: "u64 list \<Rightarrow> u64 list option \<Rightarrow> u64 list \<Rightarrow> nat \<Rightarrow> u64 list option" where
  "bitmap_onto dst orig relmap bits =
     (case orig of
        None \<Rightarrow> Some dst
      | Some orig \<Rightarrow> do {
          dst \<leftarrow> bitmap_zero dst bits;
          (dst, _) \<leftarrow> for_each_set_bit (\<lambda>n (dst, m). do {
            b \<leftarrow> test_bit m orig;
            dst \<leftarrow> (if b then set_bit_op n dst else Some dst);
            Some (dst, m + 1)
          }) relmap bits (dst, 0);
          Some dst
        })"

definition bitmap_fold :: "u64 list \<Rightarrow> u64 list option \<Rightarrow> nat \<Rightarrow> nat \<Rightarrow> u64 list option" where
  "bitmap_fold dst orig sz nbits =
     (case orig of
        None \<Rightarrow> Some dst
      | Some orig \<Rightarrow> do {
          dst \<leftarrow> bitmap_zero dst nbits;
          for_each_set_bit (\<lambda>oldbit dst. if sz = 0 then None else set_bit_op (oldbit mod sz) dst) orig nbits dst
        })"

section \<open>Aligned regions\<close>

datatype reg_op_kind = REG_OP_ISFREE | REG_OP_ALLOC | REG_OP_RELEASE

fun region_free :: "u64 list \<Rightarrow> nat \<Rightarrow> nat \<Rightarrow> u64 \<Rightarrow> bool option" where
  "region_free m index 0 msk = Some True"
| "region_free m index (Suc n) msk = do {
     w \<leftarrow> load m index;
     if w AND msk \<noteq> 0 then Some False else region_free m (Suc index) n msk
   }"

fun region_update :: "(u64 \<Rightarrow> u64 \<Rightarrow> u64) \<Rightarrow> u64 list \<Rightarrow> nat \<Rightarrow> nat \<Rightarrow> u64 \<Rightarrow> u64 list option" where
  "region_update f m index 0 msk = Some m"
| "region_update f m index (Suc n) msk = do {
     w \<leftarrow> load m index;
     m \<leftarrow> store m index (f w msk);
     region_update f m (Suc index) n msk
   }"

text \<open>The mask for one word of a region of \<open>2 ^ order\<close> bits.\<close>

definition region_mask :: "nat \<Rightarrow> nat \<Rightarrow> u64" where
  "region_mask pos order =
     (let nbitsinlong = min (2 ^ order) 64;
          msk = push_bit (nbitsinlong - 1) 1;
          msk = msk + (msk - 1)
      in push_bit (pos mod 64) msk)"

definition reg_op :: "u64 list \<Rightarrow> nat \<Rightarrow> nat \<Rightarrow> reg_op_kind \<Rightarrow> (u64 list \<times> bool) option" where
  "reg_op m pos order opn =
     (let index = pos div 64; nlongs_reg = BITS_TO_LONGS (2 ^ order); msk = region_mask pos order in
      case opn of
        REG_OP_ISFREE \<Rightarrow> map_option (\<lambda>r. (m, r)) (region_free m index nlongs_reg msk)
      | REG_OP_ALLOC \<Rightarrow> map_option (\<lambda>m. (m, False)) (region_update (OR) m index nlongs_reg msk)
      | REG_OP_RELEASE \<Rightarrow> map_option (\<lambda>m. (m, False)) (region_update (\<lambda>w k. w AND NOT k) m index nlongs_reg msk))"






definition bitmap_allocate_region :: "u64 list \<Rightarrow> nat \<Rightarrow> nat \<Rightarrow> (u64 list \<times> int) option" where
  "bitmap_allocate_region m pos order = do {
     (m, r) \<leftarrow> reg_op m pos order REG_OP_ISFREE;
     if \<not> r then Some (m, - EBUSY)
     else map_option (\<lambda>(m, _). (m, 0)) (reg_op m pos order REG_OP_ALLOC)
   }"

section \<open>Arrays of 32-bit words\<close>

fun from_u32array :: "u64 list \<Rightarrow> nat \<Rightarrow> u32 list \<Rightarrow> nat \<Rightarrow> nat \<Rightarrow> nat \<Rightarrow> nat \<Rightarrow> u64 list option" where
  "from_u32array m nbits buf nwords src_idx dst_idx 0 = Some m"
| "from_u32array m nbits buf nwords src_idx dst_idx (Suc n) = do {
     (part, src_idx) \<leftarrow> (if src_idx < nwords then map_option (\<lambda>w. (ucast w, src_idx + 1)) (load buf src_idx)
       else Some (0, src_idx));
     (part, src_idx) \<leftarrow> (if src_idx < nwords
       then map_option (\<lambda>w. (part OR push_bit 32 (ucast w), src_idx + 1)) (load buf src_idx)
       else Some (part, src_idx));
     m \<leftarrow> (if dst_idx < nbits div 64 then store m dst_idx part
       else do {
         w \<leftarrow> load m dst_idx;
         let msk = last_word_mask nbits;
         store m dst_idx ((w AND NOT msk) OR (part AND msk))
       });
     from_u32array m nbits buf nwords src_idx (Suc dst_idx) n
   }"

definition bitmap_from_u32array :: "u64 list \<Rightarrow> nat \<Rightarrow> u32 list \<Rightarrow> nat \<Rightarrow> (u64 list \<times> nat) option" where
  "bitmap_from_u32array m nbits buf nwords =
     map_option (\<lambda>m. (m, min nbits (32 * nwords))) (from_u32array m nbits buf nwords 0 0 (BITS_TO_LONGS nbits))"

function to_u32array :: "u32 list \<Rightarrow> nat \<Rightarrow> u64 list \<Rightarrow> nat \<Rightarrow> nat \<Rightarrow> nat \<Rightarrow> u32 list option" where
  "to_u32array buf nwords m nbits dst_idx src_idx =
     (if dst_idx < nwords then do {
        part \<leftarrow> (if src_idx < BITS_TO_LONGS nbits then do {
            w \<leftarrow> load m src_idx;
            Some (if src_idx \<ge> nbits div 64 then w AND last_word_mask nbits else w)
          } else Some 0);
        buf \<leftarrow> store buf dst_idx (ucast part);
        if dst_idx + 1 < nwords then do {
          buf \<leftarrow> store buf (dst_idx + 1) (ucast (drop_bit 32 part));
          to_u32array buf nwords m nbits (dst_idx + 2) (src_idx + 1)
        } else Some buf
      } else Some buf)"
  by auto
termination by (relation "measure (\<lambda>(_, nwords, _, _, dst_idx, _). nwords - dst_idx)") auto

declare to_u32array.simps [simp del]

definition bitmap_to_u32array :: "u32 list \<Rightarrow> nat \<Rightarrow> u64 list \<Rightarrow> nat \<Rightarrow> (u32 list \<times> nat) option" where
  "bitmap_to_u32array buf nwords m nbits =
     map_option (\<lambda>buf. (buf, min nbits (32 * nwords))) (to_u32array buf nwords m nbits 0 0)"

section \<open>The areas found\<close>









section \<open>Regions\<close>





















end
