(* ===== verification/Kernel_Bitmap_Parse.thy ===== *)
theory Kernel_Bitmap_Parse
  imports Kernel_Bitmap
begin

text \<open>
  The parsers of bitmap strings in \<^verbatim>\<open>lib/bitmap.c\<close>: chunks of hexadecimal digits (\<^verbatim>\<open>__bitmap_parse\<close>)
  and lists of ranges (\<^verbatim>\<open>__bitmap_parselist\<close>), on kernel and on user buffers. \<open>Bug\<close> is an access out
  of bounds. The loops over the characters recurse on the length of the buffer; the loop that
  sets the groups of a range may run forever and has a fuel argument.
\<close>

unbundle bit_operations_syntax

section \<open>Reading characters\<close>

text \<open>A kernel buffer, or a user buffer on which a read may fault.\<close>

datatype text_source = Kernel "u8 list" | User "nat \<Rightarrow> u8 option"

fun get_char :: "text_source \<Rightarrow> nat \<Rightarrow> u8 option outcome" where
  "get_char (Kernel buf) i = (if i < length buf then Ret (Some (buf ! i)) else Bug)"
| "get_char (User g) i = Ret (g i)"

definition or_bug :: "'a option \<Rightarrow> 'a outcome" where
  "or_bug x = (case x of None \<Rightarrow> Bug | Some y \<Rightarrow> Ret y)"

definition hex_to_bin :: "u8 \<Rightarrow> int" where
  "hex_to_bin ch =
     (if 48 \<le> sint ch \<and> sint ch \<le> 57 then sint ch - 48
      else let ch = tolower ch in if 97 \<le> sint ch \<and> sint ch \<le> 102 then sint ch - 97 + 10 else - 1)"

section \<open>Hexadecimal chunks\<close>

abbreviation (input) EOVERFLOW :: int where "EOVERFLOW \<equiv> 75"

record hex_state =
  h_c :: u8
  h_pos :: nat
  h_left :: nat
  h_digits :: nat
  h_chunk :: u32

text \<open>The inner loop: the digits of one chunk. \<open>Inl\<close> is a return of the whole function.\<close>

fun chunk_scan :: "text_source \<Rightarrow> nat \<Rightarrow> hex_state \<Rightarrow> (int + hex_state) outcome" where
  "chunk_scan src 0 s = Ret (Inr (s\<lparr>h_left := 0\<rparr>))"
| "chunk_scan src (Suc n) s =
     obind (get_char src (h_pos s)) (\<lambda>r. case r of
       None \<Rightarrow> Ret (Inl (- EFAULT))
     | Some c \<Rightarrow>
         let old_c = h_c s; s = s\<lparr>h_c := c, h_pos := h_pos s + 1, h_left := n\<rparr> in
         if isspace c then chunk_scan src n s
         else if h_digits s \<noteq> 0 \<and> c \<noteq> 0 \<and> isspace old_c then Ret (Inl (- EINVAL))
         else if c = 0 \<or> c = 0x2c then Ret (Inr s)
         else if \<not> isxdigit c then Ret (Inl (- EINVAL))
         else if h_chunk s AND NOT (push_bit 28 1 - 1) \<noteq> 0 then Ret (Inl (- EOVERFLOW))
         else chunk_scan src n (s\<lparr>h_chunk := push_bit 4 (h_chunk s) OR of_int (hex_to_bin c),
                h_digits := h_digits s + 1\<rparr>))"

definition fls32 :: "u32 \<Rightarrow> nat" where
  "fls32 w = (if w = 0 then 0 else fls (ucast w) + 1)"

fun parse_chunks :: "nat \<Rightarrow> text_source \<Rightarrow> nat \<Rightarrow> hex_state \<Rightarrow> nat \<Rightarrow> nat \<Rightarrow> u64 list \<Rightarrow> (u64 list \<times> int) outcome" where
  "parse_chunks 0 src nmaskbits s nchunks nbits m = NoFuel"
| "parse_chunks (Suc n) src nmaskbits s nchunks nbits m =
     obind (chunk_scan src (h_left s) (s\<lparr>h_chunk := 0\<rparr>)) (\<lambda>r. case r of
       Inl err \<Rightarrow> Ret (m, err)
     | Inr s' \<Rightarrow>
         if h_digits s' = h_digits s then Ret (m, - EINVAL)
         else
           let more = (h_left s' \<noteq> 0 \<and> h_c s' = 0x2c) in
           if nchunks = 0 \<and> h_chunk s' = 0 then
             if more then parse_chunks n src nmaskbits s' nchunks nbits m else Ret (m, 0)
           else
             obind (or_bug (bitmap_shift_left m None 32 nmaskbits)) (\<lambda>m.
             obind (or_bug (load m 0)) (\<lambda>w.
             obind (or_bug (store m 0 (w OR ucast (h_chunk s')))) (\<lambda>m.
               let nchunks = nchunks + 1;
                   nbits = nbits + (if nchunks = 1 then fls32 (h_chunk s') else 32) in
               if nbits > nmaskbits then Ret (m, - EOVERFLOW)
               else if more then parse_chunks n src nmaskbits s' nchunks nbits m else Ret (m, 0)))))"

definition bitmap_parse :: "text_source \<Rightarrow> nat \<Rightarrow> u64 list \<Rightarrow> nat \<Rightarrow> (u64 list \<times> int) outcome" where
  "bitmap_parse src buflen m nmaskbits =
     obind (or_bug (bitmap_zero m nmaskbits))
       (parse_chunks (Suc buflen) src nmaskbits \<lparr>h_c = 0, h_pos = 0, h_left = buflen, h_digits = 0, h_chunk = 0\<rparr> 0 0)"

definition bitmap_parse_user ::
  "(nat \<Rightarrow> bool) \<Rightarrow> (nat \<Rightarrow> u8 option) \<Rightarrow> nat \<Rightarrow> u64 list \<Rightarrow> nat \<Rightarrow> (u64 list \<times> int) outcome" where
  "bitmap_parse_user access_ok g ulen m nmaskbits =
     (if \<not> access_ok ulen then Ret (m, - EFAULT) else bitmap_parse (User g) ulen m nmaskbits)"

section \<open>Lists of ranges\<close>

record list_state =
  l_c :: u8
  l_pos :: nat
  l_left :: nat
  l_digits :: nat
  l_a :: u32
  l_b :: u32
  l_old_a :: u32
  l_old_b :: u32
  l_used :: u32
  l_group :: u32
  l_at_start :: bool
  l_in_range :: bool
  l_partial :: bool

text \<open>The inner loop: one number or range. \<open>nd\<close> is the number of digits before it.\<close>

fun list_scan :: "text_source \<Rightarrow> nat \<Rightarrow> nat \<Rightarrow> list_state \<Rightarrow> (int + list_state) outcome" where
  "list_scan src 0 nd s = Ret (Inr (s\<lparr>l_left := 0\<rparr>))"
| "list_scan src (Suc n) nd s =
     obind (get_char src (l_pos s)) (\<lambda>r. case r of
       None \<Rightarrow> Ret (Inl (- EFAULT))
     | Some c \<Rightarrow>
         let old_c = l_c s; s = s\<lparr>l_c := c, l_pos := l_pos s + 1, l_left := n\<rparr> in
         if isspace c then list_scan src n nd s
         else if c = 0 \<or> c = 0x2c then Ret (Inr s)
         else if l_digits s \<noteq> nd \<and> isspace old_c then Ret (Inl (- EINVAL))
         else if c = 0x2f then
           list_scan src n nd (s\<lparr>l_used := l_a s, l_at_start := True, l_in_range := False, l_a := 0, l_b := 0\<rparr>)
         else if c = 0x3a then
           list_scan src n nd (s\<lparr>l_old_a := l_a s, l_old_b := l_b s, l_at_start := True, l_in_range := False,
             l_partial := True, l_a := 0, l_b := 0\<rparr>)
         else if c = 0x2d then
           if l_at_start s \<or> l_in_range s then Ret (Inl (- EINVAL))
           else list_scan src n nd (s\<lparr>l_b := 0, l_in_range := True, l_at_start := True\<rparr>)
         else if \<not> isdigit c then Ret (Inl (- EINVAL))
         else
           let b = l_b s * 10 + (ucast c - 0x30) in
           list_scan src n nd (s\<lparr>l_b := b, l_a := if l_in_range s then l_a s else b, l_at_start := False,
             l_digits := l_digits s + 1\<rparr>))"

text \<open>The loop that sets the bits of a range, group by group, with 32-bit arithmetic.\<close>

fun set_groups :: "nat \<Rightarrow> u64 list \<Rightarrow> u32 \<Rightarrow> u32 \<Rightarrow> u32 \<Rightarrow> u32 \<Rightarrow> u64 list outcome" where
  "set_groups 0 m a b used_size group_size = NoFuel"
| "set_groups (Suc fuel) m a b used_size group_size =
     (if a \<le> b then
        obind (or_bug (bitmap_set m (unat a) (unat (min (b - a + 1) used_size))))
          (\<lambda>m. set_groups fuel m (a + group_size) b used_size group_size)
      else Ret m)"

text \<open>The numbers of a parsed range: group size, first and last bit, with the used size.\<close>

definition range_numbers :: "list_state \<Rightarrow> list_state" where
  "range_numbers s =
     (if l_partial s then s\<lparr>l_group := l_a s, l_a := l_old_a s, l_b := l_old_b s, l_old_a := 0, l_old_b := 0\<rparr>
      else s\<lparr>l_used := l_b s - l_a s + 1, l_group := l_b s - l_a s + 1\<rparr>)"

fun list_items :: "nat \<Rightarrow> nat \<Rightarrow> text_source \<Rightarrow> u32 \<Rightarrow> list_state \<Rightarrow> u64 list \<Rightarrow> (u64 list \<times> int) outcome" where
  "list_items fuel 0 src nmaskbits s m = NoFuel"
| "list_items fuel (Suc n) src nmaskbits s m =
     obind (list_scan src (l_left s) (l_digits s)
         (s\<lparr>l_at_start := True, l_in_range := False, l_partial := False, l_a := 0, l_b := 0\<rparr>)) (\<lambda>r. case r of
       Inl err \<Rightarrow> Ret (m, err)
     | Inr s' \<Rightarrow>
         let more = (l_left s' \<noteq> 0 \<and> l_c s' = 0x2c) in
         if l_digits s' = l_digits s then
           if more then list_items fuel n src nmaskbits s' m else Ret (m, 0)
         else
           let s' = range_numbers s' in
           if l_at_start s' \<and> l_in_range s' then Ret (m, - EINVAL)
           else if \<not> l_a s' \<le> l_b s' \<or> \<not> l_used s' \<le> l_group s' then Ret (m, - EINVAL)
           else if l_b s' \<ge> nmaskbits then Ret (m, - ERANGE)
           else
             obind (set_groups fuel m (l_a s') (l_b s') (l_used s') (l_group s')) (\<lambda>m.
               if more then list_items fuel n src nmaskbits s' m else Ret (m, 0)))"

definition list_start :: "nat \<Rightarrow> list_state" where
  "list_start buflen = \<lparr>l_c = 0, l_pos = 0, l_left = buflen, l_digits = 0, l_a = 0, l_b = 0, l_old_a = 0, l_old_b = 0,
     l_used = 0, l_group = 0, l_at_start = False, l_in_range = False, l_partial = False\<rparr>"

definition parselist :: "nat \<Rightarrow> text_source \<Rightarrow> nat \<Rightarrow> u64 list \<Rightarrow> nat \<Rightarrow> (u64 list \<times> int) outcome" where
  "parselist fuel src buflen m nmaskbits =
     obind (or_bug (bitmap_zero m nmaskbits))
       (list_items fuel (Suc buflen) src (of_nat nmaskbits) (list_start buflen))"

definition bitmap_parselist :: "nat \<Rightarrow> u8 list \<Rightarrow> u64 list \<Rightarrow> nat \<Rightarrow> (u64 list \<times> int) outcome" where
  "bitmap_parselist fuel bp m nmaskbits =
     obind (or_bug (strchrnul bp 0x0a)) (\<lambda>len. parselist fuel (Kernel bp) len m nmaskbits)"

definition bitmap_parselist_user ::
  "(nat \<Rightarrow> bool) \<Rightarrow> nat \<Rightarrow> (nat \<Rightarrow> u8 option) \<Rightarrow> nat \<Rightarrow> u64 list \<Rightarrow> nat \<Rightarrow> (u64 list \<times> int) outcome" where
  "bitmap_parselist_user access_ok fuel g ulen m nmaskbits =
     (if \<not> access_ok ulen then Ret (m, - EFAULT) else parselist fuel (User g) ulen m nmaskbits)"

section \<open>When the list parser returns\<close>

text \<open>What the inner loop gives back on a kernel buffer when at most \<open>n\<close> characters are left.\<close>

definition scan_ok :: "u8 list \<Rightarrow> nat \<Rightarrow> bool \<Rightarrow> (int + list_state) outcome \<Rightarrow> bool" where
  "scan_ok buf n partial x \<longleftrightarrow> (\<exists>r. x = Ret r \<and> (\<forall>s'. r = Inr s' \<longrightarrow> l_pos s' + l_left s' \<le> length buf \<and>
     l_left s' \<le> n \<and> (0x3a \<notin> set buf \<longrightarrow> l_partial s' = partial)))"

lemma scan_ok_if: "(b \<Longrightarrow> scan_ok buf n p x) \<Longrightarrow> (\<not> b \<Longrightarrow> scan_ok buf n p y) \<Longrightarrow> scan_ok buf n p (if b then x else y)"
  by simp

lemma scan_ok_Ret [simp]:
  "scan_ok buf n p (Ret (Inl e))"
  "scan_ok buf n p (Ret (Inr s)) \<longleftrightarrow> l_pos s + l_left s \<le> length buf \<and> l_left s \<le> n \<and> (0x3a \<notin> set buf \<longrightarrow> l_partial s = p)"
  by (auto simp: scan_ok_def)

lemma scan_ok_mono:
  "scan_ok buf n p x \<Longrightarrow> n \<le> n' \<Longrightarrow> 0x3a \<in> set buf \<or> p = p' \<Longrightarrow> scan_ok buf n' p' x"
  by (auto simp: scan_ok_def intro: order_trans)

lemma list_scan_kernel:
  "l_pos s + n \<le> length buf \<Longrightarrow> scan_ok buf (n - 1) (l_partial s) (list_scan (Kernel buf) n nd s)"
proof (induction n arbitrary: s)
  case (Suc n)
  have pos: "l_pos s < length buf" and le: "Suc (l_pos s + n) \<le> length buf" using Suc.prems by simp_all
  let ?c = "buf ! l_pos s"
  have mem: "?c = 0x3a \<Longrightarrow> 0x3a \<in> set buf" using pos nth_mem by metis
  have rec: "scan_ok buf n (l_partial s) (list_scan (Kernel buf) n nd s1)"
    if "l_pos s1 = l_pos s + 1" "0x3a \<in> set buf \<or> l_partial s1 = l_partial s" for s1
    using Suc.IH [of s1, THEN scan_ok_mono] Suc.prems that by simp
  have "scan_ok buf n (l_partial s) (list_scan (Kernel buf) (Suc n) nd s)"
    unfolding list_scan.simps get_char.simps if_P [OF pos] obind.simps option.case Let_def
    by (intro scan_ok_if) ((rule rec, simp, simp add: mem) | simp add: le)+
  then show ?case by simp
qed simp

lemma bitmap_set_some:
  assumes "start + len \<le> 64 * length m"
  shows "\<exists>m'. bitmap_set m start len = Some m' \<and> length m' = length m"
  using set_from_bits [OF writes_simps(1) assms] by (auto simp: bitmap_set_def)

lemma set_groups_once:
  assumes "a \<le> b" "unat b < 64 * length m" "unat b + 1 < 2 ^ 32"
  shows "\<exists>m'. set_groups 2 m a b (b - a + 1) (b - a + 1) = Ret m' \<and> length m' = length m"
proof -
  have "unat (b - a) = unat b - unat a" using assms(1) by (simp add: unat_sub word_le_nat_alt)
  then have "unat (b - a + 1) = unat b - unat a + 1" using assms(3) by (subst unat_add_no_wrap) auto
  then have "unat a + unat (b - a + 1) \<le> 64 * length m" using assms(1,2) by (simp add: word_le_nat_alt)
  then obtain m' where m': "bitmap_set m (unat a) (unat (b - a + 1)) = Some m'" "length m' = length m"
    using bitmap_set_some by blast
  have "unat (b + 1) = unat b + 1" using assms(3) by (subst unat_add_no_wrap) auto
  then have "\<not> b + 1 \<le> b" by (simp add: word_le_nat_alt)
  moreover have "a + (b - a + 1) = b + 1" by simp
  ultimately show ?thesis using m' assms(1) by (simp add: or_bug_def numeral_2_eq_2)
qed

lemma list_items_return:
  "l_left s < n \<Longrightarrow> l_pos s + l_left s \<le> length buf \<Longrightarrow> 0x3a \<notin> set buf \<Longrightarrow> unat nmaskbits \<le> 64 * length m \<Longrightarrow>
    unat nmaskbits < 2 ^ 31 \<Longrightarrow> \<exists>m' r. list_items 2 n (Kernel buf) nmaskbits s m = Ret (m', r)"
proof (induction n arbitrary: s m)
  case (Suc n)
  let ?s = "s\<lparr>l_at_start := True, l_in_range := False, l_partial := False, l_a := 0, l_b := 0\<rparr>"
  obtain r where r: "list_scan (Kernel buf) (l_left s) (l_digits s) ?s = Ret r"
    "\<And>s'. r = Inr s' \<Longrightarrow> l_pos s' + l_left s' \<le> length buf \<and> l_left s' \<le> l_left s \<and>
       (l_left s \<noteq> 0 \<longrightarrow> l_left s' < l_left s) \<and> l_partial s' = False"
    using list_scan_kernel [of ?s "l_left s" buf "l_digits s"] Suc.prems(2,3) by (fastforce simp: scan_ok_def)
  show ?case
  proof (cases r)
    case (Inr s')
    define s1 where "s1 = range_numbers s'"
    have keep: "l_left s1 = l_left s'" "l_pos s1 = l_pos s'" "l_used s1 = l_b s1 - l_a s1 + 1" "l_group s1 = l_b s1 - l_a s1 + 1"
      using r(2) [OF Inr] by (simp_all add: s1_def range_numbers_def)
    have more: "\<exists>m' r. list_items 2 n (Kernel buf) nmaskbits s2 m2 = Ret (m', r)"
      if "l_left s' \<noteq> 0" "l_left s2 = l_left s'" "l_pos s2 = l_pos s'" "length m2 = length m" for s2 m2
      using Suc.IH [of s2 m2] that r(2) [OF Inr] Suc.prems by auto
    have sets: "\<exists>m2. set_groups 2 m (l_a s1) (l_b s1) (l_used s1) (l_group s1) = Ret m2 \<and> length m2 = length m"
      if "l_a s1 \<le> l_b s1" "\<not> l_b s1 \<ge> nmaskbits"
    proof -
      have "unat (l_b s1) < unat nmaskbits" using that(2) by (simp add: word_le_nat_alt)
      then show ?thesis unfolding keep using that(1) Suc.prems(4,5) by (intro set_groups_once) auto
    qed
    show ?thesis
    proof (cases "l_digits s' = l_digits s")
      case True
      then show ?thesis using r(1) Inr more [of s' m] by (simp add: Let_def)
    next
      case digits: False
      show ?thesis
      proof (cases "l_a s1 \<le> l_b s1 \<and> \<not> l_b s1 \<ge> nmaskbits")
        case True
        then obtain m2 where "set_groups 2 m (l_a s1) (l_b s1) (l_used s1) (l_group s1) = Ret m2" "length m2 = length m"
          using sets by blast
        then show ?thesis using True r(1) Inr digits more [of s1 m2] keep(1,2)
          by (simp add: Let_def s1_def [symmetric])
      next
        case False
        then show ?thesis using r(1) Inr digits by (auto simp: Let_def s1_def [symmetric])
      qed
    qed
  qed (use r(1) in simp)
qed simp

text \<open>A group size of 0 never advances.\<close>

lemma set_groups_zero: "a \<le> b \<Longrightarrow> set_groups fuel m a b 0 0 = NoFuel"
proof (induction fuel)
  case (Suc fuel)
  have "\<not> 64 \<le> unat a mod 64" by (simp add: not_le)
  then have "bitmap_set m (unat a) 0 = Some m" unfolding bitmap_set_def by (subst set_from.simps) simp
  then show ?case using Suc by (simp add: or_bug_def)
qed simp

abbreviation zero_group :: "u8 list" where
  "zero_group \<equiv> [0x30, 0x2d, 0x33, 0x3a, 0x30, 0x2f, 0x30, 0]"

lemma zero_group_chars [simp]:
  "\<not> isspace 0x30" "\<not> isspace 0x2d" "\<not> isspace 0x33" "\<not> isspace 0x3a" "\<not> isspace 0x2f" "isdigit 0x30" "isdigit 0x33"
  by code_simp+

lemma zero_group_scan:
  "\<exists>s. list_scan (Kernel zero_group) 7 0 (list_start 7\<lparr>l_at_start := True\<rparr>) = Ret (Inr s) \<and> l_digits s = 4 \<and>
     range_numbers s = s\<lparr>l_group := 0, l_a := 0, l_b := 3, l_old_a := 0, l_old_b := 0\<rparr> \<and> l_used s = 0 \<and>
     \<not> l_in_range s"
proof -
  have seven: "7 = Suc (Suc (Suc (Suc (Suc (Suc (Suc 0))))))" by simp
  show ?thesis by (subst seven) (simp add: list_start_def range_numbers_def Let_def)
qed

text \<open>
  C15: The parser of range lists returns, inside its buffers, for every kernel string without a colon
  (two rounds of the loop that sets groups are enough), but a group size of 0 is accepted: for
  the string \<open>0-3:0/0\<close> the loop does not advance and \<^verbatim>\<open>bitmap_parselist\<close> never returns.
\<close>

theorem parselist_returns_without_groups:
  assumes "nmaskbits \<le> 64 * length m" "nmaskbits < 2 ^ 31" "4 \<le> nmaskbits"
    and "buflen \<le> length buf" "0x3a \<notin> set buf"
  shows "(\<exists>m' r. parselist 2 (Kernel buf) buflen m nmaskbits = Ret (m', r)) \<and>
    (\<forall>fuel. bitmap_parselist fuel zero_group m nmaskbits = NoFuel)"
proof -
  have "BITS_TO_LONGS nmaskbits \<le> length m" using assms(1) by (simp add: BITS_TO_LONGS_def div_le_mono)
  then obtain m0 where m0: "bitmap_zero m nmaskbits = Some m0" "length m0 = length m"
    by (simp add: bitmap_zero_def memset_append)
  have n: "unat (of_nat nmaskbits :: u32) = nmaskbits" using assms(2) by (simp add: unat_of_nat)
  have ends: "\<exists>m' r. list_items 2 (Suc buflen) (Kernel buf) (of_nat nmaskbits) (list_start buflen) m0 = Ret (m', r)"
    using assms m0(2) n by (intro list_items_return) (auto simp: list_start_def)
  have hangs: "list_items fuel (Suc 7) (Kernel zero_group) (of_nat nmaskbits) (list_start 7) m0 = NoFuel" for fuel
  proof -
    obtain s where s: "list_scan (Kernel zero_group) 7 0 (list_start 7\<lparr>l_at_start := True\<rparr>) = Ret (Inr s)" "l_digits s = 4"
      "range_numbers s = s\<lparr>l_group := 0, l_a := 0, l_b := 3, l_old_a := 0, l_old_b := 0\<rparr>" "l_used s = 0" "\<not> l_in_range s"
      using zero_group_scan by blast
    have "list_start 7\<lparr>l_at_start := True, l_in_range := False, l_partial := False, l_a := 0, l_b := 0\<rparr> = list_start 7\<lparr>l_at_start := True\<rparr>"
      by (simp add: list_start_def)
    moreover have "\<not> of_nat nmaskbits \<le> (3 :: u32)" using n assms(3) by (simp add: word_le_nat_alt)
    moreover have "l_left (list_start 7) = 7" "l_digits (list_start 7) = 0" by (simp_all add: list_start_def)
    ultimately show ?thesis using s set_groups_zero [of 0 3 fuel m0] by (simp only: list_items.simps) (simp add: Let_def)
  qed
  have len: "strchrnul zero_group 0x0a = Some 7" by simp
  have "bitmap_parselist fuel zero_group m nmaskbits = NoFuel" for fuel
    unfolding bitmap_parselist_def len or_bug_def option.case obind.simps parselist_def m0(1) by (rule hangs)
  moreover have "\<exists>m' r. parselist 2 (Kernel buf) buflen m nmaskbits = Ret (m', r)"
    unfolding parselist_def m0(1) or_bug_def option.case obind.simps by (rule ends)
  ultimately show ?thesis by blast
qed

theorem parselist_returns_without_groups_witness:
  "64 \<le> 64 * length [0 :: u64] \<and> 4 \<le> length [0x31, 0x2d, 0x34, 0 :: u8] \<and>
   parselist 2 (Kernel [0x31, 0x2d, 0x34, 0]) 4 [0] 64 = Ret ([0x1e], 0) \<and>
   bitmap_parselist 1000 zero_group [0] 64 = NoFuel"
proof -
  have "parselist 2 (Kernel [0x31, 0x2d, 0x34, 0]) 4 [0] 64 = Ret ([0x1e], 0)" by code_simp
  then show ?thesis using parselist_returns_without_groups [of 64 "[0]" 4 "[0x31, 0x2d, 0x34, 0]"] by simp
qed

text \<open>
  A group size near \<^verbatim>\<open>UINT_MAX\<close> makes the 32-bit addition wrap around, and bits below the range are
  set: the list \<open>5-6:1/4294967295\<close> sets bits 0 to 5.
\<close>

lemma parselist_group_wraps:
  "parselist 10 (Kernel [0x35, 0x2d, 0x36, 0x3a, 0x31, 0x2f, 0x34, 0x32, 0x39, 0x34, 0x39, 0x36, 0x37, 0x32, 0x39, 0x35, 0])
     17 [0] 64 = Ret ([0x3f], 0)"
  by code_simp

end
