(* ===== verification/Kernel_Kfifo.thy ===== *)
theory Kernel_Kfifo
  imports Kernel_Bitmap
begin

text \<open>
  The generic FIFO of \<^verbatim>\<open>lib/kfifo.c\<close>: a ring buffer of a power-of-two number of elements, whose
  indices are 32-bit counters that are never reduced and wrap around. The buffer is a list of
  bytes (a null pointer is the empty list), None is an access out of bounds. \<^verbatim>\<open>kmalloc\<close> and the
  copies from and to user space are parameters. The preparation of DMA transfers, which fills a
  scatter list, is not modelled.
\<close>

unbundle bit_operations_syntax

section \<open>The FIFO and its creation\<close>

record kfifo =
  kf_in :: u32
  kf_out :: u32
  kf_mask :: u32
  kf_esize :: u32
  kf_data :: "u8 list"

definition kfifo_unused :: "kfifo \<Rightarrow> u32" where
  "kfifo_unused f = (kf_mask f + 1) - (kf_in f - kf_out f)"

definition fls64 :: "u64 \<Rightarrow> nat" where
  "fls64 w = (if w = 0 then 0 else fls w + 1)"

text \<open>For 0 the source's shift by 64 is undefined.\<close>

definition roundup_pow_of_two :: "u64 \<Rightarrow> u64 option" where
  "roundup_pow_of_two n = (if n = 0 then None else Some (push_bit (fls64 (n - 1)) 1))"

definition kfifo_alloc :: "(u64 \<Rightarrow> u8 list option) \<Rightarrow> u32 \<Rightarrow> u32 \<Rightarrow> (kfifo \<times> int) option" where
  "kfifo_alloc kmalloc sz esize = do {
     n \<leftarrow> roundup_pow_of_two (ucast sz);
     let sz = ucast n;
     let f = \<lparr>kf_in = 0, kf_out = 0, kf_mask = 0, kf_esize = esize, kf_data = []\<rparr>;
     if sz < (2 :: u32) then Some (f, - EINVAL)
     else case kmalloc (ucast sz * ucast esize) of
         None \<Rightarrow> Some (f, - ENOMEM)
       | Some buffer \<Rightarrow> Some (f\<lparr>kf_data := buffer, kf_mask := sz - 1\<rparr>, 0)
   }"

definition kfifo_free :: "kfifo \<Rightarrow> kfifo" where
  "kfifo_free f = \<lparr>kf_in = 0, kf_out = 0, kf_mask = 0, kf_esize = 0, kf_data = []\<rparr>"


section \<open>Copying\<close>

text \<open>\<^verbatim>\<open>memcpy\<close> to an offset of a buffer.\<close>

definition memcpy_at :: "u8 list \<Rightarrow> nat \<Rightarrow> u8 list \<Rightarrow> nat \<Rightarrow> u8 list option" where
  "memcpy_at dest off src n =
     (if n = 0 then Some dest else map_option ((@) (take off dest)) (memcpy (drop off dest) src n))"

text \<open>Offset, size and length in bytes, and the length of the part before the end of the buffer.\<close>

definition ring_split :: "kfifo \<Rightarrow> u32 \<Rightarrow> u32 \<Rightarrow> u32 \<times> u32 \<times> u32" where
  "ring_split f len off =
     (let sz = kf_mask f + 1; esize = kf_esize f; off = off AND kf_mask f;
          (off, sz, len) = (if esize \<noteq> 1 then (off * esize, sz * esize, len * esize) else (off, sz, len))
      in (off, len, min len (sz - off)))"

definition kfifo_copy_in :: "kfifo \<Rightarrow> u8 list \<Rightarrow> u32 \<Rightarrow> u32 \<Rightarrow> kfifo option" where
  "kfifo_copy_in f src len off =
     (case ring_split f len off of (off, len, l) \<Rightarrow> do {
        data \<leftarrow> memcpy_at (kf_data f) (unat off) src (unat l);
        data \<leftarrow> memcpy_at data 0 (drop (unat l) src) (unat (len - l));
        Some (f\<lparr>kf_data := data\<rparr>)
      })"

definition kfifo_in :: "kfifo \<Rightarrow> u8 list \<Rightarrow> u32 \<Rightarrow> (kfifo \<times> u32) option" where
  "kfifo_in f buf len = do {
     let l = kfifo_unused f;
     let len = (if len > l then l else len);
     f \<leftarrow> kfifo_copy_in f buf len (kf_in f);
     Some (f\<lparr>kf_in := kf_in f + len\<rparr>, len)
   }"

definition kfifo_copy_out :: "kfifo \<Rightarrow> u8 list \<Rightarrow> u32 \<Rightarrow> u32 \<Rightarrow> u8 list option" where
  "kfifo_copy_out f dst len off =
     (case ring_split f len off of (off, len, l) \<Rightarrow> do {
        dst \<leftarrow> memcpy_at dst 0 (drop (unat off) (kf_data f)) (unat l);
        memcpy_at dst (unat l) (kf_data f) (unat (len - l))
      })"

definition kfifo_out_peek :: "kfifo \<Rightarrow> u8 list \<Rightarrow> u32 \<Rightarrow> (u8 list \<times> u32) option" where
  "kfifo_out_peek f buf len = do {
     let l = kf_in f - kf_out f;
     let len = (if len > l then l else len);
     buf \<leftarrow> kfifo_copy_out f buf len (kf_out f);
     Some (buf, len)
   }"

definition kfifo_out :: "kfifo \<Rightarrow> u8 list \<Rightarrow> u32 \<Rightarrow> (kfifo \<times> u8 list \<times> u32) option" where
  "kfifo_out f buf len = do {
     (buf, len) \<leftarrow> kfifo_out_peek f buf len;
     Some (f\<lparr>kf_out := kf_out f + len\<rparr>, buf, len)
   }"

text \<open>
  \<^verbatim>\<open>copy_from_user\<close> maps a user address and a length to the bytes it stores and the number of bytes
  it could not copy; \<^verbatim>\<open>copy_to_user\<close> maps an address and the bytes to the number not copied.
\<close>

definition DIV_ROUND_UP :: "u64 \<Rightarrow> u64 \<Rightarrow> u64" where
  "DIV_ROUND_UP n d = (n + d - 1) div d"

definition kfifo_copy_from_user ::
  "(nat \<Rightarrow> nat \<Rightarrow> u8 list \<times> u64) \<Rightarrow> kfifo \<Rightarrow> nat \<Rightarrow> u32 \<Rightarrow> u32 \<Rightarrow> (kfifo \<times> u32 \<times> u64) option" where
  "kfifo_copy_from_user cfu f from len off =
     (case ring_split f len off of (off, len, l) \<Rightarrow>
        let esize = ucast (kf_esize f); (bytes, ret) = cfu from (unat l) in do {
          data \<leftarrow> memcpy_at (kf_data f) (unat off) bytes (unat l);
          (data, ret) \<leftarrow>
            (if ret \<noteq> 0 then Some (data, DIV_ROUND_UP (ret + ucast len - ucast l) esize)
             else let (bytes, ret) = cfu (from + unat l) (unat (len - l)) in do {
               data \<leftarrow> memcpy_at data 0 bytes (unat (len - l));
               Some (data, if ret \<noteq> 0 then DIV_ROUND_UP ret esize else ret)
             });
          Some (f\<lparr>kf_data := data\<rparr>, ucast (ucast len - ret * esize), ret)
        })"

definition kfifo_from_user ::
  "(nat \<Rightarrow> nat \<Rightarrow> u8 list \<times> u64) \<Rightarrow> kfifo \<Rightarrow> nat \<Rightarrow> u64 \<Rightarrow> (kfifo \<times> u32 \<times> int) option" where
  "kfifo_from_user cfu f from len = do {
     let len = (if kf_esize f \<noteq> 1 then len div ucast (kf_esize f) else len);
     let l = kfifo_unused f;
     let len = (if len > ucast l then ucast l else len);
     (f, copied, ret) \<leftarrow> kfifo_copy_from_user cfu f from (ucast len) (kf_in f);
     let (len, err) = (if ret \<noteq> 0 then (len - ret, - EFAULT) else (len, 0));
     Some (f\<lparr>kf_in := kf_in f + ucast len\<rparr>, copied, err)
   }"

definition kfifo_copy_to_user ::
  "(nat \<Rightarrow> u8 list \<Rightarrow> u64) \<Rightarrow> kfifo \<Rightarrow> nat \<Rightarrow> u32 \<Rightarrow> u32 \<Rightarrow> (u32 \<times> u64) option" where
  "kfifo_copy_to_user ctu f to len off =
     (case ring_split f len off of (off, len, l) \<Rightarrow>
        let esize = ucast (kf_esize f) in do {
          first \<leftarrow> memcpy (replicate (unat l) 0) (drop (unat off) (kf_data f)) (unat l);
          let ret = ctu to first;
          ret \<leftarrow>
            (if ret \<noteq> 0 then Some (DIV_ROUND_UP (ret + ucast len - ucast l) esize)
             else do {
               rest \<leftarrow> memcpy (replicate (unat (len - l)) 0) (kf_data f) (unat (len - l));
               let ret = ctu (to + unat l) rest;
               Some (if ret \<noteq> 0 then DIV_ROUND_UP ret esize else ret)
             });
          Some (ucast (ucast len - ret * esize), ret)
        })"

definition kfifo_to_user ::
  "(nat \<Rightarrow> u8 list \<Rightarrow> u64) \<Rightarrow> kfifo \<Rightarrow> nat \<Rightarrow> u64 \<Rightarrow> (kfifo \<times> u32 \<times> int) option" where
  "kfifo_to_user ctu f to len = do {
     let len = (if kf_esize f \<noteq> 1 then len div ucast (kf_esize f) else len);
     let l = kf_in f - kf_out f;
     let len = (if len > ucast l then ucast l else len);
     (copied, ret) \<leftarrow> kfifo_copy_to_user ctu f to (ucast len) (kf_out f);
     let (len, err) = (if ret \<noteq> 0 then (len - ret, - EFAULT) else (len, 0));
     Some (f\<lparr>kf_out := kf_out f + ucast len\<rparr>, copied, err)
   }"

section \<open>Records\<close>

text \<open>The length of a record is stored in front of it in one or two bytes.\<close>

definition kfifo_max_r :: "u32 \<Rightarrow> nat \<Rightarrow> u32" where
  "kfifo_max_r len recsize = (let mx = push_bit (recsize * 8) 1 - 1 in if len > mx then mx else len)"

definition kfifo_peek_n :: "kfifo \<Rightarrow> nat \<Rightarrow> u32 option" where
  "kfifo_peek_n f recsize = do {
     x \<leftarrow> load (kf_data f) (unat (kf_out f AND kf_mask f));
     if recsize \<noteq> 1 then do {
       y \<leftarrow> load (kf_data f) (unat ((kf_out f + 1) AND kf_mask f));
       Some (ucast x OR push_bit 8 (ucast y))
     } else Some (ucast x)
   }"

definition kfifo_poke_n :: "kfifo \<Rightarrow> u32 \<Rightarrow> nat \<Rightarrow> kfifo option" where
  "kfifo_poke_n f n recsize = do {
     data \<leftarrow> store (kf_data f) (unat (kf_in f AND kf_mask f)) (ucast n);
     data \<leftarrow> (if recsize > 1 then store data (unat ((kf_in f + 1) AND kf_mask f)) (ucast (drop_bit 8 n)) else Some data);
     Some (f\<lparr>kf_data := data\<rparr>)
   }"

definition kfifo_len_r :: "kfifo \<Rightarrow> nat \<Rightarrow> u32 option" where
  "kfifo_len_r f recsize = kfifo_peek_n f recsize"

text \<open>The sum \<^verbatim>\<open>len + recsize\<close> is a \<^verbatim>\<open>size_t\<close>.\<close>

definition kfifo_in_r :: "kfifo \<Rightarrow> u8 list \<Rightarrow> u32 \<Rightarrow> nat \<Rightarrow> (kfifo \<times> u32) option" where
  "kfifo_in_r f buf len recsize =
     (if unat len + recsize > unat (kfifo_unused f) then Some (f, 0)
      else do {
        f \<leftarrow> kfifo_poke_n f len recsize;
        f \<leftarrow> kfifo_copy_in f buf len (kf_in f + of_nat recsize);
        Some (f\<lparr>kf_in := kf_in f + (len + of_nat recsize)\<rparr>, len)
      })"

definition kfifo_out_copy_r :: "kfifo \<Rightarrow> u8 list \<Rightarrow> u32 \<Rightarrow> nat \<Rightarrow> (u8 list \<times> u32 \<times> u32) option" where
  "kfifo_out_copy_r f buf len recsize = do {
     n \<leftarrow> kfifo_peek_n f recsize;
     let len = (if len > n then n else len);
     buf \<leftarrow> kfifo_copy_out f buf len (kf_out f + of_nat recsize);
     Some (buf, len, n)
   }"

definition kfifo_out_peek_r :: "kfifo \<Rightarrow> u8 list \<Rightarrow> u32 \<Rightarrow> nat \<Rightarrow> (u8 list \<times> u32) option" where
  "kfifo_out_peek_r f buf len recsize =
     (if kf_in f = kf_out f then Some (buf, 0)
      else do {
        (buf, len, _) \<leftarrow> kfifo_out_copy_r f buf len recsize;
        Some (buf, len)
      })"

definition kfifo_out_r :: "kfifo \<Rightarrow> u8 list \<Rightarrow> u32 \<Rightarrow> nat \<Rightarrow> (kfifo \<times> u8 list \<times> u32) option" where
  "kfifo_out_r f buf len recsize =
     (if kf_in f = kf_out f then Some (f, buf, 0)
      else do {
        (buf, len, n) \<leftarrow> kfifo_out_copy_r f buf len recsize;
        Some (f\<lparr>kf_out := kf_out f + (n + of_nat recsize)\<rparr>, buf, len)
      })"

definition kfifo_skip_r :: "kfifo \<Rightarrow> nat \<Rightarrow> kfifo option" where
  "kfifo_skip_r f recsize = do {
     n \<leftarrow> kfifo_peek_n f recsize;
     Some (f\<lparr>kf_out := kf_out f + (n + of_nat recsize)\<rparr>)
   }"

definition kfifo_from_user_r ::
  "(nat \<Rightarrow> nat \<Rightarrow> u8 list \<times> u64) \<Rightarrow> kfifo \<Rightarrow> nat \<Rightarrow> u64 \<Rightarrow> nat \<Rightarrow> (kfifo \<times> u32 \<times> int) option" where
  "kfifo_from_user_r cfu f from len recsize =
     (let len = kfifo_max_r (ucast len) recsize in
      if unat len + recsize > unat (kfifo_unused f) then Some (f, 0, 0)
      else do {
        f \<leftarrow> kfifo_poke_n f len recsize;
        (f, copied, ret) \<leftarrow> kfifo_copy_from_user cfu f from len (kf_in f + of_nat recsize);
        if ret \<noteq> 0 then Some (f, 0, - EFAULT)
        else Some (f\<lparr>kf_in := kf_in f + (len + of_nat recsize)\<rparr>, copied, 0)
      })"

definition kfifo_to_user_r ::
  "(nat \<Rightarrow> u8 list \<Rightarrow> u64) \<Rightarrow> kfifo \<Rightarrow> nat \<Rightarrow> u64 \<Rightarrow> nat \<Rightarrow> (kfifo \<times> u32 \<times> int) option" where
  "kfifo_to_user_r ctu f to len recsize =
     (if kf_in f = kf_out f then Some (f, 0, 0)
      else do {
        n \<leftarrow> kfifo_peek_n f recsize;
        let len = (if len > ucast n then ucast n else len);
        (copied, ret) \<leftarrow> kfifo_copy_to_user ctu f to (ucast len) (kf_out f + of_nat recsize);
        if ret \<noteq> 0 then Some (f, 0, - EFAULT)
        else Some (f\<lparr>kf_out := kf_out f + (n + of_nat recsize)\<rparr>, copied, 0)
      })"

definition kfifo_dma_in_finish_r :: "kfifo \<Rightarrow> u32 \<Rightarrow> nat \<Rightarrow> kfifo option" where
  "kfifo_dma_in_finish_r f len recsize = do {
     let len = kfifo_max_r len recsize;
     f \<leftarrow> kfifo_poke_n f len recsize;
     Some (f\<lparr>kf_in := kf_in f + (len + of_nat recsize)\<rparr>)
   }"

definition kfifo_dma_out_finish_r :: "kfifo \<Rightarrow> nat \<Rightarrow> kfifo option" where
  "kfifo_dma_out_finish_r f recsize = do {
     len \<leftarrow> kfifo_peek_n f recsize;
     Some (f\<lparr>kf_out := kf_out f + (len + of_nat recsize)\<rparr>)
   }"

section \<open>The ring as a queue of bytes\<close>

text \<open>
  The invariant: a power-of-two number of elements, whose bytes are the buffer and fit a 32-bit
  number, and no more elements in use than there are.
\<close>

definition kf_size :: "kfifo \<Rightarrow> nat" where
  "kf_size f = unat (kf_mask f) + 1"

definition kf_used :: "kfifo \<Rightarrow> nat" where
  "kf_used f = unat (kf_in f - kf_out f)"

abbreviation kf_elem :: "kfifo \<Rightarrow> nat" where
  "kf_elem f \<equiv> unat (kf_esize f)"

definition kfifo_inv :: "kfifo \<Rightarrow> bool" where
  "kfifo_inv f \<longleftrightarrow> (\<exists>j < 32. kf_size f = 2 ^ j) \<and> 0 < kf_elem f \<and> kf_size f * kf_elem f < 2 ^ 32 \<and>
     length (kf_data f) = kf_size f * kf_elem f \<and> kf_used f \<le> kf_size f"

text \<open>The bytes of the ring from a position on.\<close>

definition ring_read :: "'a list \<Rightarrow> nat \<Rightarrow> nat \<Rightarrow> 'a list" where
  "ring_read data p n = map (\<lambda>k. data ! ((p + k) mod length data)) [0..<n]"

definition kf_contents :: "kfifo \<Rightarrow> u8 list" where
  "kf_contents f = ring_read (kf_data f) (unat (kf_out f) mod kf_size f * kf_elem f) (kf_used f * kf_elem f)"

lemma length_ring_read [simp]: "length (ring_read data p n) = n"
  by (simp add: ring_read_def)

lemma ring_read_add: "ring_read data p (m + n) = ring_read data p m @ ring_read data (p + m) n"
  by (rule nth_equalityI) (auto simp: ring_read_def nth_append add.assoc)

lemma ring_read_mod: "ring_read data (p mod length data) n = ring_read data p n"
  by (simp add: ring_read_def mod_add_left_eq)

lemma mod_wrap: "n \<le> a \<Longrightarrow> a < 2 * n \<Longrightarrow> a mod n = a - (n :: nat)"
  by (subst le_mod_geq) auto

lemma ring_read_two:
  assumes "off < length data" "n \<le> length data"
  shows "ring_read data off n = take (min n (length data - off)) (drop off data) @ take (n - min n (length data - off)) data"
proof (rule nth_equalityI)
  fix k assume "k < length (ring_read data off n)"
  then have k: "k < n" by simp
  show "ring_read data off n ! k =
      (take (min n (length data - off)) (drop off data) @ take (n - min n (length data - off)) data) ! k"
  proof (cases "k < length data - off")
    case True
    then show ?thesis using k assms by (simp add: ring_read_def nth_append)
  next
    case False
    then have "(off + k) mod length data = off + k - length data"
      using k assms by (intro mod_wrap) auto
    then show ?thesis using k assms False by (simp add: ring_read_def nth_append add.commute)
  qed
qed (use assms in simp)

text \<open>Writing a block into the ring, in two parts when it passes the end of the buffer.\<close>

definition ring_write :: "'a list \<Rightarrow> nat \<Rightarrow> 'a list \<Rightarrow> 'a list" where
  "ring_write data off xs =
     (let l = min (length xs) (length data - off); d = take off data @ take l xs @ drop (off + l) data
      in drop l xs @ drop (length xs - l) d)"

lemma ring_write_fits:
  "length xs \<le> length data - off \<Longrightarrow> ring_write data off xs = take off data @ xs @ drop (off + length xs) data"
  by (simp add: ring_write_def Let_def)

lemma ring_write_wraps:
  "length data - off < length xs \<Longrightarrow> off < length data \<Longrightarrow> length xs \<le> length data \<Longrightarrow>
    ring_write data off xs = drop (length data - off) xs @ drop (length xs - (length data - off)) (take off data) @ take (length data - off) xs"
  by (simp add: ring_write_def Let_def)

lemma nth_ring_write:
  assumes "off < length data" "length xs \<le> length data" "i < length data"
  shows "ring_write data off xs ! i =
    (if off \<le> i \<and> i < off + length xs then xs ! (i - off)
     else if i + length data < off + length xs then xs ! (i + length data - off) else data ! i)"
proof (cases "length xs \<le> length data - off")
  case True
  then have "\<not> i + length data < off + length xs" using assms(1) by linarith
  then show ?thesis using assms True by (simp add: ring_write_fits nth_append) linarith
next
  case False
  let ?l = "length data - off"
  have w: "ring_write data off xs = drop ?l xs @ drop (length xs - ?l) (take off data) @ take ?l xs"
    using False assms by (intro ring_write_wraps) auto
  consider "i < length xs - ?l" | "length xs - ?l \<le> i" "i < off" | "off \<le> i" by linarith
  then show ?thesis
  proof cases
    case 1
    then have "\<not> off \<le> i" "i + length data < off + length xs" "i + length data - off = ?l + i" using assms False by auto
    then show ?thesis using 1 by (simp add: w nth_append)
  next
    case 2
    then have "\<not> i + length data < off + length xs" using assms False by linarith
    moreover have "i + length data - (length xs + off) < length data - length xs" using 2 assms False by linarith
    ultimately show ?thesis using 2 assms False by (simp add: w nth_append)
  next
    case 3
    then have "\<not> i < length xs + off - length data" "\<not> i + length data - (length xs + off) < length data - length xs"
      "i < off + length xs" "i + length data - (length xs + off) - (length data - length xs) = i - off"
      using assms False by linarith+
    then show ?thesis using 3 assms False by (simp add: w nth_append)
  qed
qed

lemma length_ring_write:
  assumes "off < length data" "length xs \<le> length data"
  shows "length (ring_write data off xs) = length data"
proof (cases "length xs \<le> length data - off")
  case True
  then show ?thesis using assms by (simp add: ring_write_fits)
next
  case False
  then show ?thesis using assms by (simp add: ring_write_wraps)
qed

lemma ring_write_read:
  assumes "off < length data" "length xs \<le> length data" "k < length data"
  shows "ring_write data off xs ! ((off + k) mod length data) =
    (if k < length xs then xs ! k else data ! ((off + k) mod length data))"
proof (cases "off + k < length data")
  case True
  then show ?thesis using assms by (simp add: nth_ring_write)
next
  case False
  define i where "i = off + k - length data"
  have i: "off + k = length data + i" "i < off" "i < length data" "i + length data - off = k"
    using False assms by (auto simp: i_def)
  have "(off + k) mod length data = i" unfolding i(1) using i(3) by simp
  moreover have "i + length data < off + length xs \<longleftrightarrow> k < length xs" using i(1) by linarith
  ultimately show ?thesis using nth_ring_write [OF assms(1,2) i(3)] i(2,4) by simp
qed

lemma ring_append:
  assumes "p < length data" "m + length xs \<le> length data"
  shows "ring_read (ring_write data ((p + m) mod length data) xs) p (m + length xs) = ring_read data p m @ xs"
proof -
  let ?N = "length data"
  let ?off = "(p + m) mod ?N"
  let ?d = "ring_write data ?off xs"
  have off: "?off < ?N" using assms by (intro mod_less_divisor) auto
  have len: "length ?d = ?N" using off assms by (simp add: length_ring_write)
  have new: "?d ! ((p + m + k) mod ?N) = xs ! k" if "k < length xs" for k
    using ring_write_read [OF off, of xs k] that assms(2) by (simp add: mod_add_left_eq)
  have old: "?d ! ((p + k) mod ?N) = data ! ((p + k) mod ?N)" if "k < m" for k
  proof -
    have "p + m + (?N - m + k) = p + k + ?N" using assms(2) by simp
    then have eq: "(?off + (?N - m + k)) mod ?N = (p + k) mod ?N" by (metis mod_add_left_eq mod_add_self2)
    have "\<not> ?N - m + k < length xs" "?N - m + k < ?N" "length xs \<le> ?N" using that assms(2) by auto
    then show ?thesis using ring_write_read [OF off, of xs "?N - m + k"] unfolding eq by simp
  qed
  show ?thesis unfolding ring_read_add
    by (intro arg_cong2 [where f = "(@)"] nth_equalityI) (auto simp: ring_read_def len new old)
qed

section \<open>The operations on the queue\<close>

lemma memcpy_at_some:
  "off + n \<le> length dest \<Longrightarrow> n \<le> length src \<Longrightarrow>
    memcpy_at dest off src n = Some (take off dest @ take n src @ drop (off + n) dest)"
  by (simp add: memcpy_at_def memcpy_append add.commute)

lemma unat_and_size: "kfifo_inv f \<Longrightarrow> unat (w AND kf_mask f) = unat w mod kf_size f"
proof -
  assume "kfifo_inv f"
  then obtain j where j: "j < 32" "kf_size f = 2 ^ j" by (auto simp: kfifo_inv_def)
  then have "unat (kf_mask f) = mask j" by (simp add: kf_size_def mask_eq_exp_minus_1)
  then show ?thesis using j(2) by (simp add: unsigned_and_eq take_bit_eq_mod flip: take_bit_eq_mask)
qed

lemma unat_size: "kfifo_inv f \<Longrightarrow> unat (kf_mask f + 1) = kf_size f"
proof -
  assume "kfifo_inv f"
  then obtain j where "j < 32" "kf_size f = 2 ^ j" by (auto simp: kfifo_inv_def)
  then have "unat (kf_mask f) + 1 < 2 ^ 32"
    using power_strict_increasing [of j 32 "2 :: nat"] by (simp add: kf_size_def)
  then show ?thesis by (subst unat_add_no_wrap) (simp_all add: kf_size_def)
qed

lemma unat_unused: "kfifo_inv f \<Longrightarrow> unat (kfifo_unused f) = kf_size f - kf_used f"
  using unat_size [of f] by (simp add: kfifo_unused_def kf_used_def kfifo_inv_def unat_sub word_le_nat_alt)

text \<open>The counters wrap around at a multiple of the size.\<close>

lemma unat_add_mod_size:
  assumes "kfifo_inv f"
  shows "unat (a + b :: u32) mod kf_size f = (unat a + unat b) mod kf_size f"
proof -
  obtain j where "j < 32" "kf_size f = 2 ^ j" using assms by (auto simp: kfifo_inv_def)
  then have "kf_size f dvd 2 ^ 32" using le_imp_power_dvd [of j 32 "2 :: nat"] by simp
  then show ?thesis by (simp add: unat_word_ariths mod_mod_cancel)
qed

lemma unat_mult_elem:
  assumes "kfifo_inv f" "unat a \<le> kf_size f"
  shows "unat (a * kf_esize f) = unat a * kf_elem f"
proof -
  have "unat a * kf_elem f \<le> kf_size f * kf_elem f" using assms(2) by (rule mult_le_mono1)
  moreover have "kf_size f * kf_elem f < 2 ^ 32" using assms(1) by (simp only: kfifo_inv_def)
  ultimately have "unat a * kf_elem f < 2 ^ 32" by (rule le_less_trans)
  then show ?thesis by (simp add: unat_word_ariths)
qed

lemma ring_split_bytes:
  assumes "kfifo_inv f" "unat len \<le> kf_size f" "ring_split f len off = (off', len', l)"
  shows "unat off' = unat off mod kf_size f * kf_elem f" and "unat len' = unat len * kf_elem f"
    and "unat l = min (unat len') (length (kf_data f) - unat off')" and "unat (len' - l) = unat len' - unat l"
    and "unat off' < length (kf_data f)"
proof -
  have sz: "0 < kf_size f" by (simp add: kf_size_def)
  have bound: "unat (off AND kf_mask f) < kf_size f" using assms(1) sz by (simp add: unat_and_size)
  define b where "b = (kf_mask f + 1) * kf_esize f"
  have b: "unat b = length (kf_data f)"
    using unat_mult_elem [OF assms(1), of "kf_mask f + 1"] assms(1) by (simp add: unat_size b_def kfifo_inv_def)
  have o: "unat ((off AND kf_mask f) * kf_esize f) = unat off mod kf_size f * kf_elem f"
    using unat_mult_elem [OF assms(1), of "off AND kf_mask f"] bound assms(1) by (simp add: unat_and_size)
  have eq: "off' = (off AND kf_mask f) * kf_esize f" "len' = len * kf_esize f" "l = min len' (b - off')"
    using assms(3) by (auto simp: ring_split_def Let_def b_def split: if_splits)
  show off': "unat off' = unat off mod kf_size f * kf_elem f" by (simp add: eq(1) o)
  show len': "unat len' = unat len * kf_elem f" using unat_mult_elem [OF assms(1,2)] by (simp add: eq(2))
  show less: "unat off' < length (kf_data f)"
    using assms(1) sz by (simp add: off' kfifo_inv_def)
  have "unat (b - off') = length (kf_data f) - unat off'" using less b by (simp add: unat_sub word_le_nat_alt)
  then show l: "unat l = min (unat len') (length (kf_data f) - unat off')"
    by (simp add: eq(3) min_def word_le_nat_alt)
  show "unat (len' - l) = unat len' - unat l" by (simp add: unat_sub word_le_nat_alt l)
qed

lemma kfifo_copy_in_ring:
  assumes "kfifo_inv f" "unat len \<le> kf_size f" "unat len * kf_elem f \<le> length src"
  shows "kfifo_copy_in f src len off =
    Some (f\<lparr>kf_data := ring_write (kf_data f) (unat off mod kf_size f * kf_elem f) (take (unat len * kf_elem f) src)\<rparr>)"
proof -
  obtain off' len' l where sp: "ring_split f len off = (off', len', l)" by (metis prod_cases3)
  note b = ring_split_bytes [OF assms(1,2) sp]
  have len: "unat len' \<le> length (kf_data f)" using assms(1,2) b(2) by (simp add: kfifo_inv_def)
  define d where "d = take (unat off') (kf_data f) @ take (unat l) src @ drop (unat off' + unat l) (kf_data f)"
  have 1: "memcpy_at (kf_data f) (unat off') src (unat l) = Some d"
    unfolding d_def using b(2,3,5) assms(3) by (intro memcpy_at_some) auto
  have "length d = length (kf_data f)" using b(2,3,5) assms(3) by (simp add: d_def)
  then have "unat (len' - l) \<le> length d" using b(4) len by linarith
  moreover have "unat (len' - l) \<le> length (drop (unat l) src)" using b(2,4) assms(3) by simp
  ultimately have 2: "memcpy_at d 0 (drop (unat l) src) (unat (len' - l)) =
      Some (take (unat len' - unat l) (drop (unat l) src) @ drop (unat len' - unat l) d)"
    using memcpy_at_some [of 0 "unat (len' - l)" d "drop (unat l) src"] b(4) by simp
  have lx: "length (take (unat len') src) = unat len'" using b(2) assms(3) by simp
  have "take (unat l) (take (unat len') src) = take (unat l) src" using b(3) by (simp add: min_absorb1)
  then have "ring_write (kf_data f) (unat off') (take (unat len') src) =
      take (unat len' - unat l) (drop (unat l) src) @ drop (unat len' - unat l) d"
    unfolding ring_write_def Let_def lx b(3) [symmetric] d_def drop_take by simp
  then show ?thesis unfolding kfifo_copy_in_def sp b(1,2) [symmetric] by (simp add: 1 2)
qed

lemma kfifo_copy_out_ring:
  assumes "kfifo_inv f" "unat len \<le> kf_size f" "unat len * kf_elem f \<le> length dst"
  shows "kfifo_copy_out f dst len off =
    Some (ring_read (kf_data f) (unat off mod kf_size f * kf_elem f) (unat len * kf_elem f) @ drop (unat len * kf_elem f) dst)"
proof -
  obtain off' len' l where sp: "ring_split f len off = (off', len', l)" by (metis prod_cases3)
  note b = ring_split_bytes [OF assms(1,2) sp]
  have len: "unat len' \<le> length (kf_data f)" using assms(1,2) b(2) by (simp add: kfifo_inv_def)
  define d where "d = take (unat l) (drop (unat off') (kf_data f)) @ drop (unat l) dst"
  have 1: "memcpy_at dst 0 (drop (unat off') (kf_data f)) (unat l) = Some d"
    unfolding d_def using memcpy_at_some [of 0 "unat l" dst "drop (unat off') (kf_data f)"] b(2,3,5) assms(3) by simp
  have ld: "length d = length dst" using b(2,3,5) assms(3) by (simp add: d_def)
  have "unat l + unat (len' - l) \<le> length d" using b(2-4) assms(3) ld by linarith
  moreover have "unat (len' - l) \<le> length (kf_data f)" using b(4) len by linarith
  moreover have "unat l + unat (len' - l) = unat len'" using b(3,4) by linarith
  ultimately have 2: "memcpy_at d (unat l) (kf_data f) (unat (len' - l)) =
      Some (take (unat l) d @ take (unat len' - unat l) (kf_data f) @ drop (unat len') d)"
    using memcpy_at_some [of "unat l" "unat (len' - l)" d "kf_data f"] b(4) by metis
  have "take (unat l) d = take (unat l) (drop (unat off') (kf_data f))" "drop (unat len') d = drop (unat len') dst"
    using b(3,5) by (simp_all add: d_def)
  then show ?thesis
    unfolding kfifo_copy_out_def sp b(1,2) [symmetric] ring_read_two [OF b(5) len] b(3) [symmetric] by (simp add: 1 2)
qed

text \<open>The position of the input counter in the ring, and of an output counter that is moved on.\<close>

lemma ring_position:
  assumes "kfifo_inv f"
  shows "unat (kf_out f + d) mod kf_size f * kf_elem f =
    (unat (kf_out f) mod kf_size f * kf_elem f + unat d * kf_elem f) mod length (kf_data f)"
proof -
  have "unat (kf_out f + d) mod kf_size f * kf_elem f = (unat (kf_out f) + unat d) * kf_elem f mod (kf_size f * kf_elem f)"
    using unat_add_mod_size [OF assms] by (simp add: mod_mult_mult2)
  also have "\<dots> = (unat (kf_out f) mod kf_size f * kf_elem f + unat d * kf_elem f) mod (kf_size f * kf_elem f)"
    by (simp only: add_mult_distrib mod_mult_mult2 [symmetric] mod_add_left_eq)
  finally show ?thesis using assms by (simp add: kfifo_inv_def)
qed

lemma kfifo_in_queue:
  assumes "kfifo_inv f" "unat len * kf_elem f \<le> length buf"
  shows "\<exists>f' n. kfifo_in f buf len = Some (f', n) \<and> kfifo_inv f' \<and> kf_esize f' = kf_esize f \<and>
    unat n = min (unat len) (kf_size f - kf_used f) \<and> kf_contents f' = kf_contents f @ take (unat n * kf_elem f) buf"
proof -
  define n where "n = (if len > kfifo_unused f then kfifo_unused f else len)"
  have n: "unat n = min (unat len) (kf_size f - kf_used f)"
    using unat_unused [OF assms(1)] by (auto simp: n_def word_less_nat_alt min_def)
  have fits: "kf_used f + unat n \<le> kf_size f" using n assms(1) by (auto simp: kfifo_inv_def)
  have "unat n * kf_elem f \<le> unat len * kf_elem f" using n by (intro mult_le_mono1) simp
  then have src: "unat n * kf_elem f \<le> length buf" using assms(2) by linarith
  define p where "p = unat (kf_out f) mod kf_size f * kf_elem f"
  define d where "d = ring_write (kf_data f) ((p + kf_used f * kf_elem f) mod length (kf_data f)) (take (unat n * kf_elem f) buf)"
  define f' where "f' = f\<lparr>kf_data := d, kf_in := kf_in f + n\<rparr>"
  have "kfifo_copy_in f buf n (kf_in f) = Some (f\<lparr>kf_data := d\<rparr>)"
    using kfifo_copy_in_ring [OF assms(1) _ src] fits ring_position [OF assms(1), of "kf_in f - kf_out f"]
    by (simp add: d_def p_def kf_used_def)
  then have call: "kfifo_in f buf len = Some (f', n)" unfolding kfifo_in_def by (simp add: f'_def n_def [symmetric] Let_def)
  have sz: "kf_size f' = kf_size f" "kf_elem f' = kf_elem f" by (simp_all add: f'_def kf_size_def)
  have "0 < kf_size f" by (simp add: kf_size_def)
  then have pl: "p < length (kf_data f)" using assms(1) by (simp add: p_def kfifo_inv_def)
  have room: "kf_used f * kf_elem f + unat n * kf_elem f \<le> length (kf_data f)"
    using assms(1) mult_le_mono1 [OF fits, of "kf_elem f"] by (simp add: kfifo_inv_def add_mult_distrib)
  have "kf_size f < 2 ^ 32" using assms(1) power_strict_increasing [of _ 32 "2 :: nat"] by (auto simp: kfifo_inv_def)
  then have "unat (kf_in f - kf_out f + n) = kf_used f + unat n" using fits
    by (subst unat_add_no_wrap) (simp_all add: kf_used_def)
  then have used: "kf_used f' = kf_used f + unat n" by (simp add: kf_used_def f'_def algebra_simps)
  have "length d = length (kf_data f)" unfolding d_def using pl room src by (intro length_ring_write mod_less_divisor) auto
  then have inv: "kfifo_inv f'" using assms(1) fits used sz by (simp add: kfifo_inv_def f'_def)
  have "kf_contents f' = kf_contents f @ take (unat n * kf_elem f) buf"
    using ring_append [OF pl, of "kf_used f * kf_elem f" "take (unat n * kf_elem f) buf"] room src
    by (simp add: kf_contents_def used sz add_mult_distrib p_def [symmetric] d_def [symmetric]) (simp add: f'_def p_def)
  then show ?thesis using call inv n by (auto simp: f'_def)
qed

lemma kfifo_out_queue:
  assumes "kfifo_inv f" "unat len * kf_elem f \<le> length buf"
  shows "\<exists>f' buf' n. kfifo_out f buf len = Some (f', buf', n) \<and> kfifo_inv f' \<and> kf_esize f' = kf_esize f \<and>
    unat n = min (unat len) (kf_used f) \<and> kf_contents f = take (unat n * kf_elem f) buf' @ kf_contents f' \<and>
    length buf' = length buf \<and> drop (unat n * kf_elem f) buf' = drop (unat n * kf_elem f) buf"
proof -
  define n where "n = (if len > kf_in f - kf_out f then kf_in f - kf_out f else len)"
  have n: "unat n = min (unat len) (kf_used f)" by (auto simp: n_def kf_used_def word_less_nat_alt min_def)
  have le: "unat n \<le> kf_size f" using n assms(1) by (auto simp: kfifo_inv_def)
  have "unat n * kf_elem f \<le> unat len * kf_elem f" using n by (intro mult_le_mono1) simp
  then have dst: "unat n * kf_elem f \<le> length buf" using assms(2) by linarith
  define p where "p = unat (kf_out f) mod kf_size f * kf_elem f"
  define f' where "f' = f\<lparr>kf_out := kf_out f + n\<rparr>"
  define out where "out = ring_read (kf_data f) p (unat n * kf_elem f)"
  have call: "kfifo_out f buf len = Some (f', out @ drop (unat n * kf_elem f) buf, n)"
    unfolding kfifo_out_def kfifo_out_peek_def n_def [symmetric] Let_def kfifo_copy_out_ring [OF assms(1) le dst]
    by (simp add: f'_def out_def p_def)
  have sz: "kf_size f' = kf_size f" "kf_elem f' = kf_elem f" "kf_data f' = kf_data f" by (simp_all add: f'_def kf_size_def)
  have "unat (kf_in f - kf_out f - n) = kf_used f - unat n" using n by (simp add: kf_used_def unat_sub word_le_nat_alt)
  then have used: "kf_used f' = kf_used f - unat n" by (simp add: kf_used_def f'_def algebra_simps)
  have inv: "kfifo_inv f'" using assms(1) used sz by (auto simp: kfifo_inv_def f'_def)
  have pos: "unat (kf_out f') mod kf_size f * kf_elem f = (p + unat n * kf_elem f) mod length (kf_data f)"
    using ring_position [OF assms(1), of n] by (simp add: f'_def p_def)
  have "kf_used f * kf_elem f = unat n * kf_elem f + (kf_used f - unat n) * kf_elem f"
    using n by (simp add: add_mult_distrib [symmetric])
  then have "kf_contents f = out @ kf_contents f'"
    by (simp only: kf_contents_def p_def [symmetric] sz used pos ring_read_mod ring_read_add out_def)
  then show ?thesis using call inv n dst by (auto simp: f'_def out_def)
qed

text \<open>A fifo that was just allocated is empty and satisfies the invariant.\<close>

lemma ucast_push_bit: "(ucast (push_bit k (1 :: u64)) :: u32) = push_bit k 1"
  by (rule bit_word_eqI) (auto simp: bit_simps)

lemma fls64_bound: "unat w < 2 ^ fls64 w"
proof (cases "w = 0")
  case False
  let ?n = "length (takeWhile (\<lambda>k. \<not> bit w k) (rev [0..<64]))"
  have "\<not> bit w i" if "fls64 w \<le> i" for i
  proof (cases "i < 64")
    case True
    have "63 - i < ?n" using that True False by (auto simp: fls64_def fls_def)
    then have "takeWhile (\<lambda>k. \<not> bit w k) (rev [0..<64]) ! (63 - i) = rev [0..<64] ! (63 - i)" by (rule takeWhile_nth)
    also have "\<dots> = i" using True by (simp add: rev_nth)
    finally have "i \<in> set (takeWhile (\<lambda>k. \<not> bit w k) (rev [0..<64]))" using \<open>63 - i < ?n\<close> nth_mem by metis
    then show ?thesis by (auto dest: set_takeWhileD)
  qed (auto dest: bit_imp_le_length)
  then have "take_bit (fls64 w) w = w" by (intro bit_word_eqI) (auto simp: bit_simps not_less [symmetric])
  then show ?thesis by (metis take_bit_nat_less_exp unsigned_take_bit_eq)
qed (simp add: fls64_def)

lemma ucast_u64_eq_0 [simp]: "(ucast (w :: u32) :: u64) = 0 \<longleftrightarrow> w = 0"
  by (simp flip: unsigned_eq_0_iff [where 'a = nat] add: unat_ucast_widen)

lemma kfifo_alloc_inv:
  assumes "\<And>n b. kmalloc n = Some b \<Longrightarrow> length b = unat n"
    and "kfifo_alloc kmalloc sz esize = Some (f, 0)" "0 < unat esize" "kf_size f * unat esize < 2 ^ 32"
  shows "kfifo_inv f \<and> kf_contents f = [] \<and> unat sz \<le> kf_size f"
proof -
  define k where "k = fls64 (ucast sz - 1)"
  define n :: u32 where "n = push_bit k 1"
  have nz: "sz \<noteq> 0" using assms(2) by (auto simp: kfifo_alloc_def roundup_pow_of_two_def)
  then have r: "roundup_pow_of_two (ucast sz) = Some (2 ^ k)"
    by (simp add: roundup_pow_of_two_def k_def)
  have nk: "ucast (2 ^ k :: u64) = n" using ucast_push_bit [of k] by (simp add: n_def)
  have n2: "\<not> n < 2" and data: "kmalloc (ucast n * ucast esize) = Some (kf_data f)"
    and f: "kf_in f = 0" "kf_out f = 0" "kf_mask f = n - 1" "kf_esize f = esize"
    using assms(2) by (auto simp: kfifo_alloc_def r nk Let_def split: if_splits option.splits)
  have k: "k < 32"
  proof (rule ccontr)
    assume "\<not> k < 32"
    then have "n = 0" unfolding n_def by (intro bit_word_eqI) (auto simp: bit_simps)
    then show False using n2 by simp
  qed
  have "(2 :: nat) ^ k < 2 ^ 32" using k by (intro power_strict_increasing) auto
  then have un: "unat n = 2 ^ k" unfolding n_def unsigned_push_bit_eq by (simp add: take_bit_eq_mod push_bit_eq_mult)
  have "unat (n - 1) = unat n - 1" using un by (intro unat_minus_one) auto
  then have sz: "kf_size f = 2 ^ k" using un f(3) by (simp add: kf_size_def)
  have "unat (ucast n * ucast esize :: u64) = 2 ^ k * unat esize"
    using assms(4) un sz by (subst unat_mult_lem [THEN iffD1]) (auto simp: unat_ucast_widen)
  then have "length (kf_data f) = kf_size f * unat esize" using assms(1) [OF data] sz by simp
  moreover have "kf_used f = 0" by (simp add: kf_used_def f)
  ultimately have "kfifo_inv f \<and> kf_contents f = []"
    using assms(3,4) sz k f(4) by (auto simp: kfifo_inv_def kf_contents_def ring_read_def)
  moreover have "unat sz \<le> kf_size f"
  proof -
    have "unat (ucast sz - 1 :: u64) = unat sz - 1" using nz by (subst unat_minus_one) (auto simp: unat_ucast_widen)
    then show ?thesis using fls64_bound [of "ucast sz - 1"] nz by (simp add: sz k_def)
  qed
  ultimately show ?thesis by blast
qed

section \<open>FIFO queues\<close>

text \<open>The interface of a bounded queue: what is accepted is appended, what is taken was in front.\<close>

datatype 'a fifo_op = Put "'a list" | Get nat

fun fifo_run :: "('s \<Rightarrow> 'a list \<Rightarrow> ('s \<times> nat) option) \<Rightarrow> ('s \<Rightarrow> nat \<Rightarrow> ('s \<times> 'a list) option) \<Rightarrow>
  's \<Rightarrow> 'a fifo_op list \<Rightarrow> ('s \<times> 'a list \<times> 'a list) option" where
  "fifo_run enq deq s [] = Some (s, [], [])"
| "fifo_run enq deq s (Put xs # ops) = do {
     (s, n) \<leftarrow> enq s xs;
     (s, i, out) \<leftarrow> fifo_run enq deq s ops;
     Some (s, take n xs @ i, out)
   }"
| "fifo_run enq deq s (Get n # ops) = do {
     (s, xs) \<leftarrow> deq s n;
     (s, i, out) \<leftarrow> fifo_run enq deq s ops;
     Some (s, i, xs @ out)
   }"

locale fifo =
  fixes inv :: "'s \<Rightarrow> bool" and contents :: "'s \<Rightarrow> 'a list"
    and enq :: "'s \<Rightarrow> 'a list \<Rightarrow> ('s \<times> nat) option" and deq :: "'s \<Rightarrow> nat \<Rightarrow> ('s \<times> 'a list) option"
  assumes enq_appends: "inv s \<Longrightarrow> \<exists>s' n. enq s xs = Some (s', n) \<and> inv s' \<and> contents s' = contents s @ take n xs"
    and deq_takes: "inv s \<Longrightarrow> \<exists>s' xs. deq s n = Some (s', xs) \<and> inv s' \<and> contents s = xs @ contents s'"
begin

lemma run_in_order:
  "inv s \<Longrightarrow> \<exists>s' i out. fifo_run enq deq s ops = Some (s', i, out) \<and> inv s' \<and> contents s @ i = out @ contents s'"
proof (induction ops arbitrary: s)
  case (Cons a ops)
  show ?case
  proof (cases a)
    case (Put xs)
    obtain s1 n where 1: "enq s xs = Some (s1, n)" "inv s1" "contents s1 = contents s @ take n xs"
      using enq_appends [OF Cons.prems] by blast
    obtain s2 i out where "fifo_run enq deq s1 ops = Some (s2, i, out)" "inv s2" "contents s1 @ i = out @ contents s2"
      using Cons.IH [OF 1(2)] by blast
    then show ?thesis using Put 1 by simp
  next
    case (Get n)
    obtain s1 xs where 1: "deq s n = Some (s1, xs)" "inv s1" "contents s = xs @ contents s1"
      using deq_takes [OF Cons.prems] by blast
    obtain s2 i out where "fifo_run enq deq s1 ops = Some (s2, i, out)" "inv s2" "contents s1 @ i = out @ contents s2"
      using Cons.IH [OF 1(2)] by blast
    then show ?thesis using Get 1 by simp
  qed
qed simp

end

text \<open>The operations of a fifo on whole buffers: the arguments that \<^verbatim>\<open>kfifo_in\<close> and \<^verbatim>\<open>kfifo_out\<close> pass on.\<close>

definition kfifo_enq :: "kfifo \<Rightarrow> u8 list \<Rightarrow> (kfifo \<times> nat) option" where
  "kfifo_enq f xs = map_option (\<lambda>(f', n). (f', unat n * kf_elem f)) (kfifo_in f xs (of_nat (length xs div kf_elem f)))"

definition kfifo_deq :: "kfifo \<Rightarrow> nat \<Rightarrow> (kfifo \<times> u8 list) option" where
  "kfifo_deq f n = map_option (\<lambda>(f', buf, k). (f', take (unat k * kf_elem f) buf))
     (kfifo_out f (replicate (n * kf_elem f) 0) (of_nat n))"

lemma unat_of_nat_le: "unat (of_nat n :: u32) \<le> n"
  by (simp add: unat_of_nat)

interpretation kf: fifo kfifo_inv kf_contents kfifo_enq kfifo_deq
proof
  fix f and xs :: "u8 list"
  assume inv: "kfifo_inv f"
  have "unat (of_nat (length xs div kf_elem f) :: u32) * kf_elem f \<le> length xs div kf_elem f * kf_elem f"
    using unat_of_nat_le by (rule mult_le_mono1)
  then have "unat (of_nat (length xs div kf_elem f) :: u32) * kf_elem f \<le> length xs"
    using div_times_less_eq_dividend le_trans by blast
  then obtain f' n where "kfifo_in f xs (of_nat (length xs div kf_elem f)) = Some (f', n)" "kfifo_inv f'"
    "kf_contents f' = kf_contents f @ take (unat n * kf_elem f) xs" using kfifo_in_queue [OF inv] by blast
  then show "\<exists>s' n. kfifo_enq f xs = Some (s', n) \<and> kfifo_inv s' \<and> kf_contents s' = kf_contents f @ take n xs"
    by (simp add: kfifo_enq_def)
next
  fix f n
  assume inv: "kfifo_inv f"
  have "unat (of_nat n :: u32) * kf_elem f \<le> length (replicate (n * kf_elem f) (0 :: u8))"
    using unat_of_nat_le [THEN mult_le_mono1] by simp
  then obtain f' buf' k where "kfifo_out f (replicate (n * kf_elem f) 0) (of_nat n) = Some (f', buf', k)" "kfifo_inv f'"
    "kf_contents f = take (unat k * kf_elem f) buf' @ kf_contents f'" using kfifo_out_queue [OF inv] by blast
  then show "\<exists>s' xs. kfifo_deq f n = Some (s', xs) \<and> kfifo_inv s' \<and> kf_contents f = xs @ kf_contents s'"
    by (simp add: kfifo_deq_def)
qed

text \<open>
  C3: A kfifo is a bounded queue of elements, although its 32-bit counters wrap around and a block is
  copied in two parts when it passes the end of the buffer. Any sequence of \<^verbatim>\<open>kfifo_in\<close> and
  \<^verbatim>\<open>kfifo_out\<close> calls stays inside the buffers, and what was delivered followed by what is still
  queued is what was queued at the start followed by what was accepted, in order. A call accepts
  as many elements as there is room for and delivers as many as there are.
\<close>

theorem kfifo_is_queue:
  assumes "kfifo_inv f" "unat len * kf_elem f \<le> length buf"
  shows "(\<exists>f' i out. fifo_run kfifo_enq kfifo_deq f ops = Some (f', i, out) \<and> kfifo_inv f' \<and>
      kf_contents f @ i = out @ kf_contents f') \<and>
    (\<exists>f' n. kfifo_in f buf len = Some (f', n) \<and> unat n = min (unat len) (kf_size f - kf_used f)) \<and>
    (\<exists>f' buf' n. kfifo_out f buf len = Some (f', buf', n) \<and> unat n = min (unat len) (kf_used f) \<and>
      drop (unat n * kf_elem f) buf' = drop (unat n * kf_elem f) buf)"
proof (intro conjI)
  show "\<exists>f' i out. fifo_run kfifo_enq kfifo_deq f ops = Some (f', i, out) \<and> kfifo_inv f' \<and>
      kf_contents f @ i = out @ kf_contents f'"
    by (rule kf.run_in_order [OF assms(1)])
qed (use kfifo_in_queue [OF assms] kfifo_out_queue [OF assms] in blast)+

definition sample_kfifo :: kfifo where
  "sample_kfifo = \<lparr>kf_in = 1, kf_out = 0xFFFFFFFE, kf_mask = 3, kf_esize = 1, kf_data = [7, 8, 5, 6]\<rparr>"

theorem kfifo_is_queue_witness:
  "kfifo_inv sample_kfifo \<and> kf_contents sample_kfifo = [5, 6, 7] \<and>
   (\<exists>f' i out. fifo_run kfifo_enq kfifo_deq sample_kfifo [Get 2, Put [1, 2, 3, 4], Get 3] = Some (f', i, out) \<and>
      [5, 6, 7] @ i = out @ kf_contents f')"
proof -
  have c: "kf_contents sample_kfifo = [5, 6, 7]"
    by (simp add: kf_contents_def ring_read_def kf_used_def kf_size_def sample_kfifo_def upt_rec)
  have "(4 :: nat) = 2 ^ 2" by simp
  then have "kfifo_inv sample_kfifo"
    unfolding kfifo_inv_def kf_size_def kf_used_def sample_kfifo_def by (auto intro!: exI [of _ 2])
  moreover have "unat (0 :: u32) * kf_elem sample_kfifo \<le> length ([] :: u8 list)" by simp
  ultimately show ?thesis
    using kfifo_is_queue [of sample_kfifo 0 "[]" "[Get 2, Put [1, 2, 3, 4], Get 3]"] unfolding c by blast
qed


end
