(* ===== verification/Kernel_Semaphore.thy ===== *)
theory Kernel_Semaphore
  imports Kernel_Prelude
begin

text \<open>
  Counting semaphores, \<^verbatim>\<open>kernel/locking/semaphore.c\<close>, with any number of tasks. A step of the system
  is one critical section under the semaphore's spin lock: a call of \<^verbatim>\<open>up\<close> or \<^verbatim>\<open>down_trylock\<close>, a call
  of \<^verbatim>\<open>down\<close> and its variants until it returns or sleeps, and what a sleeping task does when it runs
  again. Which task runs, which signals are pending, what is left of a timeout and whether a sleeper
  is woken for another reason is up to the environment.
\<close>

unbundle bit_operations_syntax

section \<open>The semaphore and the tasks\<close>

type_synonym task = nat

abbreviation (input) TASK_INTERRUPTIBLE :: u64 where "TASK_INTERRUPTIBLE \<equiv> 0x1"
abbreviation (input) TASK_UNINTERRUPTIBLE :: u64 where "TASK_UNINTERRUPTIBLE \<equiv> 0x2"
abbreviation (input) TASK_WAKEKILL :: u64 where "TASK_WAKEKILL \<equiv> 0x100"
abbreviation (input) TASK_KILLABLE :: u64 where "TASK_KILLABLE \<equiv> 0x102"
abbreviation (input) EINTR :: int where "EINTR \<equiv> 4"
abbreviation (input) ETIME :: int where "ETIME \<equiv> 62"
abbreviation (input) MAX_SCHEDULE_TIMEOUT :: int where "MAX_SCHEDULE_TIMEOUT \<equiv> 0x7FFFFFFFFFFFFFFF"

record semaphore =
  sem_count :: u32
  sem_wait_list :: "task list"

text \<open>
  The waiter on the stack of a sleeping task, with the state and the timeout it sleeps with;
  \<open>w_runnable\<close> says whether it has been woken.
\<close>

record semaphore_waiter =
  w_state :: u64
  w_timeout :: int
  w_up :: bool
  w_runnable :: bool

datatype activity = Asleep semaphore_waiter | Returned int

record sem_sys =
  the_sem :: semaphore
  activities :: "task \<Rightarrow> activity"

definition sema_init :: "u32 \<Rightarrow> sem_sys" where
  "sema_init n = \<lparr>the_sem = \<lparr>sem_count = n, sem_wait_list = []\<rparr>, activities = (\<lambda>_. Returned 0)\<rparr>"

definition sleeping :: "sem_sys \<Rightarrow> task \<Rightarrow> bool" where
  "sleeping s t = (case activities s t of Asleep _ \<Rightarrow> True | Returned _ \<Rightarrow> False)"

named_theorems sys_simps

definition set_activity :: "task \<Rightarrow> activity \<Rightarrow> sem_sys \<Rightarrow> sem_sys" where
  "set_activity t a s = s\<lparr>activities := (activities s)(t := a)\<rparr>"

definition set_count :: "u32 \<Rightarrow> sem_sys \<Rightarrow> sem_sys" where
  "set_count c s = s\<lparr>the_sem := (the_sem s)\<lparr>sem_count := c\<rparr>\<rparr>"

definition set_wait_list :: "task list \<Rightarrow> sem_sys \<Rightarrow> sem_sys" where
  "set_wait_list l s = s\<lparr>the_sem := (the_sem s)\<lparr>sem_wait_list := l\<rparr>\<rparr>"

abbreviation count_of :: "sem_sys \<Rightarrow> u32" where
  "count_of s \<equiv> sem_count (the_sem s)"

abbreviation waiters :: "sem_sys \<Rightarrow> task list" where
  "waiters s \<equiv> sem_wait_list (the_sem s)"

section \<open>The critical sections\<close>

text \<open>The signals of a task: whether one is pending, and whether a fatal one is.\<close>

type_synonym signals = "bool \<times> bool"

definition signal_pending_state :: "u64 \<Rightarrow> signals \<Rightarrow> bool" where
  "signal_pending_state state sg =
     (if state AND (TASK_INTERRUPTIBLE OR TASK_WAKEKILL) = 0 then False
      else if \<not> fst sg then False
      else state AND TASK_INTERRUPTIBLE \<noteq> 0 \<or> snd sg)"

text \<open>The head of the loop of \<^verbatim>\<open>__down_common\<close>: give up or go to sleep.\<close>

definition down_loop :: "task \<Rightarrow> u64 \<Rightarrow> int \<Rightarrow> signals \<Rightarrow> sem_sys \<Rightarrow> sem_sys" where
  "down_loop t state timeout sg s =
     (if signal_pending_state state sg then
        set_activity t (Returned (- EINTR)) (set_wait_list (remove1 t (waiters s)) s)
      else if timeout \<le> 0 then
        set_activity t (Returned (- ETIME)) (set_wait_list (remove1 t (waiters s)) s)
      else
        set_activity t (Asleep \<lparr>w_state = state, w_timeout = timeout, w_up = False, w_runnable = False\<rparr>) s)"

definition down_common :: "task \<Rightarrow> u64 \<Rightarrow> int \<Rightarrow> signals \<Rightarrow> sem_sys \<Rightarrow> sem_sys" where
  "down_common t state timeout sg s = down_loop t state timeout sg (set_wait_list (waiters s @ [t]) s)"

text \<open>What a task does when it returns from \<^verbatim>\<open>schedule_timeout\<close> with the rest of its timeout.\<close>

definition down_resume :: "task \<Rightarrow> semaphore_waiter \<Rightarrow> int \<Rightarrow> signals \<Rightarrow> sem_sys \<Rightarrow> sem_sys" where
  "down_resume t w timeout sg s =
     (if w_up w then set_activity t (Returned 0) s
      else down_loop t (w_state w) timeout sg s)"

definition down_with :: "task \<Rightarrow> u64 \<Rightarrow> int \<Rightarrow> signals \<Rightarrow> sem_sys \<Rightarrow> sem_sys" where
  "down_with t state timeout sg s =
     (if count_of s > 0 then set_activity t (Returned 0) (set_count (count_of s - 1) s)
      else down_common t state timeout sg s)"

definition down :: "task \<Rightarrow> signals \<Rightarrow> sem_sys \<Rightarrow> sem_sys" where
  "down t sg s = down_with t TASK_UNINTERRUPTIBLE MAX_SCHEDULE_TIMEOUT sg s"

definition down_interruptible :: "task \<Rightarrow> signals \<Rightarrow> sem_sys \<Rightarrow> sem_sys" where
  "down_interruptible t sg s = down_with t TASK_INTERRUPTIBLE MAX_SCHEDULE_TIMEOUT sg s"

definition down_killable :: "task \<Rightarrow> signals \<Rightarrow> sem_sys \<Rightarrow> sem_sys" where
  "down_killable t sg s = down_with t TASK_KILLABLE MAX_SCHEDULE_TIMEOUT sg s"

definition down_timeout :: "task \<Rightarrow> int \<Rightarrow> signals \<Rightarrow> sem_sys \<Rightarrow> sem_sys" where
  "down_timeout t timeout sg s = down_with t TASK_UNINTERRUPTIBLE timeout sg s"

text \<open>The difference is assigned to an \<^verbatim>\<open>int\<close>.\<close>

definition down_trylock :: "task \<Rightarrow> sem_sys \<Rightarrow> sem_sys" where
  "down_trylock t s =
     (let c = count_of s - 1 in
      if sint c \<ge> 0 then set_activity t (Returned 0) (set_count c s) else set_activity t (Returned 1) s)"

definition wake_up_process :: "task \<Rightarrow> sem_sys \<Rightarrow> sem_sys" where
  "wake_up_process t s =
     (case activities s t of
        Asleep w \<Rightarrow> set_activity t (Asleep (w\<lparr>w_runnable := True\<rparr>)) s
      | Returned _ \<Rightarrow> s)"

definition mark_up :: "task \<Rightarrow> sem_sys \<Rightarrow> sem_sys" where
  "mark_up t s =
     (case activities s t of
        Asleep w \<Rightarrow> set_activity t (Asleep (w\<lparr>w_up := True\<rparr>)) s
      | Returned _ \<Rightarrow> s)"

definition up :: "sem_sys \<Rightarrow> sem_sys" where
  "up s =
     (case waiters s of
        [] \<Rightarrow> set_count (count_of s + 1) s
      | t # ts \<Rightarrow> wake_up_process t (mark_up t (set_wait_list ts s)))"

section \<open>Runs of the system\<close>

datatype sem_event =
    Down task u64 int signals
  | Trylock task
  | Up
  | Kick task
  | Resume task int signals

text \<open>
  \<open>Kick\<close> is a wakeup from elsewhere: a timer or a signal. \<^verbatim>\<open>schedule_timeout\<close> returns what is left
  of the timeout, and \<^verbatim>\<open>MAX_SCHEDULE_TIMEOUT\<close> is no timeout at all.
\<close>

inductive sem_step :: "sem_sys \<Rightarrow> sem_event \<Rightarrow> sem_sys \<Rightarrow> bool" where
  step_down: "\<not> sleeping s t \<Longrightarrow> sem_step s (Down t state timeout sg) (down_with t state timeout sg s)"
| step_trylock: "\<not> sleeping s t \<Longrightarrow> sem_step s (Trylock t) (down_trylock t s)"
| step_up: "sem_step s Up (up s)"
| step_kick: "sem_step s (Kick t) (wake_up_process t s)"
| step_resume: "activities s t = Asleep w \<Longrightarrow> w_runnable w \<Longrightarrow>
    (if w_timeout w = MAX_SCHEDULE_TIMEOUT then timeout = MAX_SCHEDULE_TIMEOUT else timeout \<le> w_timeout w) \<Longrightarrow>
    sem_step s (Resume t timeout sg) (down_resume t w timeout sg s)"

inductive_cases sem_step_downE: "sem_step s (Down t state timeout sg) s'"
inductive_cases sem_step_trylockE: "sem_step s (Trylock t) s'"
inductive_cases sem_step_upE: "sem_step s Up s'"
inductive_cases sem_step_kickE: "sem_step s (Kick t) s'"
inductive_cases sem_step_resumeE: "sem_step s (Resume t timeout sg) s'"

text \<open>The calls that a step completes with success.\<close>

definition acquires :: "sem_sys \<Rightarrow> sem_event \<Rightarrow> nat" where
  "acquires s e = (case e of
       Down t state timeout sg \<Rightarrow> if count_of s > 0 then 1 else 0
     | Trylock t \<Rightarrow> if sint (count_of s - 1) \<ge> 0 then 1 else 0
     | Resume t timeout sg \<Rightarrow> (case activities s t of Asleep w \<Rightarrow> if w_up w then 1 else 0 | Returned _ \<Rightarrow> 0)
     | _ \<Rightarrow> 0)"

definition is_up :: "sem_event \<Rightarrow> bool" where
  "is_up e = (case e of Up \<Rightarrow> True | _ \<Rightarrow> False)"

definition ups :: "sem_event list \<Rightarrow> nat" where
  "ups es = length (filter is_up es)"

inductive sem_run :: "sem_sys \<Rightarrow> sem_event list \<Rightarrow> nat \<Rightarrow> sem_sys \<Rightarrow> bool" where
  run_nil: "sem_run s [] 0 s"
| run_cons: "sem_step s e s' \<Longrightarrow> sem_run s' es n s'' \<Longrightarrow> sem_run s (e # es) (acquires s e + n) s''"

section \<open>The invariant\<close>

text \<open>
  The wait list holds each sleeping task that has not been handed the semaphore once, a
  positive count means that nobody waits, and a task that was handed the semaphore is runnable.
\<close>

definition sem_inv :: "sem_sys \<Rightarrow> bool" where
  "sem_inv s \<longleftrightarrow> distinct (waiters s) \<and> (\<forall>t. t \<in> set (waiters s) \<longleftrightarrow> (\<exists>w. activities s t = Asleep w \<and> \<not> w_up w)) \<and>
     (count_of s \<noteq> 0 \<longrightarrow> waiters s = []) \<and> (\<forall>t w. activities s t = Asleep w \<and> w_up w \<longrightarrow> w_runnable w)"

definition granted :: "sem_sys \<Rightarrow> task set" where
  "granted s = {t. \<exists>w. activities s t = Asleep w \<and> w_up w}"

lemma sys_access [sys_simps]:
  "activities (set_activity t a s) = (activities s)(t := a)" "waiters (set_activity t a s) = waiters s"
  "count_of (set_activity t a s) = count_of s"
  "activities (set_count c s) = activities s" "waiters (set_count c s) = waiters s" "count_of (set_count c s) = c"
  "activities (set_wait_list l s) = activities s" "waiters (set_wait_list l s) = l" "count_of (set_wait_list l s) = count_of s"
  by (simp_all add: set_activity_def set_count_def set_wait_list_def)

lemma sleeping_iff: "sleeping s t \<longleftrightarrow> (\<exists>w. activities s t = Asleep w)"
  by (simp add: sleeping_def split: activity.split)

lemma not_sleeping_waiter: "sem_inv s \<Longrightarrow> \<not> sleeping s t \<Longrightarrow> t \<notin> set (waiters s)"
  by (auto simp: sem_inv_def sleeping_iff)

lemma inv_init: "sem_inv (sema_init n)"
  by (simp add: sem_inv_def sema_init_def)

lemma inv_loop:
  assumes "distinct (waiters s)" "count_of s = 0" "t \<in> set (waiters s)"
    and "\<And>u. u \<noteq> t \<Longrightarrow> u \<in> set (waiters s) \<longleftrightarrow> (\<exists>w. activities s u = Asleep w \<and> \<not> w_up w)"
    and "\<And>u w. u \<noteq> t \<Longrightarrow> activities s u = Asleep w \<Longrightarrow> w_up w \<Longrightarrow> w_runnable w"
  shows "sem_inv (down_loop t state timeout sg s)"
  using assms by (auto simp: sem_inv_def down_loop_def sys_simps)

lemma inv_down:
  assumes "sem_inv s" "\<not> sleeping s t"
  shows "sem_inv (down_with t state timeout sg s)"
proof (cases "count_of s > 0")
  case True
  then show ?thesis using assms by (auto simp: down_with_def sem_inv_def sys_simps sleeping_iff)
next
  case False
  then have "sem_inv (down_loop t state timeout sg (set_wait_list (waiters s @ [t]) s))"
    using assms not_sleeping_waiter [OF assms]
    by (intro inv_loop) (auto simp: sys_simps sem_inv_def word_gt_0)
  then show ?thesis using False by (simp add: down_with_def down_common_def)
qed

lemma inv_resume:
  assumes "sem_inv s" "activities s t = Asleep w"
  shows "sem_inv (down_resume t w timeout sg s)"
proof (cases "w_up w")
  case True
  then show ?thesis using assms by (auto simp: down_resume_def sem_inv_def sys_simps)
next
  case False
  then have "t \<in> set (waiters s)" using assms by (auto simp: sem_inv_def)
  then have "sem_inv (down_loop t (w_state w) timeout sg s)"
    using assms(1) by (intro inv_loop) (auto simp: sem_inv_def)
  then show ?thesis using False by (simp add: down_resume_def)
qed

lemma inv_up: "sem_inv s \<Longrightarrow> sem_inv (up s)"
proof (cases "waiters s")
  case (Cons t ts)
  assume inv: "sem_inv s"
  then have "t \<in> set (waiters s)" using Cons by simp
  then obtain w where "activities s t = Asleep w" using inv by (auto simp: sem_inv_def)
  then show ?thesis using inv Cons
    by (auto simp: up_def mark_up_def wake_up_process_def sem_inv_def sys_simps)
qed (auto simp: up_def sem_inv_def sys_simps)

lemma inv_trylock: "sem_inv s \<Longrightarrow> \<not> sleeping s t \<Longrightarrow> sem_inv (down_trylock t s)"
  by (auto simp: down_trylock_def sem_inv_def sys_simps sleeping_iff Let_def)

lemma inv_kick: "sem_inv s \<Longrightarrow> sem_inv (wake_up_process t s)"
  by (auto simp: wake_up_process_def sem_inv_def sys_simps split: activity.split)

lemma step_inv: "sem_step s e s' \<Longrightarrow> sem_inv s \<Longrightarrow> sem_inv s'"
  by (induction rule: sem_step.induct) (simp_all add: inv_down inv_trylock inv_up inv_kick inv_resume)

lemma run_inv: "sem_run s es n s' \<Longrightarrow> sem_inv s \<Longrightarrow> sem_inv s'"
  by (induction rule: sem_run.induct) (auto dest: step_inv)

section \<open>No token is lost or made up\<close>

lemma granted_set_activity [sys_simps]:
  "granted (set_activity t a s) = (if \<exists>w. a = Asleep w \<and> w_up w then insert t (granted s) else granted s - {t})"
  by (auto simp: granted_def sys_simps)

lemma granted_other [sys_simps]: "granted (set_count c s) = granted s" "granted (set_wait_list l s) = granted s"
  by (simp_all add: granted_def sys_simps)

lemma granted_loop: "granted (down_loop t state timeout sg s) = granted s - {t}" "count_of (down_loop t state timeout sg s) = count_of s"
  by (auto simp: down_loop_def sys_simps)

lemma not_granted: "\<not> sleeping s t \<Longrightarrow> t \<notin> granted s" "sem_inv s \<Longrightarrow> t \<in> set (waiters s) \<Longrightarrow> t \<notin> granted s"
  by (auto simp: sleeping_iff granted_def sem_inv_def)

lemma unat_minus_1: "(c :: u32) \<noteq> 0 \<Longrightarrow> unat (c - 1) + 1 = unat c"
  by (metis Suc_eq_plus1 Suc_pred' unat_gt_0 unat_minus_one)

definition tokens :: "sem_sys \<Rightarrow> nat" where
  "tokens s = unat (count_of s) + card (granted s)"

lemma tokens_down:
  assumes "\<not> sleeping s t"
  shows "tokens (down_with t state timeout sg s) + (if count_of s > 0 then 1 else 0) = tokens s"
    and "granted (down_with t state timeout sg s) = granted s"
proof -
  show "tokens (down_with t state timeout sg s) + (if count_of s > 0 then 1 else 0) = tokens s"
    using not_granted(1) [OF assms] unat_minus_1 [of "count_of s"]
    by (auto simp: tokens_def down_with_def down_common_def granted_loop sys_simps word_gt_0)
  show "granted (down_with t state timeout sg s) = granted s"
    using not_granted(1) [OF assms] by (auto simp: down_with_def down_common_def granted_loop sys_simps)
qed

lemma tokens_trylock:
  assumes "\<not> sleeping s t"
  shows "tokens (down_trylock t s) + (if sint (count_of s - 1) \<ge> 0 then 1 else 0) = tokens s"
    and "granted (down_trylock t s) = granted s"
proof -
  have "count_of s \<noteq> 0" if "sint (count_of s - 1) \<ge> 0" using that by auto
  then show "tokens (down_trylock t s) + (if sint (count_of s - 1) \<ge> 0 then 1 else 0) = tokens s"
    using not_granted(1) [OF assms] unat_minus_1 [of "count_of s"]
    by (auto simp: tokens_def down_trylock_def Let_def sys_simps)
  show "granted (down_trylock t s) = granted s"
    using not_granted(1) [OF assms] by (auto simp: down_trylock_def Let_def sys_simps)
qed

lemma tokens_up:
  assumes "sem_inv s" "finite (granted s)" "unat (count_of s) + 1 < 2 ^ 32"
  shows "tokens (up s) = tokens s + 1" and "finite (granted (up s))"
proof -
  show "tokens (up s) = tokens s + 1" "finite (granted (up s))"
  proof (atomize (full), cases "waiters s")
    case Nil
    have "unat (count_of s + 1) = unat (count_of s) + 1" using assms(3) by (subst unat_add_no_wrap) auto
    then show "tokens (up s) = tokens s + 1 \<and> finite (granted (up s))"
      using Nil assms(2) by (simp add: up_def tokens_def sys_simps)
  next
    case (Cons t ts)
    then obtain w where w: "activities s t = Asleep w" using assms(1) by (auto simp: sem_inv_def) (metis list.set_intros(1))
    have "t \<notin> granted s" using not_granted(2) [OF assms(1)] Cons by simp
    then show "tokens (up s) = tokens s + 1 \<and> finite (granted (up s))"
      using Cons assms(2) w by (simp add: up_def mark_up_def wake_up_process_def tokens_def sys_simps)
  qed
qed

lemma granted_kick: "granted (wake_up_process t s) = granted s" "count_of (wake_up_process t s) = count_of s"
  by (auto simp: wake_up_process_def granted_def sys_simps split: activity.split)

lemma tokens_resume:
  assumes "activities s t = Asleep w" "finite (granted s)"
  shows "tokens (down_resume t w timeout sg s) + (if w_up w then 1 else 0) = tokens s"
    and "granted (down_resume t w timeout sg s) = granted s - {t}"
proof -
  have "t \<in> granted s \<longleftrightarrow> w_up w" using assms(1) by (auto simp: granted_def)
  then show "tokens (down_resume t w timeout sg s) + (if w_up w then 1 else 0) = tokens s"
    using assms(2) card_Suc_Diff1 [OF assms(2), of t]
    by (auto simp: tokens_def down_resume_def granted_loop sys_simps)
  show "granted (down_resume t w timeout sg s) = granted s - {t}"
    by (auto simp: down_resume_def granted_loop sys_simps)
qed

lemma step_tokens:
  assumes "sem_step s e s'" "sem_inv s" "finite (granted s)" "is_up e \<Longrightarrow> unat (count_of s) + 1 < 2 ^ 32"
  shows "tokens s' + acquires s e = tokens s + (if is_up e then 1 else 0) \<and> finite (granted s')"
  using assms
proof (induction rule: sem_step.induct)
  case (step_kick s t)
  then show ?case by (simp add: tokens_def granted_kick acquires_def is_up_def)
qed (simp_all add: tokens_down tokens_trylock tokens_up tokens_resume acquires_def is_up_def)

lemma run_tokens:
  "sem_run s es n s' \<Longrightarrow> sem_inv s \<Longrightarrow> finite (granted s) \<Longrightarrow> tokens s + ups es < 2 ^ 32 \<Longrightarrow>
    tokens s' + n = tokens s + ups es"
proof (induction rule: sem_run.induct)
  case (run_cons s e s' es n s'')
  have "unat (count_of s) + 1 < 2 ^ 32" if "is_up e" using run_cons.prems(3) that by (simp add: ups_def tokens_def)
  then have t: "tokens s' + acquires s e = tokens s + (if is_up e then 1 else 0)" "finite (granted s')"
    using step_tokens [OF run_cons.hyps(1) run_cons.prems(1,2)] by auto
  have u: "ups (e # es) = (if is_up e then 1 else 0) + ups es" by (simp add: ups_def)
  then have "tokens s' + ups es < 2 ^ 32" using t(1) run_cons.prems(3) by (simp split: if_splits)
  then have "tokens s'' + n = tokens s' + ups es"
    using run_cons.IH step_inv [OF run_cons.hyps(1) run_cons.prems(1)] t(2) by blast
  then show ?case using t(1) u by simp
qed (simp add: ups_def)

section \<open>Waiters are served\<close>

text \<open>A call of \<^verbatim>\<open>down\<close> in its sleep, before and after the semaphore is handed to it.\<close>

definition waits_at :: "sem_sys \<Rightarrow> task \<Rightarrow> nat \<Rightarrow> bool" where
  "waits_at s t k \<longleftrightarrow> (\<exists>w. activities s t = Asleep w \<and> w_state w = TASK_UNINTERRUPTIBLE \<and>
     w_timeout w = MAX_SCHEDULE_TIMEOUT \<and> \<not> w_up w) \<and> k < length (waiters s) \<and> waiters s ! k = t"

definition served :: "sem_sys \<Rightarrow> task \<Rightarrow> bool" where
  "served s t \<longleftrightarrow> activities s t = Returned 0 \<or> (\<exists>w. activities s t = Asleep w \<and> w_up w \<and> w_runnable w)"

fun calls_by :: "task \<Rightarrow> sem_event \<Rightarrow> bool" where
  "calls_by t (Down u state timeout sg) = (u = t)"
| "calls_by t (Trylock u) = (u = t)"
| "calls_by t e = False"

lemma uninterruptible: "\<not> signal_pending_state TASK_UNINTERRUPTIBLE sg"
  by (simp add: signal_pending_state_def)

lemma loop_other:
  assumes "waits_at s t k" "u \<noteq> t"
  shows "\<exists>j \<le> k. waits_at (down_loop u state timeout sg s) t j"
proof -
  define us where "us = take k (waiters s)"
  define vs where "vs = drop (Suc k) (waiters s)"
  have split: "waiters s = us @ t # vs" "length us = k"
    using assms(1) id_take_nth_drop [of k "waiters s"] by (auto simp: waits_at_def us_def vs_def)
  have "\<exists>us' vs'. remove1 u (waiters s) = us' @ t # vs' \<and> length us' \<le> k"
  proof (cases "u \<in> set us")
    case True
    then have "remove1 u (waiters s) = remove1 u us @ t # vs" using split(1) by (simp add: remove1_append)
    moreover have "length (remove1 u us) \<le> k" using split(2) by (simp add: length_remove1)
    ultimately show ?thesis by blast
  next
    case False
    then have "remove1 u (waiters s) = us @ t # remove1 u vs" using split(1) assms(2) by (simp add: remove1_append)
    then show ?thesis using split(2) by blast
  qed
  then obtain us' vs' where r: "remove1 u (waiters s) = us' @ t # vs'" "length us' \<le> k" by blast
  then have "length us' < length (remove1 u (waiters s))" "remove1 u (waiters s) ! length us' = t" by simp_all
  then show ?thesis using assms(1,2) r(2) by (auto simp: waits_at_def down_loop_def sys_simps)
qed

lemma waits_append: "waits_at s t k \<Longrightarrow> waits_at (set_wait_list (waiters s @ l) s) t k"
  by (auto simp: waits_at_def sys_simps nth_append)

lemma step_waits:
  assumes "sem_step s e s'" "sem_inv s" "waits_at s t k" "\<not> calls_by t e"
  shows "if is_up e then if k = 0 then served s' t else waits_at s' t (k - 1) else \<exists>j \<le> k. waits_at s' t j"
  using assms
proof (induction rule: sem_step.induct)
  case (step_down s u state timeout sg)
  then have ne: "u \<noteq> t" by simp
  show ?case
  proof (cases "count_of s > 0")
    case True
    then show ?thesis using step_down.prems ne by (auto simp: is_up_def down_with_def waits_at_def sys_simps)
  next
    case False
    have "waits_at (set_wait_list (waiters s @ [u]) s) t k" using step_down.prems(2) by (rule waits_append)
    then show ?thesis using False loop_other [OF _ ne]
      by (simp add: is_up_def down_with_def down_common_def)
  qed
next
  case (step_trylock s u)
  then show ?case by (auto simp: is_up_def down_trylock_def Let_def waits_at_def sys_simps)
next
  case (step_up s)
  show ?case
  proof (cases k)
    case 0
    then show ?thesis using step_up.prems(2)
      by (cases "waiters s") (auto simp: waits_at_def is_up_def up_def mark_up_def wake_up_process_def served_def sys_simps)
  next
    case (Suc j)
    then obtain u us where u: "waiters s = u # us" "us ! j = t" "j < length us"
      using step_up.prems(2) by (cases "waiters s") (auto simp: waits_at_def)
    then have ne: "u \<noteq> t" "u \<in> set (waiters s)" using step_up.prems(1) nth_mem by (fastforce simp: sem_inv_def)+
    then obtain x where "activities s u = Asleep x" using step_up.prems(1) by (auto simp: sem_inv_def)
    then show ?thesis using Suc u ne step_up.prems(2)
      by (auto simp: is_up_def up_def mark_up_def wake_up_process_def waits_at_def sys_simps)
  qed
next
  case (step_kick s u)
  then show ?case by (auto simp: is_up_def wake_up_process_def waits_at_def sys_simps split: activity.split)
next
  case (step_resume s u w timeout sg)
  show ?case
  proof (cases "u = t")
    case True
    then show ?thesis using step_resume
      by (auto simp: is_up_def waits_at_def down_resume_def down_loop_def uninterruptible sys_simps)
  next
    case False
    then show ?thesis
      using step_resume.prems(2) loop_other [OF step_resume.prems(2) False, of "w_state w" timeout sg]
      by (auto simp: is_up_def down_resume_def) (auto simp: waits_at_def sys_simps)
  qed
qed

lemma step_served:
  assumes "sem_step s e s'" "sem_inv s" "served s t" "\<not> calls_by t e"
  shows "served s' t"
  using assms
proof (induction rule: sem_step.induct)
  case (step_down s u state timeout sg)
  then show ?case by (auto simp: down_with_def down_common_def down_loop_def served_def sys_simps)
next
  case (step_trylock s u)
  then show ?case by (auto simp: down_trylock_def Let_def served_def sys_simps)
next
  case (step_up s)
  show ?case
  proof (cases "waiters s")
    case Nil
    then show ?thesis using step_up by (auto simp: up_def served_def sys_simps)
  next
    case (Cons u us)
    then obtain x where "activities s u = Asleep x" "\<not> w_up x" using step_up.prems(1) by (auto simp: sem_inv_def) (metis list.set_intros(1))
    then show ?thesis using step_up Cons
      by (auto simp: up_def mark_up_def wake_up_process_def served_def sys_simps)
  qed
next
  case (step_kick s u)
  then show ?case by (auto simp: wake_up_process_def served_def sys_simps split: activity.split)
next
  case (step_resume s u w timeout sg)
  then show ?case by (auto simp: down_resume_def down_loop_def served_def sys_simps)
qed

lemma run_served:
  "sem_run s es n s' \<Longrightarrow> sem_inv s \<Longrightarrow> served s t \<Longrightarrow> \<forall>e \<in> set es. \<not> calls_by t e \<Longrightarrow> served s' t"
  by (induction rule: sem_run.induct) (auto dest: step_inv step_served)

lemma run_waits:
  "sem_run s es n s' \<Longrightarrow> sem_inv s \<Longrightarrow> waits_at s t k \<Longrightarrow> \<forall>e \<in> set es. \<not> calls_by t e \<Longrightarrow>
    k < ups es \<Longrightarrow> served s' t"
proof (induction arbitrary: k rule: sem_run.induct)
  case (run_nil s)
  then show ?case by (simp add: ups_def)
next
  case (run_cons s e s' es n s'')
  have inv: "sem_inv s'" using run_cons.hyps(1) run_cons.prems(1) by (rule step_inv)
  have st: "if is_up e then if k = 0 then served s' t else waits_at s' t (k - 1) else \<exists>j \<le> k. waits_at s' t j"
    using step_waits [OF run_cons.hyps(1) run_cons.prems(1,2)] run_cons.prems(3) by simp
  have rest: "\<forall>e \<in> set es. \<not> calls_by t e" using run_cons.prems(3) by simp
  show ?case
  proof (cases "is_up e \<and> k = 0")
    case True
    then show ?thesis using st run_served [OF run_cons.hyps(2) inv _ rest] by simp
  next
    case False
    then obtain j where j: "waits_at s' t j" "j + (if is_up e then 1 else 0) \<le> k" using st by (cases "is_up e") auto
    then have "j < ups es" using run_cons.prems(4) by (simp add: ups_def split: if_splits)
    then show ?thesis using run_cons.IH [OF inv j(1) rest] by simp
  qed
qed

section \<open>Properties\<close>

text \<open>
  C5: Tokens are conserved under every interleaving. As long as the counter does not overflow, in each
  state that is reached from a semaphore initialised to \<open>n\<close> the count, the calls that have
  returned 0 and the sleepers that have been handed the semaphore add up to \<open>n\<close> plus the
  number of calls of \<^verbatim>\<open>up\<close>; timeouts, signals and spurious wakeups lose no token, and a
  positive count means that no task waits.
\<close>

theorem semaphore_conserves_tokens:
  assumes "sem_run (sema_init n) es k s" "unat n + ups es < 2 ^ 32"
  shows "unat (count_of s) + k + card (granted s) = unat n + ups es \<and>
    (count_of s = 0 \<or> waiters s = []) \<and> distinct (waiters s)"
proof -
  have g: "granted (sema_init n) = {}" "count_of (sema_init n) = n" by (simp_all add: granted_def sema_init_def)
  have "tokens s + k = unat n + ups es"
    using run_tokens [OF assms(1) inv_init] assms(2) g by (simp add: tokens_def)
  moreover have "sem_inv s" using assms(1) inv_init by (rule run_inv)
  ultimately show ?thesis by (auto simp: tokens_def sem_inv_def)
qed

text \<open>A run: task 1 takes the semaphore, task 2 has to wait, and the release hands it to task 2.\<close>

definition demo_start :: sem_sys where
  "demo_start = down 2 (True, True) (down 1 (False, False) (sema_init 1))"

abbreviation demo_calls :: "sem_event list" where
  "demo_calls \<equiv> [Down 1 TASK_UNINTERRUPTIBLE MAX_SCHEDULE_TIMEOUT (False, False),
     Down 2 TASK_UNINTERRUPTIBLE MAX_SCHEDULE_TIMEOUT (True, True)]"

lemmas demo_simps = demo_start_def down_def down_with_def down_common_def down_loop_def sema_init_def
  signal_pending_state_def waits_at_def sleeping_def set_activity_def set_count_def set_wait_list_def

lemma demo_waits: "waits_at demo_start 2 0"
  by (simp add: demo_simps)

lemma demo_run: "sem_run (sema_init 1) demo_calls 1 demo_start"
proof -
  let ?s = "down_with 1 TASK_UNINTERRUPTIBLE MAX_SCHEDULE_TIMEOUT (False, False) (sema_init 1)"
  have 1: "sem_step (sema_init 1) (Down 1 TASK_UNINTERRUPTIBLE MAX_SCHEDULE_TIMEOUT (False, False)) ?s"
    by (rule step_down) (simp add: demo_simps)
  have 2: "sem_step ?s (Down 2 TASK_UNINTERRUPTIBLE MAX_SCHEDULE_TIMEOUT (True, True)) demo_start"
    unfolding demo_start_def down_def by (rule step_down) (simp add: demo_simps)
  have "acquires (sema_init 1) (Down 1 TASK_UNINTERRUPTIBLE MAX_SCHEDULE_TIMEOUT (False, False)) = 1"
    "acquires ?s (Down 2 TASK_UNINTERRUPTIBLE MAX_SCHEDULE_TIMEOUT (True, True)) = 0"
    by (simp_all add: acquires_def demo_simps)
  then show ?thesis using run_cons [OF 1 run_cons [OF 2 run_nil]] by simp
qed

lemma demo_up: "sem_run demo_start [Up] 0 (up demo_start)"
  using run_cons [OF step_up run_nil, of demo_start] by (simp add: acquires_def)

theorem semaphore_conserves_tokens_witness:
  "sem_run (sema_init 1) demo_calls 1 demo_start \<and> unat (1 :: u32) + ups demo_calls < 2 ^ 32 \<and>
   unat (count_of demo_start) + 1 + card (granted demo_start) = 1 + ups demo_calls"
proof -
  have "unat (1 :: u32) + ups demo_calls < 2 ^ 32" by (simp add: ups_def is_up_def)
  then show ?thesis using semaphore_conserves_tokens [OF demo_run] demo_run by simp
qed

text \<open>
  C4: A call of \<^verbatim>\<open>down\<close> is served, first come first served. If a task sleeps in \<^verbatim>\<open>down\<close> behind \<open>k\<close> other
  waiters, then in every run in which \<^verbatim>\<open>up\<close> is called more than \<open>k\<close> times, whatever the other tasks,
  timers and signals do, it has returned 0 or is runnable and has been handed the semaphore, and
  then returns 0 the next time it runs.
\<close>

theorem down_is_served:
  assumes "sem_run (sema_init n) es0 k0 s" "waits_at s t k" "sem_run s es m s'"
    and "k < ups es" "\<forall>e \<in> set es. \<not> calls_by t e"
  shows "served s' t \<and> (\<forall>w timeout sg. activities s' t = Asleep w \<longrightarrow>
    activities (down_resume t w timeout sg s') t = Returned 0)"
proof -
  have "sem_inv s" using assms(1) inv_init by (rule run_inv)
  then have "served s' t" using run_waits [OF assms(3) _ assms(2,5,4)] by simp
  then show ?thesis by (auto simp: served_def down_resume_def sys_simps)
qed

theorem down_is_served_witness:
  "sem_run (sema_init 1) demo_calls 1 demo_start \<and> waits_at demo_start 2 0 \<and> served (up demo_start) 2"
proof -
  have "0 < ups [Up]" "\<forall>e \<in> set [Up]. \<not> calls_by 2 e" by (simp_all add: ups_def is_up_def)
  then show ?thesis using down_is_served [OF demo_run demo_waits demo_up] demo_run demo_waits by simp
qed

end
