(* ===== verification/Kernel_Resource.thy ===== *)
theory Kernel_Resource
  imports Kernel_Prelude
begin

text \<open>
  The tree of I/O and memory resources, \<^verbatim>\<open>kernel/resource.c\<close>, with the architecture's reservations
  of \<^verbatim>\<open>arch/x86/kernel/resource.c\<close>. A resource is a tree: the siblings under \<^verbatim>\<open>child\<close> are a list, and
  an identifier stands for the address of the structure. An operation takes the tree below a root and
  returns the new one. Addresses are 64-bit words, so that the sums of the source wrap around.
\<close>

unbundle bit_operations_syntax

section \<open>Resources\<close>

datatype resource =
  Resource (r_id: nat) (r_start: u64) (r_end: u64) (r_flags: u64) (r_desc: u64) (r_child: "resource list")

fun with_child :: "resource \<Rightarrow> resource list \<Rightarrow> resource" where
  "with_child (Resource i s e f d ch) cs = Resource i s e f d cs"

fun with_range :: "resource \<Rightarrow> u64 \<Rightarrow> u64 \<Rightarrow> resource" where
  "with_range (Resource i s e f d ch) st en = Resource i st en f d ch"

abbreviation (input) IORESOURCE_TYPE_BITS :: u64 where "IORESOURCE_TYPE_BITS \<equiv> 0x1f00"
abbreviation (input) IORESOURCE_EXT_TYPE_BITS :: u64 where "IORESOURCE_EXT_TYPE_BITS \<equiv> 0x1000000"
abbreviation (input) IORESOURCE_MEM :: u64 where "IORESOURCE_MEM \<equiv> 0x200"
abbreviation (input) IORESOURCE_SYSTEM_RAM :: u64 where "IORESOURCE_SYSTEM_RAM \<equiv> 0x1000200"
abbreviation (input) IORESOURCE_UNSET :: u64 where "IORESOURCE_UNSET \<equiv> 0x20000000"
abbreviation (input) IORESOURCE_BUSY :: u64 where "IORESOURCE_BUSY \<equiv> 0x80000000"
abbreviation (input) IORESOURCE_EXCLUSIVE :: u64 where "IORESOURCE_EXCLUSIVE \<equiv> 0x8000000"
abbreviation (input) IORESOURCE_SIZEALIGN :: u64 where "IORESOURCE_SIZEALIGN \<equiv> 0x40000"
abbreviation (input) IORESOURCE_STARTALIGN :: u64 where "IORESOURCE_STARTALIGN \<equiv> 0x80000"

definition resource_size :: "resource \<Rightarrow> u64" where
  "resource_size res = r_end res - r_start res + 1"

definition resource_type :: "u64 \<Rightarrow> u64" where
  "resource_type flags = flags AND IORESOURCE_TYPE_BITS"

text \<open>\<^verbatim>\<open>resource_contains\<close>, on the flags and the bounds of the two resources.\<close>

definition resource_contains :: "u64 \<Rightarrow> u64 \<Rightarrow> u64 \<Rightarrow> u64 \<Rightarrow> u64 \<Rightarrow> u64 \<Rightarrow> bool" where
  "resource_contains f1 s1 e1 f2 s2 e2 =
     (if resource_type f1 \<noteq> resource_type f2 then False
      else if f1 AND IORESOURCE_UNSET \<noteq> 0 \<or> f2 AND IORESOURCE_UNSET \<noteq> 0 then False
      else s1 \<le> s2 \<and> e1 \<ge> e2)"

section \<open>Requesting and releasing\<close>

text \<open>The loop over the siblings: \<open>Inl\<close> is the resource in conflict, \<open>Inr\<close> the new list.\<close>

fun request_list :: "resource \<Rightarrow> resource list \<Rightarrow> resource + resource list" where
  "request_list new [] = Inr [new]"
| "request_list new (tmp # cs) =
     (if r_start tmp > r_end new then Inr (new # tmp # cs)
      else if r_end tmp < r_start new then map_sum id ((#) tmp) (request_list new cs)
      else Inl tmp)"

definition request_in :: "resource \<Rightarrow> resource \<Rightarrow> resource + resource" where
  "request_in root new =
     (if r_end new < r_start new then Inl root
      else if r_start new < r_start root then Inl root
      else if r_end new > r_end root then Inl root
      else map_sum id (with_child root) (request_list new (r_child root)))"

definition request_resource :: "resource \<Rightarrow> resource \<Rightarrow> resource \<times> int" where
  "request_resource root new =
     (case request_in root new of Inl conflict \<Rightarrow> (root, - EBUSY) | Inr root \<Rightarrow> (root, 0))"

text \<open>The resource with an identifier is taken out; its children move up unless they go with it.\<close>

fun release_list :: "nat \<Rightarrow> bool \<Rightarrow> resource list \<Rightarrow> resource list option" where
  "release_list n release_child [] = None"
| "release_list n release_child (Resource i s e f d ch # cs) =
     (if i = n then Some (if release_child \<or> ch = [] then cs else ch @ cs)
      else case release_list n release_child ch of
          Some ch' \<Rightarrow> Some (Resource i s e f d ch' # cs)
        | None \<Rightarrow> map_option ((#) (Resource i s e f d ch)) (release_list n release_child cs))"

definition release_in :: "resource \<Rightarrow> nat \<Rightarrow> bool \<Rightarrow> resource \<times> int" where
  "release_in root n release_child =
     (case release_list n release_child (r_child root) of
        None \<Rightarrow> (root, - EINVAL) | Some cs \<Rightarrow> (with_child root cs, 0))"

definition release_resource :: "resource \<Rightarrow> nat \<Rightarrow> resource \<times> int" where
  "release_resource root n = release_in root n True"

definition remove_resource :: "resource \<Rightarrow> nat \<Rightarrow> resource \<times> int" where
  "remove_resource root n = release_in root n False"

text \<open>The descendants are cut off, each moved to address 0 with its size kept.\<close>

fun cut_off :: "resource list \<Rightarrow> resource list" where
  "cut_off [] = []"
| "cut_off (Resource i s e f d ch # cs) =
     Resource i 0 (resource_size (Resource i s e f d ch) - 1) f d [] # cut_off ch @ cut_off cs"

definition release_child_resources :: "resource \<Rightarrow> resource \<times> resource list" where
  "release_child_resources r = (with_child r [], cut_off (r_child r))"

section \<open>Walking the tree\<close>

text \<open>The order in which \<^verbatim>\<open>next_resource\<close> visits the resources below a node.\<close>

fun preorder :: "resource list \<Rightarrow> resource list" where
  "preorder [] = []"
| "preorder (Resource i s e f d ch # cs) = Resource i s e f d ch # preorder ch @ preorder cs"

fun next_iomem :: "u64 \<Rightarrow> u64 \<Rightarrow> u64 \<Rightarrow> u64 \<Rightarrow> resource list \<Rightarrow> resource option" where
  "next_iomem start en flags desc [] = None"
| "next_iomem start en flags desc (p # ps) =
     (if r_flags p AND flags \<noteq> flags then next_iomem start en flags desc ps
      else if desc \<noteq> 0 \<and> desc \<noteq> r_desc p then next_iomem start en flags desc ps
      else if r_start p > en then None
      else if r_end p \<ge> start \<and> r_start p < en then Some p
      else next_iomem start en flags desc ps)"

text \<open>The bounds, flags and descriptor found; \<open>Bug\<close> is the \<^verbatim>\<open>BUG_ON\<close> for an empty range.\<close>

definition find_next_iomem_res ::
  "resource \<Rightarrow> u64 \<Rightarrow> u64 \<Rightarrow> u64 \<Rightarrow> u64 \<Rightarrow> bool \<Rightarrow> (u64 \<times> u64 \<times> u64 \<times> u64) option outcome" where
  "find_next_iomem_res root start en flags desc first_level =
     (if start \<ge> en then Bug
      else case next_iomem start en flags desc (if first_level then r_child root else preorder (r_child root)) of
          None \<Rightarrow> Ret None
        | Some p \<Rightarrow> Ret (Some (if start < r_start p then r_start p else start,
            if en > r_end p then r_end p else en, r_flags p, r_desc p)))"

text \<open>
  The walks over the matching ranges. The callback gets the range found and an argument it may
  change, and a result other than 0 ends the walk. What was found stays in the search key: its flags
  are the flags looked for from then on. The loops have fuel.
\<close>

fun walk_iomem ::
  "nat \<Rightarrow> resource \<Rightarrow> u64 \<Rightarrow> bool \<Rightarrow> (u64 \<times> u64 \<times> u64 \<times> u64 \<Rightarrow> 'a \<Rightarrow> int \<times> 'a) \<Rightarrow> u64 \<Rightarrow> u64 \<Rightarrow> u64 \<Rightarrow> u64 \<Rightarrow> int \<Rightarrow> 'a \<Rightarrow>
    (int \<times> 'a) outcome" where
  "walk_iomem 0 root desc first_level func orig_end start en flags ret arg = NoFuel"
| "walk_iomem (Suc fuel) root desc first_level func orig_end start en flags ret arg =
     (if start < en then
        obind (find_next_iomem_res root start en flags desc first_level)
          (\<lambda>r. case r of
             None \<Rightarrow> Ret (ret, arg)
           | Some res \<Rightarrow>
               let (ret', arg') = func res arg; (_, e, f, _) = res in
               if ret' \<noteq> 0 then Ret (ret', arg')
               else walk_iomem fuel root desc first_level func orig_end (e + 1) orig_end f ret' arg')
      else Ret (ret, arg))"

definition walk_fuel :: "resource \<Rightarrow> nat" where
  "walk_fuel root = length (preorder (r_child root)) + 2"

definition walk_iomem_res_desc where
  "walk_iomem_res_desc root desc flags start en arg func =
     walk_iomem (walk_fuel root) root desc False func en start en flags (- 1) arg"

definition walk_system_ram_res where
  "walk_system_ram_res root start en arg func =
     walk_iomem (walk_fuel root) root 0 True func en start en (IORESOURCE_SYSTEM_RAM OR IORESOURCE_BUSY) (- 1) arg"

definition walk_mem_res where
  "walk_mem_res root start en arg func =
     walk_iomem (walk_fuel root) root 0 True func en start en (IORESOURCE_MEM OR IORESOURCE_BUSY) (- 1) arg"

fun walk_ram ::
  "nat \<Rightarrow> resource \<Rightarrow> (u64 \<Rightarrow> u64 \<Rightarrow> 'a \<Rightarrow> int \<times> 'a) \<Rightarrow> u64 \<Rightarrow> u64 \<Rightarrow> u64 \<Rightarrow> u64 \<Rightarrow> int \<Rightarrow> 'a \<Rightarrow> (int \<times> 'a) outcome" where
  "walk_ram 0 root func orig_end start en flags ret arg = NoFuel"
| "walk_ram (Suc fuel) root func orig_end start en flags ret arg =
     (if start < en then
        obind (find_next_iomem_res root start en flags 0 True)
          (\<lambda>r. case r of
             None \<Rightarrow> Ret (ret, arg)
           | Some (s, e, f, _) \<Rightarrow>
               let pfn = drop_bit PAGE_SHIFT (s + PAGE_SIZE - 1); end_pfn = drop_bit PAGE_SHIFT (e + 1);
                   (ret', arg') = (if end_pfn > pfn then func pfn (end_pfn - pfn) arg else (ret, arg)) in
               if ret' \<noteq> 0 then Ret (ret', arg')
               else walk_ram fuel root func orig_end (e + 1) orig_end f ret' arg')
      else Ret (ret, arg))"

definition walk_system_ram_range where
  "walk_system_ram_range root start_pfn nr_pages arg func =
     (let start = push_bit PAGE_SHIFT start_pfn; en = push_bit PAGE_SHIFT (start_pfn + nr_pages) - 1 in
      walk_ram (walk_fuel root) root func en start en (IORESOURCE_SYSTEM_RAM OR IORESOURCE_BUSY) (- 1) arg)"

definition page_is_ram :: "resource \<Rightarrow> u64 \<Rightarrow> bool outcome" where
  "page_is_ram root pfn =
     obind (walk_system_ram_range root pfn 1 () (\<lambda>_ _ arg. (1, arg))) (\<lambda>(ret, _). Ret (ret = 1))"

fun count_region :: "u64 \<Rightarrow> u64 \<Rightarrow> u64 \<Rightarrow> u64 \<Rightarrow> resource list \<Rightarrow> nat \<times> nat" where
  "count_region start en flags desc [] = (0, 0)"
| "count_region start en flags desc (p # ps) =
     (let is_type = (r_flags p AND flags = flags \<and> (desc = 0 \<or> desc = r_desc p));
          n = (if start \<ge> r_start p \<and> start \<le> r_end p then 1 else 0) +
              (if en \<ge> r_start p \<and> en \<le> r_end p then 1 else 0) +
              (if r_start p \<ge> start \<and> r_end p \<le> en then 1 else 0);
          (type, other) = count_region start en flags desc ps
      in if is_type then (type + n, other) else (type, other + n))"

datatype region_kind = REGION_INTERSECTS | REGION_DISJOINT | REGION_MIXED

definition region_intersects :: "resource \<Rightarrow> u64 \<Rightarrow> u64 \<Rightarrow> u64 \<Rightarrow> u64 \<Rightarrow> region_kind" where
  "region_intersects root start sz flags desc =
     (let (type, other) = count_region start (start + sz - 1) flags desc (r_child root) in
      if other = 0 then if type \<noteq> 0 then REGION_INTERSECTS else REGION_DISJOINT
      else if type \<noteq> 0 then REGION_MIXED else REGION_DISJOINT)"

definition lookup_resource :: "resource \<Rightarrow> u64 \<Rightarrow> resource option" where
  "lookup_resource root start = find (\<lambda>res. r_start res = start) (r_child root)"

definition resource_alignment :: "resource \<Rightarrow> u64" where
  "resource_alignment res =
     (let k = r_flags res AND (IORESOURCE_SIZEALIGN OR IORESOURCE_STARTALIGN) in
      if k = IORESOURCE_SIZEALIGN then resource_size res
      else if k = IORESOURCE_STARTALIGN then r_start res else 0)"

fun sanity_scan :: "u64 \<Rightarrow> u64 \<Rightarrow> resource list \<Rightarrow> int" where
  "sanity_scan addr sz [] = 0"
| "sanity_scan addr sz (p # ps) =
     (if r_start p \<ge> addr + sz then sanity_scan addr sz ps
      else if r_end p < addr then sanity_scan addr sz ps
      else if PFN_DOWN (r_start p) \<le> PFN_DOWN addr \<and> PFN_DOWN (r_end p) \<ge> PFN_DOWN (addr + sz - 1) then sanity_scan addr sz ps
      else if r_flags p AND IORESOURCE_BUSY \<noteq> 0 then sanity_scan addr sz ps
      else - 1)"

definition iomem_map_sanity_check :: "resource \<Rightarrow> u64 \<Rightarrow> u64 \<Rightarrow> int" where
  "iomem_map_sanity_check root addr sz = sanity_scan addr sz (preorder (r_child root))"

text \<open>\<^verbatim>\<open>strict\<close> is \<^verbatim>\<open>strict_iomem_checks\<close> and \<^verbatim>\<open>io_strict\<close> the option \<^verbatim>\<open>CONFIG_IO_STRICT_DEVMEM\<close>.\<close>

fun exclusive_scan :: "bool \<Rightarrow> u64 \<Rightarrow> resource list \<Rightarrow> int" where
  "exclusive_scan io_strict addr [] = 0"
| "exclusive_scan io_strict addr (p # ps) =
     (if r_start p \<ge> addr + PAGE_SIZE then 0
      else if r_end p < addr then exclusive_scan io_strict addr ps
      else if r_flags p AND IORESOURCE_BUSY = 0 then exclusive_scan io_strict addr ps
      else if io_strict \<or> r_flags p AND IORESOURCE_EXCLUSIVE \<noteq> 0 then 1
      else exclusive_scan io_strict addr ps)"

definition iomem_is_exclusive :: "bool \<Rightarrow> bool \<Rightarrow> resource \<Rightarrow> u64 \<Rightarrow> int" where
  "iomem_is_exclusive strict io_strict root addr =
     (if \<not> strict then 0 else exclusive_scan io_strict (addr AND NOT (PAGE_SIZE - 1)) (preorder (r_child root)))"

section \<open>Finding room\<close>

definition resource_clip :: "u64 \<Rightarrow> u64 \<Rightarrow> u64 \<times> u64 \<Rightarrow> u64 \<times> u64" where
  "resource_clip mn mx r = (if fst r < mn then mn else fst r, if snd r > mx then mx else snd r)"

text \<open>The x86 reservations: the BIOS area and the entries of the E820 table (address and size).\<close>

definition arch_clip :: "u64 \<Rightarrow> u64 \<Rightarrow> u64 \<times> u64 \<Rightarrow> u64 \<times> u64" where
  "arch_clip start en r =
     (if snd r < start \<or> fst r > en then r
      else let low = (if fst r < start then start - fst r else 0); high = (if snd r > en then snd r - en else 0) in
           if low > high then (fst r, start - 1) else (en + 1, snd r))"

definition arch_remove_reservations :: "(u64 \<times> u64) list \<Rightarrow> u64 \<Rightarrow> u64 \<times> u64 \<Rightarrow> u64 \<times> u64" where
  "arch_remove_reservations e820 flags r =
     (if flags AND IORESOURCE_MEM \<noteq> 0 then
        fold (\<lambda>(addr, sz). arch_clip addr (addr + sz - 1)) e820 (arch_clip 0xffe00000 0xffffffff r)
      else r)"

text \<open>The constraints; the alignment function gets the bounds of the free slot.\<close>

record resource_constraint =
  rc_min :: u64
  rc_max :: u64
  rc_align :: u64
  rc_alignf :: "u64 \<times> u64 \<Rightarrow> u64 \<Rightarrow> u64 \<Rightarrow> u64"

definition simple_align_resource :: "u64 \<times> u64 \<Rightarrow> u64 \<Rightarrow> u64 \<Rightarrow> u64" where
  "simple_align_resource avail sz align = fst avail"

definition ALIGN :: "u64 \<Rightarrow> u64 \<Rightarrow> u64" where
  "ALIGN x a = (x + (a - 1)) AND NOT (a - 1)"

text \<open>The slot between two siblings: clipped, aligned and tested for size.\<close>

definition try_slot :: "resource_constraint \<Rightarrow> u64 \<Rightarrow> u64 \<Rightarrow> u64 \<times> u64 \<Rightarrow> (u64 \<times> u64) option" where
  "try_slot con flags sz tmp =
     (let avail_start = ALIGN (fst tmp) (rc_align con); avail_end = snd tmp;
          avail_flags = flags AND NOT IORESOURCE_UNSET in
      if avail_start \<ge> fst tmp then
        let start = rc_alignf con (avail_start, avail_end) sz (rc_align con); en = start + sz - 1 in
        if resource_contains avail_flags avail_start avail_end avail_flags start en then Some (start, en) else None
      else None)"

text \<open>The loop of \<^verbatim>\<open>__find_resource\<close>; \<open>tstart\<close> is \<^verbatim>\<open>tmp.start\<close> and \<open>old\<close> the resource that may be moved.\<close>

fun find_slot :: "(u64 \<times> u64) list \<Rightarrow> resource_constraint \<Rightarrow> u64 \<Rightarrow> u64 \<Rightarrow> u64 \<Rightarrow> nat option \<Rightarrow> u64 \<Rightarrow> resource list \<Rightarrow>
  (u64 \<times> u64) option" where
  "find_slot e820 con flags sz root_end old tstart cs =
     (let tend = (case cs of [] \<Rightarrow> root_end | this # _ \<Rightarrow> if old = Some (r_id this) then r_end this else r_start this - 1);
          skip = (tend < tstart);
          tmp = (if skip then (tstart, tend)
                 else arch_remove_reservations e820 flags (resource_clip (rc_min con) (rc_max con) (tstart, tend)))
      in case (if skip then None else try_slot con flags sz tmp) of
          Some r \<Rightarrow> Some r
        | None \<Rightarrow>
            (case cs of
               [] \<Rightarrow> None
             | this # rest \<Rightarrow>
                 if r_end this = root_end then None
                 else find_slot e820 con flags sz root_end old
                        (if old \<noteq> Some (r_id this) then r_end this + 1 else fst tmp) rest))"

declare find_slot.simps [simp del]

definition find_resource_old ::
  "(u64 \<times> u64) list \<Rightarrow> resource \<Rightarrow> nat option \<Rightarrow> resource \<Rightarrow> u64 \<Rightarrow> resource_constraint \<Rightarrow> (u64 \<times> u64) option" where
  "find_resource_old e820 root old new sz con =
     (case r_child root of
        this # rest \<Rightarrow>
          if r_start this = r_start root then
            find_slot e820 con (r_flags new) sz (r_end root) old
              (if old = Some (r_id this) then r_start this else r_end this + 1) rest
          else find_slot e820 con (r_flags new) sz (r_end root) old (r_start root) (this # rest)
      | [] \<Rightarrow> find_slot e820 con (r_flags new) sz (r_end root) old (r_start root) [])"

fun update_list :: "nat \<Rightarrow> (resource \<Rightarrow> resource) \<Rightarrow> resource list \<Rightarrow> resource list" where
  "update_list n g [] = []"
| "update_list n g (Resource i s e f d ch # cs) =
     (if i = n then g (Resource i s e f d ch) # cs
      else Resource i s e f d (update_list n g ch) # update_list n g cs)"

definition reallocate_resource ::
  "(u64 \<times> u64) list \<Rightarrow> resource \<Rightarrow> resource \<Rightarrow> u64 \<Rightarrow> resource_constraint \<Rightarrow> (resource \<times> int) outcome" where
  "reallocate_resource e820 root old newsize con =
     (case find_resource_old e820 root (Some (r_id old)) old newsize con of
        None \<Rightarrow> Ret (root, - EBUSY)
      | Some (start, en) \<Rightarrow>
          let moved = with_child root (update_list (r_id old) (\<lambda>r. with_range r start en) (r_child root)) in
          if resource_contains (r_flags old) start en (r_flags old) (r_start old) (r_end old) then Ret (moved, 0)
          else if r_child old \<noteq> [] then Ret (root, - EBUSY)
          else if resource_contains (r_flags old) (r_start old) (r_end old) (r_flags old) start en then Ret (moved, 0)
          else case request_in (fst (release_in root (r_id old) True)) (with_range old start en) of
              Inl conflict \<Rightarrow> Bug
            | Inr root \<Rightarrow> Ret (root, 0))"

definition allocate_resource ::
  "(u64 \<times> u64) list \<Rightarrow> resource \<Rightarrow> resource \<Rightarrow> bool \<Rightarrow> u64 \<Rightarrow> resource_constraint \<Rightarrow> (resource \<times> int) outcome" where
  "allocate_resource e820 root new has_parent sz con =
     (if has_parent then reallocate_resource e820 root new sz con
      else case find_resource_old e820 root None new sz con of
          None \<Rightarrow> Ret (root, - EBUSY)
        | Some (start, en) \<Rightarrow>
            (case request_in root (with_range new start en) of
               Inl conflict \<Rightarrow> Ret (root, - EBUSY)
             | Inr root \<Rightarrow> Ret (root, 0)))"

section \<open>Inserting and adjusting\<close>

text \<open>
  The resources between the first one in conflict and the end of the new one become its
  children, if they all lie inside it.
\<close>

definition adopt :: "resource \<Rightarrow> resource \<Rightarrow> resource + resource" where
  "adopt parent new =
     (let before = takeWhile (\<lambda>c. r_end c < r_start new) (r_child parent);
          rest = dropWhile (\<lambda>c. r_end c < r_start new) (r_child parent);
          inside = takeWhile (\<lambda>c. r_start c \<le> r_end new) rest;
          after = dropWhile (\<lambda>c. r_start c \<le> r_end new) rest
      in case find (\<lambda>c. r_start c < r_start new \<or> r_end c > r_end new) inside of
          Some c \<Rightarrow> Inl c
        | None \<Rightarrow> Inr (with_child parent (before @ with_child new inside # after)))"

lemma map_sum_simps [simp]:
  "map_sum id g x = Inl c \<longleftrightarrow> x = Inl c" "map_sum id g x = Inr y \<longleftrightarrow> (\<exists>z. x = Inr z \<and> y = g z)"
  by (cases x; auto)+

lemma request_list_conflict: "request_list new cs = Inl c \<Longrightarrow> c \<in> set cs"
  by (induction new cs rule: request_list.induct) (auto split: if_splits)

lemma request_in_conflict: "request_in root new = Inl c \<Longrightarrow> c = root \<or> c \<in> set (r_child root)"
  by (auto simp: request_in_def dest: request_list_conflict split: if_splits)

lemma size_child: "c \<in> set (r_child r) \<Longrightarrow> size c < size r"
  by (cases r) (auto dest: size_list_estimation' [OF _ order_refl] simp: less_Suc_eq_le)

function insert_in :: "resource \<Rightarrow> resource \<Rightarrow> resource + resource" where
  "insert_in parent new =
     (case request_in parent new of
        Inr parent' \<Rightarrow> Inr parent'
      | Inl first \<Rightarrow>
          if first = parent then Inl first
          else if r_id first = r_id new then Inl first
          else if r_start first > r_start new \<or> r_end first < r_end new then adopt parent new
          else if r_start first = r_start new \<and> r_end first = r_end new then adopt parent new
          else
            map_sum id
              (\<lambda>c. with_child parent (takeWhile (\<lambda>c. r_end c < r_start new) (r_child parent) @
                c # tl (dropWhile (\<lambda>c. r_end c < r_start new) (r_child parent))))
              (insert_in first new))"
  by auto
termination
  by (relation "measure (\<lambda>(parent, _). size parent)") (auto dest: request_in_conflict size_child)

declare insert_in.simps [simp del]

definition insert_resource :: "resource \<Rightarrow> resource \<Rightarrow> resource \<times> int" where
  "insert_resource parent new =
     (case insert_in parent new of Inl conflict \<Rightarrow> (parent, - EBUSY) | Inr parent \<Rightarrow> (parent, 0))"

text \<open>The new resource grows until it covers every conflict; the loop has fuel.\<close>

fun expand_to_fit :: "nat \<Rightarrow> resource \<Rightarrow> resource \<Rightarrow> resource outcome" where
  "expand_to_fit 0 root new = NoFuel"
| "expand_to_fit (Suc fuel) root new =
     (case insert_in root new of
        Inr root' \<Rightarrow> Ret root'
      | Inl conflict \<Rightarrow>
          if conflict = root then Ret root
          else expand_to_fit fuel root (with_range new
            (if r_start conflict < r_start new then r_start conflict else r_start new)
            (if r_end conflict > r_end new then r_end conflict else r_end new)))"

text \<open>
  Moving a resource: it has to stay inside its parent, between its neighbours and around its
  children. \<open>prev\<close> is the end of the sibling before it.
\<close>

fun adjust_list :: "u64 \<Rightarrow> u64 \<Rightarrow> u64 option \<Rightarrow> nat \<Rightarrow> u64 \<Rightarrow> u64 \<Rightarrow> resource list \<Rightarrow> (resource list \<times> int) option" where
  "adjust_list ps pe prev n start en [] = None"
| "adjust_list ps pe prev n start en (Resource i s e f d ch # cs) =
     (if i = n then
        if start < ps \<or> en > pe then Some (Resource i s e f d ch # cs, - EBUSY)
        else if (case cs of [] \<Rightarrow> False | sib # _ \<Rightarrow> r_start sib \<le> en) then Some (Resource i s e f d ch # cs, - EBUSY)
        else if (case prev of None \<Rightarrow> False | Some pend \<Rightarrow> start \<le> pend) then Some (Resource i s e f d ch # cs, - EBUSY)
        else if list_ex (\<lambda>c. r_start c < start \<or> r_end c > en) ch then Some (Resource i s e f d ch # cs, - EBUSY)
        else Some (Resource i start en f d ch # cs, 0)
      else case adjust_list s e None n start en ch of
          Some (ch', r) \<Rightarrow> Some (Resource i s e f d ch' # cs, r)
        | None \<Rightarrow> map_option (\<lambda>(cs', r). (Resource i s e f d ch # cs', r)) (adjust_list ps pe (Some e) n start en cs))"

definition adjust_resource :: "resource \<Rightarrow> nat \<Rightarrow> u64 \<Rightarrow> u64 \<Rightarrow> (resource \<times> int) option" where
  "adjust_resource root n start sz =
     (let en = start + sz - 1 in
      if r_id root = n then
        if list_ex (\<lambda>c. r_start c < start \<or> r_end c > en) (r_child root) then Some (root, - EBUSY)
        else Some (with_range root start en, 0)
      else map_option (\<lambda>(cs, r). (with_child root cs, r))
             (adjust_list (r_start root) (r_end root) None n start en (r_child root)))"

section \<open>Reserving around what is there\<close>

text \<open>
  The loop of \<^verbatim>\<open>__reserve_region_with_split\<close>. \<open>ids\<close> are the structures the allocator still
  has: with none left \<^verbatim>\<open>alloc_resource\<close> fails. The loop has fuel.
\<close>

definition busy_resource :: "nat \<Rightarrow> u64 \<Rightarrow> u64 \<Rightarrow> resource" where
  "busy_resource i start en = Resource i start en IORESOURCE_BUSY 0 []"

fun reserve_split :: "nat \<Rightarrow> nat list \<Rightarrow> resource \<Rightarrow> resource \<Rightarrow> resource option \<Rightarrow> resource outcome" where
  "reserve_split 0 ids parent res next_res = NoFuel"
| "reserve_split (Suc fuel) ids parent res next_res =
     (case request_in parent res of
        Inr parent' \<Rightarrow> (case next_res of None \<Rightarrow> Ret parent' | Some res' \<Rightarrow> reserve_split fuel ids parent' res' None)
      | Inl conflict \<Rightarrow>
          if r_start conflict \<le> r_start res \<and> r_end conflict \<ge> r_end res then Ret parent
          else if r_start conflict > r_start res then
            let res' = with_range res (r_start res) (r_start conflict - 1) in
            if r_end conflict < r_end res then
              (case ids of
                 [] \<Rightarrow> Ret parent
               | i # ids' \<Rightarrow> reserve_split fuel ids' parent res' (Some (busy_resource i (r_end conflict + 1) (r_end res))))
            else reserve_split fuel ids parent res' next_res
          else reserve_split fuel ids parent (with_range res (r_end conflict + 1) (r_end res)) next_res)"

definition reserve_fuel :: "resource \<Rightarrow> nat" where
  "reserve_fuel root = 2 * length (r_child root) + 1"

definition reserve_region_with_split :: "nat list \<Rightarrow> resource \<Rightarrow> u64 \<Rightarrow> u64 \<Rightarrow> resource outcome" where
  "reserve_region_with_split ids root start en =
     (let outside = (r_start root > start \<or> r_end root < en);
          start' = (if outside \<and> start < r_start root then r_start root else start);
          en' = (if outside \<and> en > r_end root then r_end root else en)
      in if outside \<and> (start > r_end root \<or> en < r_start root) then Ret root
         else case ids of [] \<Rightarrow> Ret root
           | i # ids' \<Rightarrow> reserve_split (reserve_fuel root) ids' root (busy_resource i start' en') None)"

section \<open>Busy regions\<close>

datatype region_result = Granted resource | Refused | MustWait

text \<open>A conflict with a resource that is not busy is a request inside that resource.\<close>

function request_region_in :: "resource \<Rightarrow> nat \<Rightarrow> u64 \<Rightarrow> u64 \<Rightarrow> u64 \<Rightarrow> region_result" where
  "request_region_in parent i start en flags =
     (let new = Resource i start en
            ((r_flags parent AND IORESOURCE_TYPE_BITS OR r_flags parent AND IORESOURCE_EXT_TYPE_BITS) OR IORESOURCE_BUSY OR flags)
            (r_desc parent) [] in
      case request_in parent new of
        Inr parent' \<Rightarrow> Granted parent'
      | Inl conflict \<Rightarrow>
          if conflict \<noteq> parent \<and> r_flags conflict AND IORESOURCE_BUSY = 0 then
            (case request_region_in conflict i start en flags of
               Granted c \<Rightarrow> Granted (with_child parent (takeWhile (\<lambda>c. r_end c < start) (r_child parent) @
                 c # tl (dropWhile (\<lambda>c. r_end c < start) (r_child parent))))
             | r \<Rightarrow> r)
          else if r_flags conflict AND flags AND 0x400000 \<noteq> 0 then MustWait
          else Refused)"
  by auto
termination
  by (relation "measure (\<lambda>(parent, _). size parent)") (auto dest: request_in_conflict size_child)

declare request_region_in.simps [simp del]

definition request_region :: "resource \<Rightarrow> nat \<Rightarrow> u64 \<Rightarrow> u64 \<Rightarrow> u64 \<Rightarrow> region_result" where
  "request_region parent i start n flags = request_region_in parent i start (start + n - 1) flags"

fun release_region_list :: "u64 \<Rightarrow> u64 \<Rightarrow> resource list \<Rightarrow> resource list option" where
  "release_region_list start en [] = None"
| "release_region_list start en (Resource i s e f d ch # cs) =
     (if s \<le> start \<and> e \<ge> en then
        if f AND IORESOURCE_BUSY = 0 then
          map_option (\<lambda>ch'. Resource i s e f d ch' # cs) (release_region_list start en ch)
        else if s \<noteq> start \<or> e \<noteq> en then None
        else Some cs
      else map_option ((#) (Resource i s e f d ch)) (release_region_list start en cs))"

definition release_region :: "resource \<Rightarrow> u64 \<Rightarrow> u64 \<Rightarrow> resource option" where
  "release_region parent start n =
     map_option (with_child parent) (release_region_list start (start + n - 1) (r_child parent))"

end
