(* ===== verification/Kernel_Resource_Tree.thy ===== *)
theory Kernel_Resource_Tree
  imports Kernel_Resource
begin

text \<open>
  The type invariant of the resource tree of \<open>Kernel_Resource\<close>: sorted, disjoint siblings inside
  their parent. Each operation keeps it, by induction over the recursion of the operation. The last
  section shows that the loop that reserves around conflicts ends and covers its range.
\<close>

unbundle bit_operations_syntax

section \<open>Well-formed trees\<close>

text \<open>
  Siblings lie inside their parent, in ascending order and without overlap, each of them with a
  start that is not above its end.
\<close>

fun wf_kids :: "u64 \<Rightarrow> u64 \<Rightarrow> resource list \<Rightarrow> bool" where
  "wf_kids lo hi [] = True"
| "wf_kids lo hi (Resource i s e f d ch # cs) =
     (lo \<le> s \<and> s \<le> e \<and> e \<le> hi \<and> wf_kids s e ch \<and> list_all (\<lambda>c. e < r_start c) cs \<and> wf_kids lo hi cs)"

definition wf_res :: "resource \<Rightarrow> bool" where
  "wf_res r \<longleftrightarrow> r_start r \<le> r_end r \<and> wf_kids (r_start r) (r_end r) (r_child r)"

lemma with_simps [simp]:
  "r_id (with_child r cs) = r_id r" "r_start (with_child r cs) = r_start r" "r_end (with_child r cs) = r_end r"
  "r_flags (with_child r cs) = r_flags r" "r_child (with_child r cs) = cs"
  "r_id (with_range r a b) = r_id r" "r_start (with_range r a b) = a" "r_end (with_range r a b) = b"
  "r_flags (with_range r a b) = r_flags r" "r_child (with_range r a b) = r_child r"
  by (cases r; simp)+

lemma wf_kids_Cons:
  "wf_kids lo hi (c # cs) \<longleftrightarrow> lo \<le> r_start c \<and> r_end c \<le> hi \<and> wf_res c \<and> (\<forall>x \<in> set cs. r_end c < r_start x) \<and> wf_kids lo hi cs"
  by (cases c) (auto simp: wf_res_def list_all_iff)

declare wf_kids.simps(2) [simp del] wf_kids_Cons [simp]

lemma wf_kids_append:
  "wf_kids lo hi (xs @ ys) \<longleftrightarrow> wf_kids lo hi xs \<and> wf_kids lo hi ys \<and> (\<forall>x \<in> set xs. \<forall>y \<in> set ys. r_end x < r_start y)"
  by (induction xs) auto

lemma wf_kids_mem: "wf_kids lo hi cs \<Longrightarrow> c \<in> set cs \<Longrightarrow> lo \<le> r_start c \<and> r_end c \<le> hi \<and> wf_res c"
  by (induction cs) auto

lemma wf_kids_bounds:
  "wf_kids lo hi cs \<Longrightarrow> (\<And>c. c \<in> set cs \<Longrightarrow> lo' \<le> r_start c \<and> r_end c \<le> hi') \<Longrightarrow> wf_kids lo' hi' cs"
  by (induction cs) auto

lemma wf_res_order: "wf_res c \<Longrightarrow> r_start c \<le> r_end c"
  by (simp add: wf_res_def)

lemma wf_with_child: "wf_res r \<Longrightarrow> wf_kids (r_start r) (r_end r) cs \<Longrightarrow> wf_res (with_child r cs)"
  by (simp add: wf_res_def)

lemma request_list_set: "request_list new cs = Inr cs' \<Longrightarrow> set cs' = insert new (set cs)"
  by (induction new cs arbitrary: cs' rule: request_list.induct) (auto split: if_splits)

lemma request_list_wf:
  "wf_kids lo hi cs \<Longrightarrow> wf_res new \<Longrightarrow> lo \<le> r_start new \<Longrightarrow> r_end new \<le> hi \<Longrightarrow> request_list new cs = Inr cs' \<Longrightarrow>
    wf_kids lo hi cs'"
proof (induction new cs arbitrary: cs' rule: request_list.induct)
  case (2 new tmp cs)
  show ?case
  proof (cases "r_start tmp > r_end new")
    case True
    then have "r_end new < r_start c" if "c \<in> set (tmp # cs)" for c
      using that 2(2) wf_res_order [of tmp] by (auto intro: order.strict_trans1 order.strict_trans2 order.strict_trans)
    then show ?thesis using 2 True by auto
  next
    case False
    then obtain cs1 where "request_list new cs = Inr cs1" "cs' = tmp # cs1" "r_end tmp < r_start new"
      using 2(6) by (auto split: if_splits)
    then show ?thesis using 2 False request_list_set by auto
  qed
qed auto

lemma request_in_wf: "wf_res root \<Longrightarrow> wf_kids (r_start new) (r_end new) (r_child new) \<Longrightarrow> request_in root new = Inr root' \<Longrightarrow> wf_res root'"
  by (auto simp: request_in_def wf_res_def not_less split: if_splits intro: request_list_wf)

lemma wf_node:
  "wf_res (Resource i s e f d ch) \<longleftrightarrow> s \<le> e \<and> wf_kids s e ch"
  by (simp add: wf_res_def)

text \<open>Lists whose elements lie inside elements of another list.\<close>

definition inside :: "resource list \<Rightarrow> resource list \<Rightarrow> bool" where
  "inside xs ys \<longleftrightarrow> (\<forall>x \<in> set xs. \<exists>y \<in> set ys. r_start y \<le> r_start x \<and> r_end x \<le> r_end y)"

lemma inside_refl: "set xs \<subseteq> set ys \<Longrightarrow> inside xs ys"
  by (auto simp: inside_def)

lemma inside_Cons: "inside xs ys \<Longrightarrow> r_start y \<le> r_start x \<Longrightarrow> r_end x \<le> r_end y \<Longrightarrow> inside (x # xs) (y # ys)"
  by (auto simp: inside_def)

lemma wf_Cons_inside:
  "wf_kids lo hi (c # cs) \<Longrightarrow> wf_kids lo hi cs' \<Longrightarrow> inside cs' cs \<Longrightarrow> wf_kids lo hi (c # cs')"
  by (auto simp: inside_def) (metis order.strict_trans2)

lemma splice_wf:
  assumes "wf_kids lo hi (c # cs)"
  shows "wf_kids lo hi (r_child c @ cs)" "inside (r_child c @ cs) (c # cs)"
proof -
  have c: "wf_kids (r_start c) (r_end c) (r_child c)" "lo \<le> r_start c" "r_end c \<le> hi"
    using assms by (auto simp: wf_res_def)
  have mem: "r_start c \<le> r_start x" "r_end x \<le> r_end c" if "x \<in> set (r_child c)" for x
    using wf_kids_mem [OF c(1) that] by auto
  have "wf_kids lo hi (r_child c)" using c(1) by (rule wf_kids_bounds) (use mem c(2,3) order_trans in blast)
  moreover have "r_end x < r_start y" if "x \<in> set (r_child c)" "y \<in> set cs" for x y
    using mem(2) [OF that(1)] assms that(2) by (auto intro: order.strict_trans1)
  ultimately show "wf_kids lo hi (r_child c @ cs)" using assms by (simp add: wf_kids_append)
  show "inside (r_child c @ cs) (c # cs)" using mem by (auto simp: inside_def)
qed

lemma release_list_wf:
  "release_list n rc cs = Some cs' \<Longrightarrow> wf_kids lo hi cs \<Longrightarrow> wf_kids lo hi cs' \<and> inside cs' cs"
proof (induction n rc cs arbitrary: cs' lo hi rule: release_list.induct)
  case (2 n rc i s e f d ch cs)
  let ?c = "Resource i s e f d ch"
  show ?case
  proof (cases "i = n")
    case True
    then show ?thesis using 2(3,4) splice_wf [OF 2(4)] by (auto intro: inside_refl split: if_splits)
  next
    case ne: False
    show ?thesis
    proof (cases "release_list n rc ch")
      case (Some ch')
      then have "wf_kids s e ch'" using 2(1) [OF ne Some] 2(4) by (simp add: wf_node)
      then show ?thesis using 2(3,4) ne Some by (auto simp: wf_node inside_def)
    next
      case None
      then obtain cs1 where cs1: "release_list n rc cs = Some cs1" "cs' = ?c # cs1" using 2(3) ne by auto
      then have "wf_kids lo hi cs1 \<and> inside cs1 cs" using 2(2) [OF ne None cs1(1), of lo hi] 2(4) by simp
      then show ?thesis using cs1(2) wf_Cons_inside [OF 2(4)] by (auto intro: inside_Cons)
    qed
  qed
qed simp

lemma release_in_wf: "wf_res root \<Longrightarrow> wf_res (fst (release_in root n rc))"
  by (auto simp: release_in_def wf_res_def dest: release_list_wf split: option.split)

lemma dropWhile_head: "dropWhile P xs = y # ys \<Longrightarrow> \<not> P y"
  by (metis hd_dropWhile list.distinct(1) list.sel(1))

lemma adopt_wf:
  assumes "wf_res parent" "r_start new \<le> r_end new" "r_start parent \<le> r_start new" "r_end new \<le> r_end parent"
    and "adopt parent new = Inr parent'"
  shows "wf_res parent'"
proof -
  define before where "before = takeWhile (\<lambda>c. r_end c < r_start new) (r_child parent)"
  define rest where "rest = dropWhile (\<lambda>c. r_end c < r_start new) (r_child parent)"
  define ins where "ins = takeWhile (\<lambda>c. r_start c \<le> r_end new) rest"
  define after where "after = dropWhile (\<lambda>c. r_start c \<le> r_end new) rest"
  have all: "r_child parent = before @ ins @ after" by (simp add: before_def rest_def ins_def after_def)
  have none: "find (\<lambda>c. r_start c < r_start new \<or> r_end c > r_end new) ins = None"
    and parent': "parent' = with_child parent (before @ with_child new ins # after)"
    using assms(5) by (auto simp: adopt_def Let_def before_def rest_def ins_def after_def split: option.splits)
  have wf: "wf_kids (r_start parent) (r_end parent) (before @ ins @ after)" using assms(1) all by (simp add: wf_res_def)
  have "wf_kids (r_start new) (r_end new) ins"
    by (rule wf_kids_bounds [of "r_start parent" "r_end parent"]) (use none wf in \<open>auto simp: wf_kids_append find_None_iff not_less\<close>)
  then have new: "wf_res (with_child new ins)" using assms(2) by (simp add: wf_res_def)
  have low: "r_end c < r_start new" if "c \<in> set before" for c using that by (auto simp: before_def dest: set_takeWhileD)
  have high: "r_end new < r_start c" if "c \<in> set after" for c
  proof (cases after)
    case (Cons a as)
    then have a: "r_end new < r_start a" using dropWhile_head [of _ rest] by (fastforce simp: after_def not_le)
    have "wf_kids (r_start parent) (r_end parent) (a # as)" using wf Cons by (simp add: wf_kids_append)
    then have "r_start a \<le> r_end a" "c = a \<or> r_end a < r_start c" using that Cons by (auto simp: wf_res_def)
    then show ?thesis using a by auto
  qed (use that in simp)
  have "wf_kids (r_start parent) (r_end parent) (before @ with_child new ins # after)"
    using wf new low high assms(3,4) by (auto simp: wf_kids_append)
  then show ?thesis unfolding parent' using assms(1) by (rule wf_with_child [rotated])
qed

lemma request_list_first:
  "request_list new cs = Inl c \<Longrightarrow> \<exists>rest. dropWhile (\<lambda>c. r_end c < r_start new) cs = c # rest"
  by (induction new cs rule: request_list.induct) (auto split: if_splits)

lemma request_in_first:
  assumes "request_in root new = Inl c" "c \<noteq> root"
  shows "r_start new \<le> r_end new" "r_start root \<le> r_start new" "r_end new \<le> r_end root"
    "\<exists>rest. dropWhile (\<lambda>c. r_end c < r_start new) (r_child root) = c # rest" "c \<in> set (r_child root)"
  using assms request_in_conflict [OF assms(1)]
  by (auto simp: request_in_def dest: request_list_first split: if_splits)

lemma replace_wf:
  assumes "wf_res r" "dropWhile P (r_child r) = c # rest" "wf_res c'" "r_start c' = r_start c" "r_end c' = r_end c"
  shows "wf_res (with_child r (takeWhile P (r_child r) @ c' # tl (dropWhile P (r_child r))))"
proof -
  have "wf_kids (r_start r) (r_end r) (takeWhile P (r_child r) @ c # rest)"
    using assms(1,2) takeWhile_dropWhile_id [of P "r_child r"] by (simp add: wf_res_def)
  then have "wf_kids (r_start r) (r_end r) (takeWhile P (r_child r) @ c' # rest)"
    using assms(3-5) by (simp add: wf_kids_append)
  then show ?thesis using assms(1,2) by (simp add: wf_with_child)
qed

definition same_range :: "resource \<Rightarrow> resource \<Rightarrow> bool" where
  "same_range r r' \<longleftrightarrow> r_start r' = r_start r \<and> r_end r' = r_end r"

lemma request_in_range: "request_in root new = Inr root' \<Longrightarrow> same_range root root'"
  by (auto simp: request_in_def same_range_def split: if_splits)

lemma adopt_range: "adopt parent new = Inr parent' \<Longrightarrow> same_range parent parent'"
  by (auto simp: adopt_def same_range_def Let_def split: option.splits)

lemma insert_in_wf:
  "insert_in parent new = Inr parent' \<Longrightarrow> wf_res parent \<Longrightarrow> wf_res new \<Longrightarrow> wf_res parent' \<and> same_range parent parent'"
proof (induction parent new arbitrary: parent' rule: insert_in.induct)
  case (1 parent new)
  note eq = 1(2) [unfolded insert_in.simps [of parent new]]
  show ?case
  proof (cases "request_in parent new")
    case (Inr p)
    then show ?thesis using eq request_in_wf [of parent new] 1(3,4) by (auto simp: wf_res_def [of new] dest: request_in_range)
  next
    case (Inl first)
    then have ne: "first \<noteq> parent" "r_id first \<noteq> r_id new" using eq by (auto split: if_splits)
    note first = request_in_first [OF Inl ne(1)]
    have ad: "wf_res p \<and> same_range parent p" if "adopt parent new = Inr p" for p
      using adopt_wf [OF 1(3) first(1-3) that] adopt_range [OF that] by simp
    show ?thesis
    proof (cases "r_start first > r_start new \<or> r_end first < r_end new \<or> r_start first = r_start new \<and> r_end first = r_end new")
      case True
      then show ?thesis using eq Inl ne ad by (auto split: if_splits)
    next
      case False
      then obtain c where c: "insert_in first new = Inr c" "parent' = with_child parent
          (takeWhile (\<lambda>c. r_end c < r_start new) (r_child parent) @ c # tl (dropWhile (\<lambda>c. r_end c < r_start new) (r_child parent)))"
        using eq Inl ne by (auto split: if_splits)
      have "wf_res first" using 1(3) first(5) wf_kids_mem by (auto simp: wf_res_def [of parent])
      then have "wf_res c" "same_range first c" using 1(1) [OF Inl ne] False c(1) 1(4) by auto
      then show ?thesis using c(2) replace_wf [OF 1(3)] first(4) by (auto simp: same_range_def)
    qed
  qed
qed

definition above :: "u64 option \<Rightarrow> resource list \<Rightarrow> bool" where
  "above prev cs \<longleftrightarrow> (case prev of None \<Rightarrow> True | Some p \<Rightarrow> \<forall>c \<in> set cs. p < r_start c)"

lemma adjust_list_wf:
  "adjust_list ps pe prev n start en cs = Some (cs', r) \<Longrightarrow> wf_kids ps pe cs \<Longrightarrow> above prev cs \<Longrightarrow> start \<le> en \<Longrightarrow>
    wf_kids ps pe cs' \<and> above prev cs'"
proof (induction ps pe prev n start en cs arbitrary: cs' r rule: adjust_list.induct)
  case (2 ps pe prev n start en i s e f d ch cs)
  show ?case
  proof (cases "i = n")
    case True
    show ?thesis
    proof (cases "cs' = Resource i start en f d ch # cs \<and> ps \<le> start \<and> en \<le> pe \<and> (case cs of [] \<Rightarrow> True | sib # _ \<Rightarrow> en < r_start sib)
        \<and> (case prev of None \<Rightarrow> True | Some p \<Rightarrow> p < start) \<and> \<not> list_ex (\<lambda>c. r_start c < start \<or> r_end c > en) ch")
      case moved: True
      have "wf_kids start en ch"
        by (rule wf_kids_bounds [of s e]) (use moved 2(4) in \<open>auto simp: wf_node list_ex_iff not_less\<close>)
      moreover have "\<forall>c \<in> set cs. en < r_start c"
        using moved 2(4) by (cases cs) (auto simp: wf_res_def intro: order.strict_trans order.strict_trans1)
      ultimately show ?thesis using moved 2(4-6) by (auto simp: wf_node above_def split: option.splits)
    next
      case False
      then have "cs' = Resource i s e f d ch # cs"
        using 2(3) True by (auto simp: not_less not_le split: if_splits list.splits option.splits)
      then show ?thesis using 2(4,5) by simp
    qed
  next
    case ne: False
    show ?thesis
    proof (cases "adjust_list s e None n start en ch")
      case (Some x)
      then obtain ch' q where ch': "x = (ch', q)" by (cases x)
      then have "wf_kids s e ch'" using 2(1) [OF ne] Some 2(4,6) by (simp add: wf_node above_def)
      then show ?thesis using 2(3-5) ne Some ch' by (auto simp: wf_node above_def split: option.splits)
    next
      case None
      then obtain cs1 where cs1: "adjust_list ps pe (Some e) n start en cs = Some (cs1, r)" "cs' = Resource i s e f d ch # cs1"
        using 2(3) ne by auto
      then have "wf_kids ps pe cs1 \<and> above (Some e) cs1"
        using 2(2) [OF ne None cs1(1)] 2(4,6) by (simp add: above_def)
      then show ?thesis using cs1(2) 2(4,5) by (auto simp: above_def wf_node split: option.splits intro: order.strict_trans1 order.strict_trans)
    qed
  qed
qed simp

lemma release_region_list_wf:
  "release_region_list start en cs = Some cs' \<Longrightarrow> wf_kids lo hi cs \<Longrightarrow> wf_kids lo hi cs' \<and> inside cs' cs"
proof (induction start en cs arbitrary: cs' lo hi rule: release_region_list.induct)
  case (2 start en i s e f d ch cs)
  let ?c = "Resource i s e f d ch"
  consider (down) ch' where "release_region_list start en ch = Some ch'" "s \<le> start \<and> e \<ge> en" "f AND IORESOURCE_BUSY = 0"
      "cs' = Resource i s e f d ch' # cs"
    | (here) "cs' = cs"
    | (further) cs1 where "release_region_list start en cs = Some cs1" "\<not> (s \<le> start \<and> e \<ge> en)" "cs' = ?c # cs1"
    using 2(3) by (auto split: if_splits)
  then show ?case
  proof cases
    case down
    then have "wf_kids s e ch'" using 2(1) [OF down(2,3,1)] 2(4) by (simp add: wf_node)
    then show ?thesis using down(4) 2(4) by (auto simp: wf_node inside_def)
  next
    case here
    then show ?thesis using 2(4) by (auto intro: inside_refl)
  next
    case further
    then have "wf_kids lo hi cs1 \<and> inside cs1 cs" using 2(2) [OF further(2,1), of lo hi] 2(4) by simp
    then show ?thesis using further(3) wf_Cons_inside [OF 2(4)] by (auto intro: inside_Cons)
  qed
qed simp

lemma request_region_in_wf:
  "request_region_in parent i start en flags = Granted parent' \<Longrightarrow> wf_res parent \<Longrightarrow> wf_res parent' \<and> same_range parent parent'"
proof (induction parent i start en flags arbitrary: parent' rule: request_region_in.induct)
  case (1 parent i start en flags)
  define new where "new = Resource i start en
    ((r_flags parent AND IORESOURCE_TYPE_BITS OR r_flags parent AND IORESOURCE_EXT_TYPE_BITS) OR IORESOURCE_BUSY OR flags)
    (r_desc parent) []"
  note eq = 1(2) [unfolded request_region_in.simps [of parent] Let_def, folded new_def]
  have new: "r_start new = start" "r_end new = en" by (simp_all add: new_def)
  show ?case
  proof (cases "request_in parent new")
    case (Inr p)
    then have "start \<le> en" using new by (auto simp: request_in_def not_less split: if_splits)
    then have "wf_res new" by (simp add: new_def wf_node)
    then show ?thesis using eq Inr request_in_wf [of parent new] 1(3) by (auto simp: wf_res_def [of new] dest: request_in_range)
  next
    case (Inl c)
    then have ne: "c \<noteq> parent" "r_flags c AND IORESOURCE_BUSY = 0" using eq by (auto split: if_splits)
    note first = request_in_first [OF Inl ne(1), unfolded new]
    obtain c' where c': "request_region_in c i start en flags = Granted c'" "parent' = with_child parent
        (takeWhile (\<lambda>c. r_end c < start) (r_child parent) @ c' # tl (dropWhile (\<lambda>c. r_end c < start) (r_child parent)))"
      using eq Inl ne by (auto split: region_result.splits)
    have "wf_res c" using 1(3) first(5) wf_kids_mem by (auto simp: wf_res_def [of parent])
    then have "wf_res c'" "same_range c c'" using 1(1) [OF new_def Inl] ne c'(1) by auto
    then show ?thesis using c'(2) replace_wf [OF 1(3)] first(4) by (auto simp: same_range_def)
  qed
qed

section \<open>Reserving covers the range\<close>

lemma request_in_set: "request_in root new = Inr root' \<Longrightarrow> set (r_child root') = insert new (set (r_child root))"
  by (auto simp: request_in_def dest: request_list_set split: if_splits)

text \<open>The children that reach an address or lie above it: the measure of the loop.\<close>

definition ahead :: "resource \<Rightarrow> u64 \<Rightarrow> nat" where
  "ahead root a = length (filter (\<lambda>c. a \<le> r_end c) (r_child root))"

lemma request_list_ahead:
  "request_list new cs = Inr cs' \<Longrightarrow> r_end new < a \<Longrightarrow> filter (\<lambda>c. a \<le> r_end c) cs' = filter (\<lambda>c. a \<le> r_end c) cs"
  by (induction new cs arbitrary: cs' rule: request_list.induct) (auto split: if_splits)

lemma request_in_ahead: "request_in root new = Inr root' \<Longrightarrow> r_end new < a \<Longrightarrow> ahead root' a = ahead root a"
  by (auto simp: request_in_def ahead_def dest: request_list_ahead split: if_splits)

lemma filter_length_less:
  assumes "x \<in> set xs" "P x" "\<not> Q x" "\<And>y. Q y \<Longrightarrow> P y"
  shows "length (filter Q xs) < length (filter P xs)"
proof -
  have "filter Q xs = filter Q (filter P xs)" using assms(4) by (auto intro: filter_cong)
  then show ?thesis using length_filter_less [of x "filter P xs" Q] assms(1-3) by simp
qed

lemma word_pred_bounds: "(a :: u64) < b \<Longrightarrow> a \<le> b - 1 \<and> b - 1 < b"
proof -
  assume "a < b"
  then have "b \<noteq> 0" by auto
  then have "unat (b - 1) = unat b - 1" by (rule unat_minus_one)
  then show "a \<le> b - 1 \<and> b - 1 < b" using \<open>a < b\<close> by (simp add: word_le_nat_alt word_less_nat_alt)
qed

lemma word_pred_max: "x \<noteq> 0 \<Longrightarrow> x - 1 < - 1" for x :: u64
proof -
  assume "x \<noteq> 0"
  then have "x - 1 \<noteq> - 1" by (metis add.commute diff_add_cancel right_minus)
  then show "x - 1 < - 1" using word_order.extremum [of "x - 1"] by (metis le_less)
qed

lemma word_succ_bounds: "(a :: u64) < b \<Longrightarrow> a < a + 1 \<and> a + 1 \<le> b"
proof -
  assume "a < b"
  moreover have "unat b < 2 ^ 64" using unsigned_less [of b] by simp
  ultimately have "unat (a + 1) = unat a + 1" by (simp add: unat_plus_if' word_less_nat_alt)
  then show "a < a + 1 \<and> a + 1 \<le> b" using \<open>a < b\<close> by (simp add: word_le_nat_alt word_less_nat_alt)
qed

lemma ahead_less:
  assumes "c \<in> set (r_child root)" "a \<le> r_end c" "r_end c < a'"
  shows "ahead root a' < ahead root a"
  unfolding ahead_def by (rule filter_length_less [OF assms(1)]) (use assms in auto)

lemma request_in_below:
  assumes "wf_res root" "dropWhile (\<lambda>c. r_end c < a) (r_child root) = c # rest" "r_start root \<le> a" "a < r_start c"
    "r_start new = a" "r_end new = r_start c - 1"
  shows "\<exists>root'. request_in root new = Inr root'"
proof -
  have below: "r_start c - 1 < r_start c" "a \<le> r_start c - 1"
    using word_pred_bounds [OF assms(4)] by auto
  have all: "r_child root = takeWhile (\<lambda>c. r_end c < a) (r_child root) @ c # rest"
    using assms(2) takeWhile_dropWhile_id by metis
  have c: "r_start c \<le> r_end c" "r_end c \<le> r_end root"
    using wf_kids_mem [of "r_start root" "r_end root" "r_child root" c] assms(1) all
    by (auto simp: wf_res_def) (metis in_set_conv_decomp)+
  have "\<exists>cs'. request_list new (xs @ c # rest) = Inr cs'" if "\<forall>x \<in> set xs. r_end x < a" for xs
    using that below by (induction xs) (auto simp: assms(5,6))
  then have "\<exists>cs'. request_list new (r_child root) = Inr cs'"
    using all by (metis set_takeWhileD)
  then show ?thesis using assms(3,5,6) below c by (auto simp: request_in_def)
qed

text \<open>What the loop leaves behind: the old children and some resource at every address of the range.\<close>

definition covers :: "resource \<Rightarrow> u64 \<Rightarrow> u64 \<Rightarrow> bool" where
  "covers root a b \<longleftrightarrow> (\<forall>x. a \<le> x \<and> x \<le> b \<longrightarrow> (\<exists>c \<in> set (r_child root). r_start c \<le> x \<and> x \<le> r_end c))"

definition reserved_in :: "resource \<Rightarrow> u64 \<Rightarrow> u64 \<Rightarrow> resource \<Rightarrow> bool" where
  "reserved_in root a b root' \<longleftrightarrow>
     wf_res root' \<and> same_range root root' \<and> set (r_child root) \<subseteq> set (r_child root') \<and> covers root' a b"

lemma reserved_in_less: "reserved_in root a b root' \<Longrightarrow> b' \<le> b \<Longrightarrow> reserved_in root a b' root'"
  by (auto simp: reserved_in_def covers_def)

lemma reserved_in_self: "wf_res root \<Longrightarrow> c \<in> set (r_child root) \<Longrightarrow> r_start c \<le> a \<Longrightarrow> reserved_in root a (r_end c) root"
  by (auto simp: reserved_in_def covers_def same_range_def intro!: bexI [of _ c] elim: order_trans)

lemma reserved_in_join:
  assumes "reserved_in root a (r_start c - 1) root'" "a < r_start c" "c \<in> set (r_child root)"
  shows "reserved_in root a (r_end c) root'"
proof -
  have "\<exists>c \<in> set (r_child root'). r_start c \<le> x \<and> x \<le> r_end c" if "a \<le> x" "x \<le> r_end c" for x
  proof (cases "x < r_start c")
    case True
    then show ?thesis using assms(1) that(1) word_pred_bounds [OF True] by (auto simp: reserved_in_def covers_def)
  qed (use assms(1,3) that in \<open>auto simp: reserved_in_def not_less\<close>)
  then show ?thesis using assms(1) by (simp add: reserved_in_def covers_def)
qed

lemma reserved_in_trans:
  assumes "reserved_in root a m root1" "reserved_in root1 (m + 1) b root'" "m < b"
  shows "reserved_in root a b root'"
proof -
  have "m + 1 \<le> x" if "\<not> x \<le> m" for x using that word_succ_bounds [of m x] by simp
  then show ?thesis using assms by (fastforce simp: reserved_in_def covers_def same_range_def)
qed

lemma request_in_reserved:
  assumes "wf_res root" "wf_res res" "request_in root res = Inr root'"
  shows "reserved_in root (r_start res) (r_end res) root'"
  using assms request_in_wf [of root res root'] request_in_set [OF assms(3)] request_in_range [OF assms(3)]
  by (auto simp: reserved_in_def covers_def wf_res_def [of res])

lemma request_list_overlap: "request_list new cs = Inl c \<Longrightarrow> r_start c \<le> r_end new \<and> r_start new \<le> r_end c"
  by (induction new cs rule: request_list.induct) (auto split: if_splits)

lemma request_in_overlap:
  assumes "request_in root new = Inl c" "r_start new \<le> r_end new" "r_start root \<le> r_start new" "r_end new \<le> r_end root"
  shows "c \<in> set (r_child root)" "c \<noteq> root" "r_start c \<le> r_end new" "r_start new \<le> r_end c"
proof -
  have "request_list new (r_child root) = Inl c" using assms by (auto simp: request_in_def not_less split: if_splits)
  then show "c \<in> set (r_child root)" "r_start c \<le> r_end new" "r_start new \<le> r_end c"
    by (auto dest: request_list_conflict request_list_overlap)
  then show "c \<noteq> root" using size_child by blast
qed

lemma busy_simps [simp]:
  "r_start (busy_resource i a b) = a" "r_end (busy_resource i a b) = b"
  "with_range (busy_resource i a b) a' b' = busy_resource i a' b'" "wf_res (busy_resource i a b) \<longleftrightarrow> a \<le> b"
  by (simp_all add: busy_resource_def wf_node)

text \<open>One turn of the loop when the conflict reaches below the range, and two when it does not.\<close>

lemma reserve_split_above:
  assumes "request_in root (busy_resource i a b) = Inl c" "r_start c \<le> a" "r_end c < b"
  shows "reserve_split (Suc f) ids root (busy_resource i a b) None = reserve_split f ids root (busy_resource i (r_end c + 1) b) None"
  using assms by (auto dest: leD)

lemma reserve_split_below:
  assumes "request_in root (busy_resource i a b) = Inl c" "a < r_start c"
    and "request_in root (busy_resource i a (r_start c - 1)) = Inr root1"
  shows "reserve_split (Suc (Suc f)) ids root (busy_resource i a b) None =
    (if r_end c < b then case ids of [] \<Rightarrow> Ret root | j # ids' \<Rightarrow> reserve_split f ids' root1 (busy_resource j (r_end c + 1) b) None
     else Ret root1)"
  using assms by (auto split: list.split)

lemma request_in_low:
  assumes "wf_res root" "request_in root (busy_resource i a b) = Inl c" "a \<le> b" "r_start root \<le> a" "b \<le> r_end root" "a < r_start c"
  shows "\<exists>root1. request_in root (busy_resource i a (r_start c - 1)) = Inr root1 \<and> reserved_in root a (r_end c) root1 \<and>
    (r_end c < b \<longrightarrow> ahead root1 (r_end c + 1) = ahead root (r_end c + 1))"
proof -
  note c = request_in_overlap [OF assms(2), simplified, OF assms(3-5)]
  let ?low = "busy_resource i a (r_start c - 1)"
  have low: "wf_res ?low" "r_start c - 1 < r_start c" using word_pred_bounds [OF assms(6)] by auto
  obtain rest where "dropWhile (\<lambda>c. r_end c < a) (r_child root) = c # rest" using request_in_first(4) [OF assms(2) c(2)] by auto
  then obtain root1 where root1: "request_in root ?low = Inr root1"
    using request_in_below [OF assms(1) _ assms(4,6), of rest ?low] by auto
  have "r_start c \<le> r_end c" using assms(1) c(1) wf_kids_mem wf_res_order by (auto simp: wf_res_def [of root])
  then have "ahead root1 (r_end c + 1) = ahead root (r_end c + 1)" if "r_end c < b"
    using request_in_ahead [OF root1, of "r_end c + 1"] low(2) word_succ_bounds [OF that] by auto
  then show ?thesis using root1 reserved_in_join [OF _ assms(6) c(1)] request_in_reserved [OF assms(1) low(1) root1] by auto
qed

lemma reserve_split_covers:
  assumes "wf_res root" "a \<le> b" "r_start root \<le> a" "b \<le> r_end root" "2 * ahead root a + 1 \<le> fuel" "ahead root a \<le> length ids"
  shows "\<exists>root'. reserve_split fuel ids root (busy_resource i a b) None = Ret root' \<and> reserved_in root a b root'"
  using assms
proof (induction "ahead root a" arbitrary: fuel ids root a i rule: less_induct)
  case less
  let ?res = "busy_resource i a b"
  obtain f where f: "fuel = Suc f" using less(6) by (cases fuel) auto
  show ?case
  proof (cases "request_in root ?res")
    case (Inr root')
    then show ?thesis using f request_in_reserved [OF less(2) _ Inr] less(3) by auto
  next
    case (Inl c)
    note c = request_in_overlap [OF Inl, simplified, OF less(3-5)]
    have IH: "\<exists>root'. reserve_split f' ids' root1 (busy_resource j (r_end c + 1) b) None = Ret root' \<and> reserved_in root a b root'"
      if asm: "r_end c < b" "reserved_in root a (r_end c) root1" "ahead root1 (r_end c + 1) = ahead root (r_end c + 1)"
        "2 * ahead root a \<le> Suc f'" "ahead root a \<le> Suc (length ids')" for root1 f' ids' j
    proof -
      have up: "r_end c < r_end c + 1" "r_end c + 1 \<le> b" using word_succ_bounds [OF asm(1)] by auto
      have less': "ahead root1 (r_end c + 1) < ahead root a" using ahead_less [OF c(1,4) up(1)] asm(3) by simp
      have "wf_res root1" "r_start root1 \<le> r_end c + 1" "b \<le> r_end root1"
        using asm(2) less(4,5) c(4) up(1) by (auto simp: reserved_in_def same_range_def)
      then show ?thesis using less(1) [OF less' _ up(2), of f' ids' j] less' asm(4,5) reserved_in_trans [OF asm(2) _ asm(1)] by auto
    qed
    have pos: "0 < ahead root a" using c(1,4) by (auto simp: ahead_def filter_empty_conv)
    consider "a < r_start c" | "r_start c \<le> a" "b \<le> r_end c" | "r_start c \<le> a" "r_end c < b" by fastforce
    then show ?thesis
    proof cases
      case 1
      obtain root1 where root1: "request_in root (busy_resource i a (r_start c - 1)) = Inr root1" "reserved_in root a (r_end c) root1"
          "r_end c < b \<longrightarrow> ahead root1 (r_end c + 1) = ahead root (r_end c + 1)"
        using request_in_low [OF less(2) Inl less(3-5) 1] by blast
      obtain f1 j ids' where ids: "fuel = Suc (Suc f1)" "ids = j # ids'" using less(6,7) pos by (cases f; cases ids) (auto simp: f)
      then show ?thesis
        using reserve_split_below [OF Inl 1 root1(1), of f1 ids] IH [OF _ root1(2), of f1 ids' j] root1(2,3) less(6,7)
        by (auto intro: reserved_in_less)
    next
      case 2
      then show ?thesis using f Inl reserved_in_less [OF reserved_in_self [OF less(2) c(1)]] by auto
    next
      case 3
      then show ?thesis using f reserve_split_above [OF Inl 3] IH [OF 3(2) reserved_in_self [OF less(2) c(1) 3(1)], of f ids i] less(6,7) by simp
    qed
  qed
qed

end
