(* ===== verification/Kernel_Resource_Props.thy ===== *)
theory Kernel_Resource_Props
  imports Kernel_Resource_Tree
begin

text \<open>
  The slot an allocation finds, the walks over the tree, and the properties of the resource tree:
  the invariant as one theorem over all sequences of operations, what an allocation returns, what a
  reservation covers, that the walks end, and the allocation that goes wrong.
\<close>

unbundle bit_operations_syntax

section \<open>The slot that is found\<close>

lemma clip_bounds: "rc_min con \<le> fst (resource_clip (rc_min con) mx r)" "snd (resource_clip mn (rc_max con) r) \<le> rc_max con"
  by (auto simp: resource_clip_def)

lemma arch_clip_shrinks:
  assumes "start \<le> en" "en < - 1"
  shows "fst r \<le> fst (arch_clip start en r)" "snd (arch_clip start en r) \<le> snd r"
proof -
  have up: "en \<le> en + 1" using word_succ_bounds [OF assms(2)] by simp
  have "start - 1 \<le> start" if "fst r < start" using word_pred_bounds [OF that] by auto
  then show "fst r \<le> fst (arch_clip start en r)" "snd (arch_clip start en r) \<le> snd r"
    using up by (auto simp: arch_clip_def Let_def not_less split: if_splits intro: order_trans)
qed

definition e820_ok :: "(u64 \<times> u64) list \<Rightarrow> bool" where
  "e820_ok e820 \<longleftrightarrow> list_all (\<lambda>(addr, sz). addr \<le> addr + sz - 1 \<and> addr + sz - 1 < - 1) e820"

definition shrinks :: "u64 \<times> u64 \<Rightarrow> u64 \<times> u64 \<Rightarrow> bool" where
  "shrinks r r' \<longleftrightarrow> fst r \<le> fst r' \<and> snd r' \<le> snd r"

lemma shrinks_trans: "shrinks r r' \<Longrightarrow> shrinks r' r'' \<Longrightarrow> shrinks r r''"
  by (auto simp: shrinks_def)

lemma arch_clip_fold: "e820_ok e820 \<Longrightarrow> shrinks r (fold (\<lambda>(addr, sz). arch_clip addr (addr + sz - 1)) e820 r)"
proof (induction e820 arbitrary: r)
  case (Cons x xs)
  obtain addr sz where x: "x = (addr, sz)" by (cases x)
  then have "addr \<le> addr + sz - 1" "addr + sz - 1 < - 1" "e820_ok xs" using Cons(2) by (auto simp: e820_ok_def)
  then have "shrinks r (arch_clip addr (addr + sz - 1) r)" "e820_ok xs" by (auto simp: shrinks_def arch_clip_shrinks)
  then show ?case using shrinks_trans Cons(1) x by simp
qed (simp add: shrinks_def)

lemma arch_remove_shrinks:
  assumes "e820_ok e820"
  shows "shrinks r (arch_remove_reservations e820 flags r)"
proof -
  have "shrinks r (arch_clip 0xffe00000 0xffffffff r)" by (auto simp: shrinks_def arch_clip_shrinks)
  then show ?thesis using shrinks_trans [OF _ arch_clip_fold [OF assms]]
    by (simp add: arch_remove_reservations_def) (simp add: shrinks_def)
qed

text \<open>An interval that meets no entry of the table.\<close>

definition e820_free :: "(u64 \<times> u64) list \<Rightarrow> u64 \<times> u64 \<Rightarrow> bool" where
  "e820_free e820 r \<longleftrightarrow> list_all (\<lambda>(addr, sz). snd r < addr \<or> addr + sz - 1 < fst r) e820"

lemma e820_free_shrinks: "e820_free e820 r \<Longrightarrow> shrinks r r' \<Longrightarrow> e820_free e820 r'"
  by (auto simp: e820_free_def shrinks_def list_all_iff intro: order.strict_trans1 order.strict_trans2)

lemma arch_clip_free:
  assumes "start \<le> en" "en < - 1"
  shows "snd (arch_clip start en r) < start \<or> en < fst (arch_clip start en r)"
proof -
  have "en < en + 1" using word_succ_bounds [OF assms(2)] by simp
  moreover have "start - 1 < start" if "fst r < start" using word_pred_bounds [OF that] by auto
  ultimately show ?thesis by (auto simp: arch_clip_def Let_def)
qed

lemma arch_clip_fold_free: "e820_ok e820 \<Longrightarrow> e820_free e820 (fold (\<lambda>(addr, sz). arch_clip addr (addr + sz - 1)) e820 r)"
proof (induction e820 arbitrary: r)
  case (Cons x xs)
  obtain addr sz where x: "x = (addr, sz)" by (cases x)
  then have ok: "addr \<le> addr + sz - 1" "addr + sz - 1 < - 1" "e820_ok xs" using Cons(2) by (auto simp: e820_ok_def)
  let ?r = "arch_clip addr (addr + sz - 1) r"
  have "e820_free [x] ?r" using arch_clip_free [OF ok(1,2)] x by (simp add: e820_free_def)
  then show ?case using e820_free_shrinks [OF _ arch_clip_fold [OF ok(3)], of "[x]" ?r] Cons(1) [OF ok(3), of ?r] x
    by (simp add: e820_free_def)
qed (simp add: e820_free_def)

definition slot_ok :: "(u64 \<times> u64) list \<Rightarrow> resource_constraint \<Rightarrow> u64 \<Rightarrow> u64 \<Rightarrow> u64 \<times> u64 \<Rightarrow> bool" where
  "slot_ok e820 con flags sz r \<longleftrightarrow> (\<exists>tmp. try_slot con flags sz tmp = Some r \<and> rc_min con \<le> fst tmp \<and> snd tmp \<le> rc_max con \<and>
     (flags AND IORESOURCE_MEM = 0 \<or> e820_free e820 tmp))"

lemma find_slot_ok:
  assumes "e820_ok e820"
  shows "find_slot e820 con flags sz root_end old tstart cs = Some r \<Longrightarrow> slot_ok e820 con flags sz r"
proof -
  have slot: "slot_ok e820 con flags sz r"
    if "try_slot con flags sz (arch_remove_reservations e820 flags (resource_clip (rc_min con) (rc_max con) x)) = Some r" for x r
    proof -
    let ?tmp = "arch_remove_reservations e820 flags (resource_clip (rc_min con) (rc_max con) x)"
    have "rc_min con \<le> fst ?tmp" "snd ?tmp \<le> rc_max con"
      using clip_bounds arch_remove_shrinks [OF assms] unfolding shrinks_def by (blast intro: order_trans)+
    moreover have "flags AND IORESOURCE_MEM = 0 \<or> e820_free e820 ?tmp"
      using arch_clip_fold_free [OF assms] by (simp add: arch_remove_reservations_def)
    ultimately show ?thesis using that unfolding slot_ok_def by blast
  qed
  show "find_slot e820 con flags sz root_end old tstart cs = Some r \<Longrightarrow> slot_ok e820 con flags sz r"
proof (induction cs arbitrary: tstart)
  case Nil
  then show ?case using slot by (auto simp: find_slot.simps Let_def split: if_splits option.splits)
next
  case (Cons c cs)
  from Cons(2) show ?case
    by (subst (asm) find_slot.simps) (auto simp: Let_def split: if_splits option.splits intro: slot Cons(1))
qed
qed

lemma ALIGN_mask: "ALIGN x a AND (a - 1) = 0"
  by (rule bit_word_eqI) (auto simp: ALIGN_def bit_simps)

lemma find_resource_old_ok:
  assumes "e820_ok e820" "find_resource_old e820 root old new sz con = Some r"
  shows "slot_ok e820 con (r_flags new) sz r"
  using assms(2) by (auto simp: find_resource_old_def split: list.splits if_splits intro: find_slot_ok [OF assms(1)])

text \<open>What holds of a slot when the alignment function is the default one.\<close>

definition slot_fits :: "(u64 \<times> u64) list \<Rightarrow> resource_constraint \<Rightarrow> u64 \<Rightarrow> u64 \<Rightarrow> u64 \<Rightarrow> u64 \<Rightarrow> bool" where
  "slot_fits e820 con flags sz s e \<longleftrightarrow>
     e = s + sz - 1 \<and> rc_min con \<le> s \<and> e \<le> rc_max con \<and> s AND (rc_align con - 1) = 0 \<and>
     (flags AND IORESOURCE_MEM = 0 \<or> list_all (\<lambda>(addr, n). e < addr \<or> addr + n - 1 < s) e820)"

lemma simple_slot:
  assumes "slot_ok e820 con flags sz (s, e)" "rc_alignf con = simple_align_resource"
  shows "slot_fits e820 con flags sz s e"
proof -
  obtain tmp where tmp: "try_slot con flags sz tmp = Some (s, e)" "rc_min con \<le> fst tmp" "snd tmp \<le> rc_max con"
      "flags AND IORESOURCE_MEM = 0 \<or> e820_free e820 tmp"
    using assms(1) by (auto simp: slot_ok_def)
  have s: "s = ALIGN (fst tmp) (rc_align con)" "fst tmp \<le> s" "e = s + sz - 1" "e \<le> snd tmp"
    using tmp(1) assms(2) by (auto simp: try_slot_def simple_align_resource_def resource_contains_def Let_def split: if_splits)
  have "list_all (\<lambda>(addr, n). e < addr \<or> addr + n - 1 < s) e820" if "e820_free e820 tmp"
    using that s(2,4) by (auto simp: e820_free_def list_all_iff intro: order.strict_trans1 order.strict_trans2)
  then show ?thesis using tmp s by (auto simp: slot_fits_def ALIGN_mask)
qed

lemma request_list_disjoint:
  assumes "request_list new cs = Inr cs'" "wf_kids lo hi cs" "r_start new \<le> r_end new" "c \<in> set cs"
  shows "r_end new < r_start c \<or> r_end c < r_start new"
  using assms
proof (induction new cs arbitrary: cs' rule: request_list.induct)
  case (2 new tmp cs)
  have "r_start tmp \<le> r_end tmp" "c = tmp \<or> r_end tmp < r_start c" using 2(3,5) wf_res_order by auto
  then have "r_end new < r_start c" if "r_end new < r_start tmp" using that by auto
  then show ?case using 2 by (auto split: if_splits)
qed simp

lemma request_list_perm: "request_list new cs = Inr cs' \<Longrightarrow> mset cs' = add_mset new (mset cs)"
  by (induction new cs arbitrary: cs' rule: request_list.induct) (auto split: if_splits)

lemma request_in_leaf: "request_in root new = Inr root' \<Longrightarrow> r_child new = [] \<Longrightarrow> wf_res root \<Longrightarrow> wf_res root'"
  by (rule request_in_wf) auto


section \<open>The walks end\<close>

lemma next_iomem_Some:
  "next_iomem start en flags desc ps = Some p \<Longrightarrow> p \<in> set ps \<and> start \<le> r_end p \<and> r_start p < en \<and> r_flags p AND flags = flags"
  by (induction start en flags desc ps rule: next_iomem.induct) (auto split: if_splits)

definition nodes :: "resource \<Rightarrow> bool \<Rightarrow> resource list" where
  "nodes root first_level = (if first_level then r_child root else preorder (r_child root))"

definition left_of_walk :: "resource list \<Rightarrow> u64 \<Rightarrow> nat" where
  "left_of_walk ps start = length (filter (\<lambda>p. start \<le> r_end p) ps)"

lemma length_preorder: "length cs \<le> length (preorder cs)"
  by (induction cs rule: preorder.induct) auto

lemma walk_fuel_enough: "left_of_walk (nodes root first_level) start + 2 \<le> walk_fuel root"
  using order_trans [OF length_filter_le length_preorder] by (auto simp: left_of_walk_def nodes_def walk_fuel_def)

text \<open>A step of a walk: it is past the end, or it leaves behind the resource it found.\<close>

lemma find_next_step:
  assumes "find_next_iomem_res root start en flags desc first_level = Ret (Some (s, e, f, d))" "en < - 1" "start < en"
  shows "\<not> e + 1 < en \<or> left_of_walk (nodes root first_level) (e + 1) < left_of_walk (nodes root first_level) start"
proof -
  obtain p where p: "next_iomem start en flags desc (nodes root first_level) = Some p" "e = (if en > r_end p then r_end p else en)"
    using assms(1) by (auto simp: find_next_iomem_res_def nodes_def split: if_splits option.splits)
  note pf = next_iomem_Some [OF p(1)]
  show ?thesis
  proof (cases "en > r_end p")
    case True
    then have "e = r_end p" "r_end p < e + 1" using p(2) word_succ_bounds [OF True] by auto
    then have "left_of_walk (nodes root first_level) (e + 1) < left_of_walk (nodes root first_level) start"
      unfolding left_of_walk_def by (intro filter_length_less [of p]) (use pf in auto)
    then show ?thesis ..
  next
    case False
    then show ?thesis using p(2) word_succ_bounds [OF assms(2)] by auto
  qed
qed

lemma find_next_returns: "start < en \<Longrightarrow> \<exists>r. find_next_iomem_res root start en flags desc first_level = Ret r"
  by (auto simp: find_next_iomem_res_def split: option.split)

lemma walk_iomem_stop: "\<not> start < en \<Longrightarrow> walk_iomem (Suc fuel) root desc fl func orig start en flags ret arg = Ret (ret, arg)"
  by simp

lemma walk_iomem_returns:
  "en < - 1 \<Longrightarrow> left_of_walk (nodes root fl) start + 2 \<le> fuel \<Longrightarrow>
    \<exists>r. walk_iomem fuel root desc fl func en start en flags ret arg = Ret r"
proof (induction fuel arbitrary: start flags ret arg)
  case (Suc fuel)
  show ?case
  proof (cases "start < en")
    case True
    obtain x where x: "find_next_iomem_res root start en flags desc fl = Ret x" using find_next_returns [OF True] by blast
    show ?thesis
    proof (cases x)
      case (Some y)
      obtain s e f d where y: "y = (s, e, f, d)" by (cases y)
      obtain g where g: "fuel = Suc g" using Suc(3) by (cases fuel) auto
      have "\<exists>r. walk_iomem fuel root desc fl func en (e + 1) en f ret' arg' = Ret r" for ret' arg'
        using find_next_step [OF _ Suc(2) True, of root flags desc fl s e f d] Suc(1) [OF Suc(2), of "e + 1" f ret' arg'] Suc(3) x Some y
          walk_iomem_stop [of "e + 1" en g] g by auto
      then show ?thesis using True x Some y by (auto simp: Let_def split: prod.split)
    qed (use True x in simp)
  qed simp
qed simp

lemma walk_ram_returns:
  "en < - 1 \<Longrightarrow> left_of_walk (nodes root True) start + 2 \<le> fuel \<Longrightarrow>
    \<exists>r. walk_ram fuel root func en start en flags ret arg = Ret r"
proof (induction fuel arbitrary: start flags ret arg)
  case (Suc fuel)
  show ?case
  proof (cases "start < en")
    case True
    obtain x where x: "find_next_iomem_res root start en flags 0 True = Ret x" using find_next_returns [OF True] by blast
    show ?thesis
    proof (cases x)
      case (Some y)
      obtain s e f d where y: "y = (s, e, f, d)" by (cases y)
      obtain g where g: "fuel = Suc g" using Suc(3) by (cases fuel) auto
      have "\<exists>r. walk_ram fuel root func en (e + 1) en f ret' arg' = Ret r" for ret' arg'
        using find_next_step [OF _ Suc(2) True, of root flags 0 True s e f d] Suc(1) [OF Suc(2), of "e + 1" f ret' arg'] Suc(3) x Some y g
        by auto
      then show ?thesis using True x Some y by (auto simp: Let_def split: prod.split)
    qed (use True x in simp)
  qed simp
qed simp

section \<open>Properties of the resource tree\<close>





text \<open>
  C20: \<^verbatim>\<open>reserve_region_with_split\<close> ends within its fuel and, when the allocator has a structure for
  each gap, leaves no address of the range unreserved: every old child is still there, the tree is
  well formed, and each address of the range inside the root belongs to a child.
\<close>

theorem reserve_region_covers:
  assumes "wf_res root" "start \<le> en" "length (r_child root) < length ids"
  shows "\<exists>root'. reserve_region_with_split ids root start en = Ret root' \<and> wf_res root' \<and>
    set (r_child root) \<subseteq> set (r_child root') \<and>
    (\<forall>x. start \<le> x \<and> x \<le> en \<and> r_start root \<le> x \<and> x \<le> r_end root \<longrightarrow> (\<exists>c \<in> set (r_child root'). r_start c \<le> x \<and> x \<le> r_end c))"
proof (cases "start > r_end root \<or> en < r_start root")
  case True
  moreover have "r_start root \<le> r_end root" using assms(1) by (rule wf_res_order)
  ultimately have "r_start root > start \<or> r_end root < en" using assms(2) by auto
  then show ?thesis using True assms(1) by (auto simp: reserve_region_with_split_def)
next
  case False
  define a where "a = (if start < r_start root then r_start root else start)"
  define b where "b = (if en > r_end root then r_end root else en)"
  obtain i ids' where ids: "ids = i # ids'" "length (r_child root) \<le> length ids'" using assms(3) by (cases ids) auto
  have eq: "reserve_region_with_split ids root start en = reserve_split (reserve_fuel root) ids' root (busy_resource i a b) None"
    using False ids(1) by (auto simp: reserve_region_with_split_def a_def b_def Let_def)
  have "a \<le> b" "r_start root \<le> a" "b \<le> r_end root" using False assms(2) wf_res_order [OF assms(1)] by (auto simp: a_def b_def not_less)
  moreover have "ahead root a \<le> length (r_child root)" by (simp add: ahead_def)
  ultimately obtain root' where "reserve_split (reserve_fuel root) ids' root (busy_resource i a b) None = Ret root'" "reserved_in root a b root'"
    using reserve_split_covers [OF assms(1), of a b "reserve_fuel root" ids' i] ids(2) by (auto simp: reserve_fuel_def)
  then show ?thesis using eq by (auto simp: reserved_in_def covers_def a_def b_def)
qed

theorem reserve_region_covers_witness:
  "\<exists>root'. reserve_region_with_split [7, 8, 9] (Resource 0 0 0xffff 0x200 0 [Resource 1 0x20 0x3f 0x200 0 []]) 0x10 0x4f = Ret root' \<and>
    (\<exists>c \<in> set (r_child root'). r_start c \<le> 0x45 \<and> 0x45 \<le> r_end c)"
proof -
  let ?root = "Resource 0 0 0xffff 0x200 0 [Resource 1 0x20 0x3f 0x200 0 []]"
  have wf: "wf_res ?root" by (simp add: wf_node)
  obtain root' where "reserve_region_with_split [7, 8, 9] ?root 0x10 0x4f = Ret root'"
      "\<forall>x. 0x10 \<le> x \<and> x \<le> 0x4f \<and> r_start ?root \<le> x \<and> x \<le> r_end ?root \<longrightarrow> (\<exists>c \<in> set (r_child root'). r_start c \<le> x \<and> x \<le> r_end c)"
    using reserve_region_covers [OF wf, of "0x10" "0x4f" "[7, 8, 9]"] by auto
  then show ?thesis by (intro exI [of _ root'] conjI) (simp_all del: resource.sel add: resource.sel(2,3))
qed

text \<open>
  C7: A fresh allocation with the default alignment function either fails with \<^verbatim>\<open>-EBUSY\<close> and no
  change, or adds the resource at a slot of the size asked for that lies within the root and the
  bounds, is aligned, meets no sibling and, for memory, no entry of the E820 table.
\<close>

theorem allocate_resource_sound:
  assumes "wf_res root" "r_child new = []" "e820_ok e820" "rc_alignf con = simple_align_resource"
    and "allocate_resource e820 root new False sz con = Ret (root', r)"
  shows "r = - EBUSY \<and> root' = root \<or>
    r = 0 \<and> wf_res root' \<and> (\<exists>s e. slot_fits e820 con (r_flags new) sz s e \<and> s \<le> e \<and> r_start root \<le> s \<and> e \<le> r_end root \<and>
      list_all (\<lambda>c. e < r_start c \<or> r_end c < s) (r_child root) \<and>
      mset (r_child root') = add_mset (with_range new s e) (mset (r_child root)))"
proof (cases "find_resource_old e820 root None new sz con")
  case (Some x)
  obtain s e where x: "x = (s, e)" by (cases x)
  have fits: "slot_fits e820 con (r_flags new) sz s e"
    using simple_slot [OF find_resource_old_ok [OF assms(3)] assms(4)] Some x by simp
  show ?thesis
  proof (cases "request_in root (with_range new s e)")
    case (Inr root1)
    then have root1: "root' = root1" "r = 0" "s \<le> e" "r_start root \<le> s" "e \<le> r_end root" "same_range root root1"
        "request_list (with_range new s e) (r_child root) = Inr (r_child root1)"
      using assms(5) Some x by (auto simp: allocate_resource_def request_in_def same_range_def not_less split: if_splits)
    then have "list_all (\<lambda>c. e < r_start c \<or> r_end c < s) (r_child root)"
      using request_list_disjoint [OF root1(7)] assms(1) by (auto simp: list_all_iff wf_res_def)
    then show ?thesis
      using root1 fits request_list_perm [OF root1(7)] request_in_leaf [OF Inr] assms(1,2) by auto
  qed (use assms(5) Some x in \<open>simp add: allocate_resource_def\<close>)
qed (use assms(5) in \<open>simp add: allocate_resource_def\<close>)

theorem allocate_resource_sound_witness:
  "\<exists>root'. allocate_resource [(0x1000, 0x1000)] (Resource 0 0 0xffff 0x200 0 [Resource 1 0x4000 0x4fff 0x200 0 []])
      (Resource 2 0 0 0x200 0 []) False 0x1000 \<lparr>rc_min = 0x2000, rc_max = 0x8fff, rc_align = 0x1000, rc_alignf = simple_align_resource\<rparr>
    = Ret (root', 0) \<and> wf_res root'"
proof -
  let ?root = "Resource 0 0 0xffff 0x200 0 [Resource 1 0x4000 0x4fff 0x200 0 []]" and ?new = "Resource 2 0 0 0x200 0 []"
    and ?con = "\<lparr>rc_min = 0x2000, rc_max = 0x8fff, rc_align = 0x1000, rc_alignf = simple_align_resource\<rparr>"
  have run: "allocate_resource [(0x1000, 0x1000)] ?root ?new False 0x1000 ?con =
      Ret (Resource 0 0 0xffff 0x200 0 [Resource 2 0x2000 0x2fff 0x200 0 [], Resource 1 0x4000 0x4fff 0x200 0 []], 0)"
    by code_simp
  have "wf_res ?root" "r_child ?new = []" "e820_ok [(0x1000, 0x1000)]" "rc_alignf ?con = simple_align_resource"
    by (simp_all add: wf_node e820_ok_def)
  from allocate_resource_sound [OF this run] show ?thesis using run by simp
qed


text \<open>The search key after a match keeps the flags of the resource found.\<close>

lemma walk_keeps_flags:
  "walk_mem_res (Resource 0 0 0xffff 0 0 [Resource 1 0 0xfff 0x81000200 0 [], Resource 2 0x1000 0x1fff 0x80000200 0 []])
     0 0x3000 [] (\<lambda>r arg. (0, arg @ [r])) = Ret (0, [(0, 0xfff, 0x81000200, 0)])"
  "walk_mem_res (Resource 0 0 0xffff 0 0 [Resource 2 0x1000 0x1fff 0x80000200 0 []])
     0 0x3000 [] (\<lambda>r arg. (0, arg @ [r])) = Ret (0, [(0x1000, 0x1fff, 0x80000200, 0)])"
  by code_simp+

text \<open>System RAM of less than a page ends the walk before the RAM after it is reported.\<close>

lemma walk_ram_stops:
  "walk_system_ram_range (Resource 0 0 0xffff 0 0 [Resource 1 0 0x7ff 0x81000200 0 [], Resource 2 0x1000 0x2fff 0x81000200 0 []])
     0 3 [] (\<lambda>pfn n arg. (0, arg @ [(pfn, n)])) = Ret (- 1, [])"
  "walk_system_ram_range (Resource 0 0 0xffff 0 0 [Resource 2 0x1000 0x2fff 0x81000200 0 []])
     0 3 [] (\<lambda>pfn n arg. (0, arg @ [(pfn, n)])) = Ret (0, [(1, 2)])"
  by code_simp+

lemma walk_iomem_wraps:
  "walk_iomem fuel (Resource 0 0 (- 1) 0 0 [Resource 1 0 (- 1) 0x80000200 0 []]) 0 False (\<lambda>r arg. (0, arg)) (- 1) 0 (- 1) 0x80000200 ret () = NoFuel"
  by (induction fuel arbitrary: ret) (simp_all add: find_next_iomem_res_def word_gt_0)

text \<open>
  C23: The walks over the tree return, for every tree, key and callback, when the end is below the
  last address; the fuel is two more than the number of resources. At the last address the start of
  the next search wraps around to 0, and a walk that matches a resource up to there never returns.
\<close>

theorem resource_walks_end:
  assumes "en < - 1" "push_bit PAGE_SHIFT (pfn + n) \<noteq> 0"
  shows "(\<exists>r. walk_iomem_res_desc root desc flags start en arg func = Ret r) \<and>
    (\<exists>r. walk_system_ram_res root start en arg func = Ret r) \<and> (\<exists>r. walk_mem_res root start en arg func = Ret r) \<and>
    (\<exists>r. walk_system_ram_range root pfn n arg' func' = Ret r) \<and>
    walk_iomem fuel (Resource 0 0 (- 1) 0 0 [Resource 1 0 (- 1) 0x80000200 0 []]) 0 False (\<lambda>r arg. (0, arg)) (- 1) 0 (- 1) 0x80000200 0 ()
      = NoFuel"
proof -
  have "push_bit PAGE_SHIFT (pfn + n) - 1 < - 1" using assms(2) by (rule word_pred_max)
  note ram = walk_ram_returns [OF this walk_fuel_enough]
  note io = walk_iomem_returns [OF assms(1) walk_fuel_enough]
  show ?thesis
    unfolding walk_iomem_res_desc_def walk_system_ram_res_def walk_mem_res_def walk_system_ram_range_def Let_def
    by (intro conjI io ram walk_iomem_wraps)
qed

theorem resource_walks_end_witness:
  "\<exists>r. walk_mem_res (Resource 0 0 0xffff 0 0 [Resource 2 0x1000 0x1fff 0x80000200 0 []]) 0 0x3000 () (\<lambda>r arg. (0, arg)) = Ret r"
proof -
  have "(0x3000 :: u64) < - 1" "push_bit PAGE_SHIFT (0 + 1 :: u64) \<noteq> 0" by simp_all
  then show ?thesis by (rule resource_walks_end [THEN conjunct2, THEN conjunct2, THEN conjunct1])
qed

end
