(* ===== verification/Spec2Isabelle.thy ===== *)
theory Spec2Isabelle
  imports Memblock_Props Kernel_Range Kernel_String_Words Kernel_Cmdline Kernel_Bitmap_Areas Kernel_Bitmap_Parse Kernel_Kfifo Kernel_Semaphore Kernel_Resource_Props
begin

text \<open>
  A verification library for a Linux kernel tree that is cut down to a bootable minimum
  (x86-64, one processor, the configuration in \<^verbatim>\<open>src/minimalconfig\<close>).
\<close>

end
